(* ===== verification/Exios_Prelude.thy ===== *)
theory Exios_Prelude
  imports Main "HOL-Library.Word"
begin

text \<open>
  Shared vocabulary of the exios development.

  \<^item> Computations. A C++ function of exios either returns, stops the process
    (a failed \<^verbatim>\<open>EXIOS_EXPECT\<close> calls \<^verbatim>\<open>std::terminate\<close>, an access through a bad
    pointer is undefined behaviour), or never returns. The type \<open>'a run\<close> keeps the three
    apart: \<open>None\<close> is a computation that does not return, \<open>Some (Inl f)\<close> one that stops with
    the fault \<open>f\<close>, \<open>Some (Inr x)\<close> one that returns \<open>x\<close>. Exceptions are ordinary values of the
    functions that can throw, because the state survives them.
  \<^item> Machine integers and error numbers, with the values of the Linux headers.
  \<^item> The lemma collections the component theories share.
\<close>

named_theorems run_simps \<open>evaluation of the sequencing combinators\<close>
named_theorems list_repr \<open>effect of the intrusive list operations on represented lists\<close>
named_theorems frame \<open>what an operation leaves unchanged\<close>


section \<open>Computations\<close>

datatype fault =
    ContractViolation  \<comment> \<open>\<^verbatim>\<open>contract_check_failed\<close>\<close>
  | BadAccess          \<comment> \<open>undefined behaviour: null, dangling or out of bounds access\<close>
  | NoexceptViolation  \<comment> \<open>an exception leaves a \<^verbatim>\<open>noexcept\<close> function: \<^verbatim>\<open>std::terminate\<close>\<close>
  | BadVariantAccess   \<comment> \<open>\<^verbatim>\<open>std::get\<close> of the wrong alternative in a noexcept function\<close>

type_synonym 'a run = "(fault + 'a) option"

abbreviation Ok :: "'a \<Rightarrow> 'a run" where
  "Ok x \<equiv> Some (Inr x)"

abbreviation Fault :: "fault \<Rightarrow> 'a run" where
  "Fault f \<equiv> Some (Inl f)"

abbreviation Diverges :: "'a run" where
  "Diverges \<equiv> None"

definition run_bind :: "'a run \<Rightarrow> ('a \<Rightarrow> 'b run) \<Rightarrow> 'b run" where
  "run_bind m f = Option.bind m (\<lambda>r. case r of Inl e \<Rightarrow> Some (Inl e) | Inr x \<Rightarrow> f x)"

lemma run_bind_simps [simp, run_simps]:
  "run_bind (Ok x) f = f x"
  "run_bind (Fault e) f = Fault e"
  "run_bind Diverges f = Diverges"
  by (simp_all add: run_bind_def)

lemma run_bind_assoc: "run_bind (run_bind m f) g = run_bind m (\<lambda>x. run_bind (f x) g)"
  by (cases m) (auto simp: run_bind_def split: sum.splits)

lemma run_bind_eq_Ok:
  "run_bind m f = Ok y \<longleftrightarrow> (\<exists>x. m = Ok x \<and> f x = Ok y)"
  by (cases m) (auto simp: run_bind_def split: sum.splits)

lemma run_bind_mono [partial_function_mono]:
  assumes "mono_option B" and "\<And>y. mono_option (\<lambda>f. C y f)"
  shows "mono_option (\<lambda>f. run_bind (B f) (\<lambda>y. C y f))"
  unfolding run_bind_def
proof (rule bind_mono [OF assms(1)])
  fix y :: "fault + 'c"
  show "mono_option (\<lambda>f. case y of Inl e \<Rightarrow> Fault e | Inr x \<Rightarrow> C x f)"
    by (cases y) (auto intro: assms(2) option.const_mono)
qed

text \<open>\<^verbatim>\<open>EXIOS_EXPECT(cond)\<close>: continue when the condition holds, terminate otherwise.\<close>

definition exios_expect :: "bool \<Rightarrow> 'a run \<Rightarrow> 'a run" where
  "exios_expect c m = (if c then m else Fault ContractViolation)"

lemma exios_expect_simps [simp, run_simps]:
  "exios_expect True m = m"
  "exios_expect False m = Fault ContractViolation"
  by (simp_all add: exios_expect_def)

lemma exios_expect_mono [partial_function_mono]:
  "mono_option m \<Longrightarrow> mono_option (\<lambda>f. exios_expect c (m f))"
  by (cases c) (auto intro: option.const_mono)

section \<open>Scope guards\<close>

text \<open>
  \<^verbatim>\<open>ScopeGuard\<close> (\<^verbatim>\<open>scope_guard.hpp\<close>): a function that changes some state, called by the
  destructor unless the guard has been deactivated.
\<close>

record 's scope_guard =
  guard_fn :: "'s \<Rightarrow> 's run"
  guard_active :: bool

definition ScopeGuard :: "('s \<Rightarrow> 's run) \<Rightarrow> 's scope_guard" where
  "ScopeGuard f = \<lparr>guard_fn = f, guard_active = True\<rparr>"

definition deactivate :: "'s scope_guard \<Rightarrow> 's scope_guard" where
  "deactivate g = g\<lparr>guard_active := False\<rparr>"

definition ScopeGuard_destroy :: "'s scope_guard \<Rightarrow> 's \<Rightarrow> 's run" where
  "ScopeGuard_destroy g s = (if guard_active g then guard_fn g s else Ok s)"

lemma ScopeGuard_destroy_simps [simp, run_simps]:
  "ScopeGuard_destroy (ScopeGuard f) s = f s"
  "ScopeGuard_destroy (deactivate g) s = Ok s"
  by (simp_all add: ScopeGuard_destroy_def ScopeGuard_def deactivate_def)

section \<open>Stopping\<close>

text \<open>A computation that does not return normally: it runs for ever, or stops with a fault.\<close>

definition stop :: "fault option \<Rightarrow> 'a run" where
  "stop z = (case z of None \<Rightarrow> Diverges | Some f \<Rightarrow> Fault f)"

lemma run_bind_stop [simp]: "run_bind (stop z) f = stop z"
  by (simp add: stop_def split: option.split)

lemma stop_simps: "stop None = Diverges" "stop (Some f) = Fault f"
  by (simp_all add: stop_def)

lemma stop_not_Ok [simp]: "stop z \<noteq> Ok x" "Ok x \<noteq> stop z"
  by (simp_all add: stop_def split: option.split)

section \<open>Counters of 64 bits\<close>

lemma unat_u64: "n < 2 ^ 64 \<Longrightarrow> unat (of_nat n :: 64 word) = n"
  by (simp add: unat_of_nat take_bit_nat_eq_self)

lemma u64_pos: "Suc n < 2 ^ 64 \<Longrightarrow> (of_nat (Suc n) :: 64 word) \<noteq> 0"
  using unat_u64 [of "Suc n"] by (metis Zero_not_Suc unsigned_0)

lemma u64_less_max: "Suc n < 2 ^ 64 \<Longrightarrow> (of_nat n :: 64 word) < -1"
  using unat_u64 [of n] by (simp add: word_less_nat_alt unsigned_minus_1_eq_mask mask_eq_exp_minus_1)

lemma u64_eq_0: "n < 2 ^ 64 \<Longrightarrow> (of_nat n :: 64 word) = 0 \<longleftrightarrow> n = 0"
proof -
  assume "n < 2 ^ 64"
  then have "unat (of_nat n :: 64 word) = n" by (rule unat_u64)
  then show ?thesis by (cases "n = 0") auto
qed

end
