(* ===== verification/Posix.thy ===== *)
theory Posix
  imports Exios_Prelude
begin

text \<open>
  The operating system as exios sees it. The kernel is not part of the repository: it is a
  parameter, a function that answers one system call at a time and moves from one state of
  its own to the next. This theory only fixes the vocabulary: the structures of the system
  headers that exios fills or reads, the calls it makes with their arguments, the error
  numbers it compares with (the Linux values), and the shape of an answer. What exios relies
  on is stated as hypotheses where it is used.
\<close>

type_synonym u8 = "8 word"
type_synonym u16 = "16 word"
type_synonym u32 = "32 word"
type_synonym u64 = "64 word"
type_synonym fd = int

section \<open>Error numbers and event masks\<close>

definition ENOENT :: int where "ENOENT = 2"
definition EBADF :: int where "EBADF = 9"
definition EAGAIN :: int where "EAGAIN = 11"
definition EEXIST :: int where "EEXIST = 17"
definition EINPROGRESS :: int where "EINPROGRESS = 115"
definition ECANCELED :: int where "ECANCELED = 125"

abbreviation EWOULDBLOCK :: int where "EWOULDBLOCK \<equiv> EAGAIN"

definition EPOLLIN :: u32 where "EPOLLIN = 1"
definition EPOLLOUT :: u32 where "EPOLLOUT = 4"

definition AF_UNIX :: u16 where "AF_UNIX = 1"
definition AF_INET :: u16 where "AF_INET = 2"

definition MSG_DONTWAIT :: u32 where "MSG_DONTWAIT = 0x40"
definition MSG_NOSIGNAL :: u32 where "MSG_NOSIGNAL = 0x4000"

lemmas errno_defs = ENOENT_def EBADF_def EAGAIN_def EEXIST_def EINPROGRESS_def ECANCELED_def
lemmas epoll_defs = EPOLLIN_def EPOLLOUT_def

section \<open>Structures\<close>

text \<open>
  A pointer handed to a system call points into memory of the user of the library, at a
  local \<^verbatim>\<open>std::uint64_t\<close> with the given value, or at a local \<^verbatim>\<open>signalfd_siginfo\<close>.
\<close>

datatype data_ref = UserMem nat | LocalU64 u64 | LocalSiginfo

text \<open>A local variable that is written by a system call or not at all.\<close>

datatype 'a cell = Init 'a | Indeterminate

record sockaddr_in =
  sin_family :: u16
  sin_port :: u16
  sin_addr :: u32

record sockaddr_un =
  sun_family :: u16
  sun_path :: string

record msghdr =
  msg_name :: nat
  msg_iov :: "(nat \<times> nat) list"
  msg_control :: nat
  msg_flags :: u32

record signalfd_siginfo =
  ssi_signo :: u32
  ssi_code :: u32

record itimerspec =
  tv_sec :: int
  tv_nsec :: int

record epoll_event =
  ev_events :: u32
  ev_fd :: fd

datatype epoll_op = EPOLL_CTL_ADD | EPOLL_CTL_MOD | EPOLL_CTL_DEL

section \<open>System calls\<close>

text \<open>
  \<^verbatim>\<open>Sys_eventfd\<close> has the flag of semaphore mode, \<^verbatim>\<open>Sys_socket\<close> the domain and whether the
  socket is a stream; the two signal set functions of the C library are answered like calls.
\<close>

datatype syscall =
    Sys_read fd data_ref nat
  | Sys_write fd data_ref nat
  | Sys_recvmsg fd msghdr u32
  | Sys_sendmsg fd msghdr u32
  | Sys_connect_un fd sockaddr_un
  | Sys_connect_in fd sockaddr_in
  | Sys_accept fd
  | Sys_sendto fd data_ref nat u32 sockaddr_in
  | Sys_recvfrom fd data_ref nat u32
  | Sys_epoll_create
  | Sys_epoll_ctl fd epoll_op fd u32
  | Sys_epoll_wait fd nat int
  | Sys_eventfd bool
  | Sys_timerfd_create
  | Sys_timerfd_settime fd itimerspec
  | Sys_signalfd int
  | Sys_socket u16 bool
  | Sys_setsockopt_reuseaddr fd
  | Sys_bind_in fd sockaddr_in
  | Sys_bind_un fd sockaddr_un
  | Sys_listen fd
  | Sys_close fd
  | Sys_sigemptyset
  | Sys_sigaddset int

text \<open>What a call writes through its output pointers.\<close>

datatype sys_out =
    OutNothing
  | OutU64 u64
  | OutSiginfo signalfd_siginfo
  | OutMsg msghdr
  | OutAddr sockaddr_in
  | OutEvents "epoll_event list"

record sys_result =
  sr_ret :: int
  sr_errno :: int
  sr_out :: sys_out

type_synonym 'k kernel = "'k \<Rightarrow> syscall \<Rightarrow> sys_result \<times> 'k"

definition out_u64 :: "sys_result \<Rightarrow> u64 cell" where
  "out_u64 r = (case sr_out r of OutU64 v \<Rightarrow> Init v | _ \<Rightarrow> Indeterminate)"

definition out_siginfo :: "sys_result \<Rightarrow> signalfd_siginfo cell" where
  "out_siginfo r = (case sr_out r of OutSiginfo v \<Rightarrow> Init v | _ \<Rightarrow> Indeterminate)"

end
