(* ===== verification/Result.thy ===== *)
theory Result
  imports Exios_Prelude
begin

text \<open>
  \<^verbatim>\<open>include/exios/result.hpp\<close> and \<^verbatim>\<open>src/result.cpp\<close>: a value or an error. A
  \<^verbatim>\<open>ResultStorage<E, R>\<close> is a variant whose first alternative is the error; the type
  \<^verbatim>\<open>Result<E>\<close> has \<^verbatim>\<open>VoidResult\<close> for its value. Taking the alternative that is not there
  throws inside a \<^verbatim>\<open>noexcept\<close> function, which terminates.
\<close>

datatype ('r, 'e) result = ErrorValue 'e | ResultValue 'r

type_synonym void_result = unit

definition is_error_value :: "('r, 'e) result \<Rightarrow> bool" where
  "is_error_value r = (case r of ErrorValue _ \<Rightarrow> True | ResultValue _ \<Rightarrow> False)"

definition is_result_value :: "('r, 'e) result \<Rightarrow> bool" where
  "is_result_value r = (\<not> is_error_value r)"

text \<open>\<^verbatim>\<open>operator bool\<close>\<close>

definition result_bool :: "('r, 'e) result \<Rightarrow> bool" where
  "result_bool r = is_result_value r"

text \<open>The members \<^verbatim>\<open>error()\<close> and \<^verbatim>\<open>value()\<close> (also \<^verbatim>\<open>operator*\<close>), and the free functions.\<close>

definition error_of :: "('r, 'e) result \<Rightarrow> 'e run" where
  "error_of r = (case r of ErrorValue e \<Rightarrow> Ok e | ResultValue _ \<Rightarrow> Fault BadVariantAccess)"

definition value_of :: "('r, 'e) result \<Rightarrow> 'r run" where
  "value_of r = (case r of ErrorValue _ \<Rightarrow> Fault BadVariantAccess | ResultValue v \<Rightarrow> Ok v)"

definition get_error :: "('r, 'e) result \<Rightarrow> 'e run" where
  "get_error r = error_of r"

definition get_value :: "('r, 'e) result \<Rightarrow> 'r run" where
  "get_value r = value_of r"

definition result_ok :: "'r \<Rightarrow> ('r, 'e) result" where
  "result_ok v = ResultValue v"

text \<open>\<^verbatim>\<open>result_ok()\<close> without a value.\<close>

definition result_ok_void :: void_result where
  "result_ok_void = ()"

definition result_error :: "'e \<Rightarrow> ('r, 'e) result" where
  "result_error e = ErrorValue e"

text \<open>
  Conversion between results whose alternatives convert; \<^verbatim>\<open>VoidResult\<close> is constructible
  from anything.
\<close>

definition convert_result :: "('e \<Rightarrow> 'f) \<Rightarrow> ('r \<Rightarrow> 's) \<Rightarrow> ('r, 'e) result \<Rightarrow> ('s, 'f) result" where
  "convert_result fe fr r =
     (case r of ErrorValue e \<Rightarrow> ErrorValue (fe e) | ResultValue v \<Rightarrow> ResultValue (fr v))"

definition to_void :: "'r \<Rightarrow> void_result" where
  "to_void _ = ()"

lemma result_simps [simp]:
  "is_error_value (ErrorValue e)" "\<not> is_error_value (ResultValue v)"
  "is_result_value r \<longleftrightarrow> \<not> is_error_value r"
  "result_ok v = ResultValue v" "result_error e = ErrorValue e"
  "get_error (ErrorValue e) = Ok e" "get_value (ResultValue v) = Ok v"
  by (simp_all add: is_error_value_def is_result_value_def get_error_def get_value_def error_of_def
      value_of_def result_ok_def result_error_def)

text \<open>
  A conversion keeps the alternative, so testing, reading the value and reading the error of a
  converted result give what the conversions of the original give.
\<close>

lemma convert_result_alternative:
  "result_bool (convert_result fe fr r) = result_bool r"
  "get_value (convert_result fe fr r) = run_bind (get_value r) (\<lambda>v. Ok (fr v))"
  "get_error (convert_result fe fr r) = run_bind (get_error r) (\<lambda>e. Ok (fe e))"
  by (cases r; simp add: convert_result_def result_bool_def get_error_def get_value_def error_of_def value_of_def)+

end
