(* ===== verification/Io.thy ===== *)
theory Io
  imports Posix Result
begin

text \<open>
  The I/O operations of \<^verbatim>\<open>include/exios/io.hpp\<close> and \<^verbatim>\<open>src/io.cpp\<close>. Each of the twelve
  operation structs is a record with the struct's members; its \<^verbatim>\<open>io(fd)\<close> makes one system
  call and returns whether the operation is finished, its \<^verbatim>\<open>cancel()\<close> stores the error
  \<^verbatim>\<open>operation_canceled\<close>, and its \<^verbatim>\<open>dispatch(f)\<close> hands the stored result to the handler.

  The locale \<open>io_operation\<close> is the contract of the (duck typed) operation structs that
  \<^verbatim>\<open>AsyncIoOperationImpl\<close> relies on; it is interpreted for every struct and for the sum
  \<open>io_op\<close> of them all, through which the scheduler calls them.
\<close>

section \<open>Error codes\<close>

datatype error_category = SystemCategory | GenericCategory

record error_code =
  ec_value :: int
  ec_category :: error_category

text \<open>\<^verbatim>\<open>std::error_code { errno, std::system_category() }\<close>\<close>

definition system_error_code :: "int \<Rightarrow> error_code" where
  "system_error_code e = \<lparr>ec_value = e, ec_category = SystemCategory\<rparr>"

text \<open>\<^verbatim>\<open>std::make_error_code(std::errc)\<close>\<close>

definition make_error_code :: "int \<Rightarrow> error_code" where
  "make_error_code e = \<lparr>ec_value = e, ec_category = GenericCategory\<rparr>"

text \<open>
  Comparison of an error code with an \<^verbatim>\<open>std::errc\<close>: the system category maps the error
  numbers of POSIX to the generic category.
\<close>

definition error_is :: "error_code \<Rightarrow> int \<Rightarrow> bool" where
  "error_is ec e \<longleftrightarrow> ec_value ec = e"

abbreviation would_block :: "('r, error_code) result \<Rightarrow> bool" where
  "would_block r \<equiv> (case r of ErrorValue ec \<Rightarrow> error_is ec EWOULDBLOCK | ResultValue _ \<Rightarrow> False)"

abbreviation would_block_or_in_progress :: "('r, error_code) result \<Rightarrow> bool" where
  "would_block_or_in_progress r \<equiv>
     (case r of ErrorValue ec \<Rightarrow> error_is ec EWOULDBLOCK \<or> error_is ec EINPROGRESS
      | ResultValue _ \<Rightarrow> False)"

type_synonym io_result = "(nat, error_code) result"
type_synonym connect_result = "(void_result, error_code) result"
type_synonym accept_result = "(int, error_code) result"
type_synonym timer_or_event_io_result = "(u64 cell, error_code) result"
type_synonym signal_result = "(signalfd_siginfo cell, error_code) result"
type_synonym receive_message_result = "(nat \<times> msghdr, error_code) result"
type_synonym receive_from_result = "(nat \<times> sockaddr_in, error_code) result"

definition operation_canceled :: "('r, error_code) result" where
  "operation_canceled = result_error (make_error_code ECANCELED)"

section \<open>Buffers\<close>

record buffer_view =
  bv_data :: data_ref
  bv_size :: nat

section \<open>The system calls behind the operations\<close>

definition perform_read :: "'k kernel \<Rightarrow> 'k \<Rightarrow> fd \<Rightarrow> buffer_view \<Rightarrow> (io_result \<times> sys_result) \<times> 'k" where
  "perform_read K k fd buf =
     (let (r, k') = K k (Sys_read fd (bv_data buf) (bv_size buf))
      in ((if sr_ret r < 0 then result_error (system_error_code (sr_errno r))
           else result_ok (nat (sr_ret r)), r), k'))"

definition perform_write :: "'k kernel \<Rightarrow> 'k \<Rightarrow> fd \<Rightarrow> buffer_view \<Rightarrow> io_result \<times> 'k" where
  "perform_write K k fd buf =
     (let (r, k') = K k (Sys_write fd (bv_data buf) (bv_size buf))
      in (if sr_ret r < 0 then result_error (system_error_code (sr_errno r))
          else result_ok (nat (sr_ret r)), k'))"

text \<open>\<^verbatim>\<open>recvmsg\<close> may write to the message header, which is passed by reference.\<close>

definition perform_receive ::
  "'k kernel \<Rightarrow> 'k \<Rightarrow> fd \<Rightarrow> msghdr \<Rightarrow> (receive_message_result \<times> msghdr) \<times> 'k" where
  "perform_receive K k fd buf =
     (let (r, k') = K k (Sys_recvmsg fd buf (or MSG_DONTWAIT MSG_NOSIGNAL));
          buf' = (case sr_out r of OutMsg m \<Rightarrow> m | _ \<Rightarrow> buf)
      in ((if sr_ret r < 0 then result_error (system_error_code (sr_errno r))
           else result_ok (nat (sr_ret r), buf'), buf'), k'))"

definition perform_send :: "'k kernel \<Rightarrow> 'k \<Rightarrow> fd \<Rightarrow> msghdr \<Rightarrow> io_result \<times> 'k" where
  "perform_send K k fd buf =
     (let (r, k') = K k (Sys_sendmsg fd buf (or MSG_DONTWAIT MSG_NOSIGNAL))
      in (if sr_ret r < 0 then result_error (system_error_code (sr_errno r))
          else result_ok (nat (sr_ret r)), k'))"

definition perform_timer_or_event_read ::
  "'k kernel \<Rightarrow> 'k \<Rightarrow> fd \<Rightarrow> timer_or_event_io_result \<times> 'k" where
  "perform_timer_or_event_read K k fd =
     (let (r, k') = K k (Sys_read fd (LocalU64 0) 8)
      in (if sr_ret r < 0 then result_error (system_error_code (sr_errno r))
          else result_ok (out_u64 r), k'))"

section \<open>The operation structs\<close>

text \<open>
  The members of the structs. \<^verbatim>\<open>IoRead\<close> and \<^verbatim>\<open>IoWrite\<close> inherit \<^verbatim>\<open>result_\<close>,
  \<^verbatim>\<open>set_result\<close> and \<^verbatim>\<open>cancel\<close> from \<^verbatim>\<open>IoOpBase\<close>.
\<close>

record io_op_base =
  base_result :: "io_result option"

record io_read = io_op_base +
  rd_buffer :: buffer_view

record io_write = io_op_base +
  wr_buffer :: buffer_view

record receive_message =
  rm_result :: "receive_message_result option"
  rm_msg :: msghdr

record send_message =
  sm_result :: "io_result option"
  sm_msg :: msghdr

record net_send_to =
  st_result :: "io_result option"
  st_buffer :: buffer_view
  st_addr :: sockaddr_in

record net_receive_from =
  rf_result :: "receive_from_result option"
  rf_buffer :: buffer_view

record unix_connect =
  uc_result :: "connect_result option"
  uc_addr :: sockaddr_un

record net_connect =
  nc_result :: "connect_result option"
  nc_addr :: sockaddr_in

record unix_accept =
  ua_result :: "accept_result option"

record timer_expiry_or_event =
  te_result :: "timer_or_event_io_result option"

record event_write =
  ew_value :: "u64 option"
  ew_result :: "io_result option"

record signal_read =
  sg_result :: "signal_result option"

definition set_result :: "'a io_op_base_scheme \<Rightarrow> io_result \<Rightarrow> 'a io_op_base_scheme run" where
  "set_result op r = exios_expect (base_result op = None) (Ok (op\<lparr>base_result := Some r\<rparr>))"

definition IoOpBase_cancel :: "'a io_op_base_scheme \<Rightarrow> 'a io_op_base_scheme" where
  "IoOpBase_cancel op = op\<lparr>base_result := Some operation_canceled\<rparr>"

definition IoRead_construct :: "buffer_view \<Rightarrow> io_read" where
  "IoRead_construct buffer = \<lparr>base_result = None, rd_buffer = buffer\<rparr>"

definition IoRead_io :: "'k kernel \<Rightarrow> 'k \<Rightarrow> io_read \<Rightarrow> fd \<Rightarrow> (bool \<times> io_read \<times> 'k) run" where
  "IoRead_io K k op fd =
     (let ((r, _), k') = perform_read K k fd (rd_buffer op)
      in if would_block r then Ok (False, op, k')
         else run_bind (set_result op r) (\<lambda>op'. Ok (True, op', k')))"

definition IoWrite_construct :: "buffer_view \<Rightarrow> io_write" where
  "IoWrite_construct buffer = \<lparr>base_result = None, wr_buffer = buffer\<rparr>"

definition IoWrite_io :: "'k kernel \<Rightarrow> 'k \<Rightarrow> io_write \<Rightarrow> fd \<Rightarrow> (bool \<times> io_write \<times> 'k) run" where
  "IoWrite_io K k op fd =
     (let (r, k') = perform_write K k fd (wr_buffer op)
      in if would_block r then Ok (False, op, k')
         else run_bind (set_result op r) (\<lambda>op'. Ok (True, op', k')))"

text \<open>
  \<^verbatim>\<open>sun_path\<close> has 108 characters; the name is copied behind a leading null character into
  the zero-initialised structure.
\<close>

definition sun_path_size :: nat where
  "sun_path_size = 108"

definition abstract_path :: "string \<Rightarrow> string" where
  "abstract_path name = CHR 0x00 # name @ replicate (sun_path_size - 1 - length name) (CHR 0x00)"

definition UnixConnect_construct :: "string \<Rightarrow> unix_connect run" where
  "UnixConnect_construct name =
     exios_expect (length name < sun_path_size)
      (Ok \<lparr>uc_result = None,
           uc_addr = \<lparr>sun_family = AF_UNIX, sun_path = abstract_path name\<rparr>\<rparr>)"

definition UnixConnect_io ::
  "'k kernel \<Rightarrow> 'k \<Rightarrow> unix_connect \<Rightarrow> fd \<Rightarrow> (bool \<times> unix_connect \<times> 'k) run" where
  "UnixConnect_io K k op fd =
     exios_expect (uc_result op = None)
      (let (r, k') = K k (Sys_connect_un fd (uc_addr op))
       in if sr_ret r < 0 \<and> (sr_errno r = EAGAIN \<or> sr_errno r = EINPROGRESS) then Ok (False, op, k')
          else if sr_ret r < 0
          then Ok (True, op\<lparr>uc_result := Some (result_error (system_error_code (sr_errno r)))\<rparr>, k')
          else Ok (True, op\<lparr>uc_result := Some (ResultValue ())\<rparr>, k'))"

definition UnixConnect_cancel :: "unix_connect \<Rightarrow> unix_connect" where
  "UnixConnect_cancel op = op\<lparr>uc_result := Some operation_canceled\<rparr>"

definition NetConnect_construct :: "sockaddr_in \<Rightarrow> net_connect" where
  "NetConnect_construct addr = \<lparr>nc_result = None, nc_addr = addr\<rparr>"

definition NetConnect_io ::
  "'k kernel \<Rightarrow> 'k \<Rightarrow> net_connect \<Rightarrow> fd \<Rightarrow> (bool \<times> net_connect \<times> 'k) run" where
  "NetConnect_io K k op fd =
     exios_expect (nc_result op = None)
      (let (r, k') = K k (Sys_connect_in fd (nc_addr op))
       in if sr_ret r < 0 \<and> (sr_errno r = EAGAIN \<or> sr_errno r = EINPROGRESS) then Ok (False, op, k')
          else if sr_ret r < 0
          then Ok (True, op\<lparr>nc_result := Some (result_error (system_error_code (sr_errno r)))\<rparr>, k')
          else Ok (True, op\<lparr>nc_result := Some (ResultValue ())\<rparr>, k'))"

definition NetConnect_cancel :: "net_connect \<Rightarrow> net_connect" where
  "NetConnect_cancel op = op\<lparr>nc_result := Some operation_canceled\<rparr>"

definition UnixAccept_construct :: unix_accept where
  "UnixAccept_construct = \<lparr>ua_result = None\<rparr>"

definition UnixAccept_io ::
  "'k kernel \<Rightarrow> 'k \<Rightarrow> unix_accept \<Rightarrow> fd \<Rightarrow> (bool \<times> unix_accept \<times> 'k) run" where
  "UnixAccept_io K k op fd =
     exios_expect (ua_result op = None)
      (let (r, k') = K k (Sys_accept fd)
       in if sr_ret r < 0 \<and> (sr_errno r = EAGAIN \<or> sr_errno r = EINPROGRESS) then Ok (False, op, k')
          else if sr_ret r < 0
          then Ok (True, op\<lparr>ua_result := Some (result_error (system_error_code (sr_errno r)))\<rparr>, k')
          else Ok (True, op\<lparr>ua_result := Some (result_ok (sr_ret r))\<rparr>, k'))"

definition UnixAccept_cancel :: "unix_accept \<Rightarrow> unix_accept" where
  "UnixAccept_cancel op = op\<lparr>ua_result := Some operation_canceled\<rparr>"

definition TimerExpiryOrEvent_construct :: timer_expiry_or_event where
  "TimerExpiryOrEvent_construct = \<lparr>te_result = None\<rparr>"

definition TimerExpiryOrEvent_io ::
  "'k kernel \<Rightarrow> 'k \<Rightarrow> timer_expiry_or_event \<Rightarrow> fd \<Rightarrow> (bool \<times> timer_expiry_or_event \<times> 'k) run" where
  "TimerExpiryOrEvent_io K k op fd =
     exios_expect (te_result op = None)
      (let (r, k') = perform_timer_or_event_read K k fd
       in if would_block_or_in_progress r then Ok (False, op, k')
          else Ok (True, op\<lparr>te_result := Some r\<rparr>, k'))"

definition TimerExpiryOrEvent_cancel :: "timer_expiry_or_event \<Rightarrow> timer_expiry_or_event" where
  "TimerExpiryOrEvent_cancel op = op\<lparr>te_result := Some operation_canceled\<rparr>"

definition EventWrite_construct :: "u64 option \<Rightarrow> event_write" where
  "EventWrite_construct v = \<lparr>ew_value = v, ew_result = None\<rparr>"

definition EventWrite_io ::
  "'k kernel \<Rightarrow> 'k \<Rightarrow> event_write \<Rightarrow> fd \<Rightarrow> (bool \<times> event_write \<times> 'k) run" where
  "EventWrite_io K k op fd =
     exios_expect (ew_result op = None)
      (let val = (case ew_value op of Some v \<Rightarrow> v | None \<Rightarrow> 1);
           (r, k') = perform_write K k fd \<lparr>bv_data = LocalU64 val, bv_size = 8\<rparr>
       in if would_block_or_in_progress r then Ok (False, op, k')
          else Ok (True, op\<lparr>ew_result := Some r\<rparr>, k'))"

definition EventWrite_cancel :: "event_write \<Rightarrow> event_write" where
  "EventWrite_cancel op = op\<lparr>ew_result := Some operation_canceled\<rparr>"

definition SignalRead_construct :: signal_read where
  "SignalRead_construct = \<lparr>sg_result = None\<rparr>"

text \<open>\<^verbatim>\<open>sizeof(signalfd_siginfo)\<close> is 128. The result of a failed read is not looked at.\<close>

definition SignalRead_io ::
  "'k kernel \<Rightarrow> 'k \<Rightarrow> signal_read \<Rightarrow> fd \<Rightarrow> (bool \<times> signal_read \<times> 'k) run" where
  "SignalRead_io K k op fd =
     exios_expect (sg_result op = None)
      (let ((r, sr), k') = perform_read K k fd \<lparr>bv_data = LocalSiginfo, bv_size = 128\<rparr>
       in if would_block_or_in_progress r then Ok (False, op, k')
          else Ok (True, op\<lparr>sg_result := Some (result_ok (out_siginfo sr))\<rparr>, k'))"

definition SignalRead_cancel :: "signal_read \<Rightarrow> signal_read" where
  "SignalRead_cancel op = op\<lparr>sg_result := Some operation_canceled\<rparr>"

definition SendMessage_construct :: "msghdr \<Rightarrow> send_message" where
  "SendMessage_construct msg = \<lparr>sm_result = None, sm_msg = msg\<rparr>"

definition SendMessage_io ::
  "'k kernel \<Rightarrow> 'k \<Rightarrow> send_message \<Rightarrow> fd \<Rightarrow> (bool \<times> send_message \<times> 'k) run" where
  "SendMessage_io K k op fd =
     exios_expect (sm_result op = None)
      (let (r, k') = perform_send K k fd (sm_msg op)
       in if would_block_or_in_progress r then Ok (False, op, k')
          else Ok (True, op\<lparr>sm_result := Some r\<rparr>, k'))"

definition SendMessage_cancel :: "send_message \<Rightarrow> send_message" where
  "SendMessage_cancel op = op\<lparr>sm_result := Some operation_canceled\<rparr>"

definition ReceiveMessage_construct :: "msghdr \<Rightarrow> receive_message" where
  "ReceiveMessage_construct msg = \<lparr>rm_result = None, rm_msg = msg\<rparr>"

definition ReceiveMessage_io ::
  "'k kernel \<Rightarrow> 'k \<Rightarrow> receive_message \<Rightarrow> fd \<Rightarrow> (bool \<times> receive_message \<times> 'k) run" where
  "ReceiveMessage_io K k op fd =
     exios_expect (rm_result op = None)
      (let ((r, msg), k') = perform_receive K k fd (rm_msg op);
           op' = op\<lparr>rm_msg := msg\<rparr>
       in if would_block_or_in_progress r then Ok (False, op', k')
          else Ok (True, op'\<lparr>rm_result := Some r\<rparr>, k'))"

definition ReceiveMessage_cancel :: "receive_message \<Rightarrow> receive_message" where
  "ReceiveMessage_cancel op = op\<lparr>rm_result := Some operation_canceled\<rparr>"

definition NetSendTo_construct :: "buffer_view \<Rightarrow> sockaddr_in \<Rightarrow> net_send_to" where
  "NetSendTo_construct buffer addr = \<lparr>st_result = None, st_buffer = buffer, st_addr = addr\<rparr>"

definition NetSendTo_io ::
  "'k kernel \<Rightarrow> 'k \<Rightarrow> net_send_to \<Rightarrow> fd \<Rightarrow> (bool \<times> net_send_to \<times> 'k) run" where
  "NetSendTo_io K k op fd =
     exios_expect (st_result op = None)
      (let (r, k') = K k (Sys_sendto fd (bv_data (st_buffer op)) (bv_size (st_buffer op)) 0 (st_addr op))
       in if sr_ret r < 0 \<and> (sr_errno r = EAGAIN \<or> sr_errno r = EINPROGRESS) then Ok (False, op, k')
          else if sr_ret r < 0
          then Ok (True, op\<lparr>st_result := Some (result_error (system_error_code (sr_errno r)))\<rparr>, k')
          else Ok (True, op\<lparr>st_result := Some (result_ok (nat (sr_ret r)))\<rparr>, k'))"

definition NetSendTo_cancel :: "net_send_to \<Rightarrow> net_send_to" where
  "NetSendTo_cancel op = op\<lparr>st_result := Some operation_canceled\<rparr>"

definition NetReceiveFrom_construct :: "buffer_view \<Rightarrow> net_receive_from" where
  "NetReceiveFrom_construct buffer = \<lparr>rf_result = None, rf_buffer = buffer\<rparr>"

text \<open>The source address starts zeroed and is filled in by the call.\<close>

definition NetReceiveFrom_io ::
  "'k kernel \<Rightarrow> 'k \<Rightarrow> net_receive_from \<Rightarrow> fd \<Rightarrow> (bool \<times> net_receive_from \<times> 'k) run" where
  "NetReceiveFrom_io K k op fd =
     exios_expect (rf_result op = None)
      (let (r, k') = K k (Sys_recvfrom fd (bv_data (rf_buffer op)) (bv_size (rf_buffer op)) 0);
           source_addr = (case sr_out r of OutAddr a \<Rightarrow> a
                          | _ \<Rightarrow> \<lparr>sin_family = 0, sin_port = 0, sin_addr = 0\<rparr>)
       in if sr_ret r < 0 \<and> (sr_errno r = EAGAIN \<or> sr_errno r = EINPROGRESS) then Ok (False, op, k')
          else if sr_ret r < 0
          then Ok (True, op\<lparr>rf_result := Some (result_error (system_error_code (sr_errno r)))\<rparr>, k')
          else Ok (True, op\<lparr>rf_result := Some (result_ok (nat (sr_ret r), source_addr))\<rparr>, k'))"

definition NetReceiveFrom_cancel :: "net_receive_from \<Rightarrow> net_receive_from" where
  "NetReceiveFrom_cancel op = op\<lparr>rf_result := Some operation_canceled\<rparr>"

section \<open>Any operation\<close>

text \<open>The operation structs by their tags, as \<^verbatim>\<open>IoOperationType\<close> maps them.\<close>

datatype io_op =
    OpRead io_read
  | OpWrite io_write
  | OpTimerOrEvent timer_expiry_or_event
  | OpEventWrite event_write
  | OpSignalRead signal_read
  | OpUnixConnect unix_connect
  | OpNetConnect net_connect
  | OpUnixAccept unix_accept
  | OpSendMessage send_message
  | OpReceiveMessage receive_message
  | OpNetSendTo net_send_to
  | OpNetReceiveFrom net_receive_from

text \<open>The argument a completion handler receives.\<close>

datatype io_arg =
    ArgIo io_result
  | ArgTimerOrEvent timer_or_event_io_result
  | ArgSignal signal_result
  | ArgConnect connect_result
  | ArgAccept accept_result
  | ArgReceiveMessage receive_message_result
  | ArgReceiveFrom receive_from_result

primrec is_readable :: "io_op \<Rightarrow> bool" where
  "is_readable (OpRead _) = True"
| "is_readable (OpWrite _) = False"
| "is_readable (OpTimerOrEvent _) = True"
| "is_readable (OpEventWrite _) = False"
| "is_readable (OpSignalRead _) = True"
| "is_readable (OpUnixConnect _) = False"
| "is_readable (OpNetConnect _) = False"
| "is_readable (OpUnixAccept _) = True"
| "is_readable (OpSendMessage _) = False"
| "is_readable (OpReceiveMessage _) = True"
| "is_readable (OpNetSendTo _) = False"
| "is_readable (OpNetReceiveFrom _) = True"

primrec op_io :: "'k kernel \<Rightarrow> 'k \<Rightarrow> io_op \<Rightarrow> fd \<Rightarrow> (bool \<times> io_op \<times> 'k) run" where
  "op_io K k (OpRead op) fd =
     run_bind (IoRead_io K k op fd) (\<lambda>(b, op, k). Ok (b, OpRead op, k))"
| "op_io K k (OpWrite op) fd =
     run_bind (IoWrite_io K k op fd) (\<lambda>(b, op, k). Ok (b, OpWrite op, k))"
| "op_io K k (OpTimerOrEvent op) fd =
     run_bind (TimerExpiryOrEvent_io K k op fd) (\<lambda>(b, op, k). Ok (b, OpTimerOrEvent op, k))"
| "op_io K k (OpEventWrite op) fd =
     run_bind (EventWrite_io K k op fd) (\<lambda>(b, op, k). Ok (b, OpEventWrite op, k))"
| "op_io K k (OpSignalRead op) fd =
     run_bind (SignalRead_io K k op fd) (\<lambda>(b, op, k). Ok (b, OpSignalRead op, k))"
| "op_io K k (OpUnixConnect op) fd =
     run_bind (UnixConnect_io K k op fd) (\<lambda>(b, op, k). Ok (b, OpUnixConnect op, k))"
| "op_io K k (OpNetConnect op) fd =
     run_bind (NetConnect_io K k op fd) (\<lambda>(b, op, k). Ok (b, OpNetConnect op, k))"
| "op_io K k (OpUnixAccept op) fd =
     run_bind (UnixAccept_io K k op fd) (\<lambda>(b, op, k). Ok (b, OpUnixAccept op, k))"
| "op_io K k (OpSendMessage op) fd =
     run_bind (SendMessage_io K k op fd) (\<lambda>(b, op, k). Ok (b, OpSendMessage op, k))"
| "op_io K k (OpReceiveMessage op) fd =
     run_bind (ReceiveMessage_io K k op fd) (\<lambda>(b, op, k). Ok (b, OpReceiveMessage op, k))"
| "op_io K k (OpNetSendTo op) fd =
     run_bind (NetSendTo_io K k op fd) (\<lambda>(b, op, k). Ok (b, OpNetSendTo op, k))"
| "op_io K k (OpNetReceiveFrom op) fd =
     run_bind (NetReceiveFrom_io K k op fd) (\<lambda>(b, op, k). Ok (b, OpNetReceiveFrom op, k))"

primrec op_cancel :: "io_op \<Rightarrow> io_op" where
  "op_cancel (OpRead op) = OpRead (IoOpBase_cancel op)"
| "op_cancel (OpWrite op) = OpWrite (IoOpBase_cancel op)"
| "op_cancel (OpTimerOrEvent op) = OpTimerOrEvent (TimerExpiryOrEvent_cancel op)"
| "op_cancel (OpEventWrite op) = OpEventWrite (EventWrite_cancel op)"
| "op_cancel (OpSignalRead op) = OpSignalRead (SignalRead_cancel op)"
| "op_cancel (OpUnixConnect op) = OpUnixConnect (UnixConnect_cancel op)"
| "op_cancel (OpNetConnect op) = OpNetConnect (NetConnect_cancel op)"
| "op_cancel (OpUnixAccept op) = OpUnixAccept (UnixAccept_cancel op)"
| "op_cancel (OpSendMessage op) = OpSendMessage (SendMessage_cancel op)"
| "op_cancel (OpReceiveMessage op) = OpReceiveMessage (ReceiveMessage_cancel op)"
| "op_cancel (OpNetSendTo op) = OpNetSendTo (NetSendTo_cancel op)"
| "op_cancel (OpNetReceiveFrom op) = OpNetReceiveFrom (NetReceiveFrom_cancel op)"

text \<open>The stored result, as the argument \<^verbatim>\<open>dispatch\<close> hands to the handler.\<close>

primrec op_result :: "io_op \<Rightarrow> io_arg option" where
  "op_result (OpRead op) = map_option ArgIo (base_result op)"
| "op_result (OpWrite op) = map_option ArgIo (base_result op)"
| "op_result (OpTimerOrEvent op) = map_option ArgTimerOrEvent (te_result op)"
| "op_result (OpEventWrite op) = map_option ArgIo (ew_result op)"
| "op_result (OpSignalRead op) = map_option ArgSignal (sg_result op)"
| "op_result (OpUnixConnect op) = map_option ArgConnect (uc_result op)"
| "op_result (OpNetConnect op) = map_option ArgConnect (nc_result op)"
| "op_result (OpUnixAccept op) = map_option ArgAccept (ua_result op)"
| "op_result (OpSendMessage op) = map_option ArgIo (sm_result op)"
| "op_result (OpReceiveMessage op) = map_option ArgReceiveMessage (rm_result op)"
| "op_result (OpNetSendTo op) = map_option ArgIo (st_result op)"
| "op_result (OpNetReceiveFrom op) = map_option ArgReceiveFrom (rf_result op)"

definition op_dispatch :: "io_op \<Rightarrow> io_arg run" where
  "op_dispatch op = (case op_result op of None \<Rightarrow> Fault ContractViolation | Some a \<Rightarrow> Ok a)"

section \<open>The contract of an operation\<close>

text \<open>
  What \<^verbatim>\<open>AsyncIoOperationImpl\<close> and the scheduler rely on: an operation without a result can
  be tried; the try returns whether there is a result now. Cancelling always leaves a result.
\<close>

locale io_operation =
  fixes io :: "'k kernel \<Rightarrow> 'k \<Rightarrow> 'o \<Rightarrow> fd \<Rightarrow> (bool \<times> 'o \<times> 'k) run"
    and cancel_op :: "'o \<Rightarrow> 'o"
    and has_result :: "'o \<Rightarrow> bool"
  assumes io_pending: "\<not> has_result op \<Longrightarrow>
      \<exists>b op' k'. io K k op fd = Ok (b, op', k') \<and> has_result op' = b"
    and cancel_has_result: "has_result (cancel_op op)"
begin

lemma io_not_diverges: "\<not> has_result op \<Longrightarrow> io K k op fd \<noteq> Diverges \<and> (\<forall>f. io K k op fd \<noteq> Fault f)"
  using io_pending [of op K k fd] by auto

lemma io_result_iff:
  "\<not> has_result op \<Longrightarrow> io K k op fd = Ok (b, op', k') \<Longrightarrow> has_result op' \<longleftrightarrow> b"
  using io_pending [of op K k fd] by auto

text \<open>
  Retrying an operation that would block, one attempt per descriptor event: after any number
  of unsuccessful attempts it is still pending, so the next attempt is allowed again.
\<close>

inductive attempts :: "'k kernel \<Rightarrow> fd \<Rightarrow> 'o \<Rightarrow> 'o \<Rightarrow> bool" for K fd where
  attempts_refl: "attempts K fd op op"
| attempts_step: "attempts K fd op op' \<Longrightarrow> io K k op' fd = Ok (False, op'', k') \<Longrightarrow> attempts K fd op op''"

lemma attempts_pending: "attempts K fd op op' \<Longrightarrow> \<not> has_result op \<Longrightarrow> \<not> has_result op'"
  by (induction rule: attempts.induct) (auto simp: io_result_iff)

end

lemmas io_defs = perform_read_def perform_write_def perform_receive_def perform_send_def
  perform_timer_or_event_read_def set_result_def

interpretation ioread: io_operation IoRead_io IoOpBase_cancel "\<lambda>op. base_result op \<noteq> None"
  by unfold_locales (auto simp: IoRead_io_def IoOpBase_cancel_def io_defs Let_def split: prod.splits)

interpretation iowrite: io_operation IoWrite_io IoOpBase_cancel "\<lambda>op. base_result op \<noteq> None"
  by unfold_locales (auto simp: IoWrite_io_def IoOpBase_cancel_def io_defs Let_def split: prod.splits)

interpretation timerexpiryorevent: io_operation TimerExpiryOrEvent_io TimerExpiryOrEvent_cancel "\<lambda>op. te_result op \<noteq> None"
  by unfold_locales (auto simp: TimerExpiryOrEvent_io_def TimerExpiryOrEvent_cancel_def io_defs Let_def split: prod.splits)

interpretation eventwrite: io_operation EventWrite_io EventWrite_cancel "\<lambda>op. ew_result op \<noteq> None"
  by unfold_locales (auto simp: EventWrite_io_def EventWrite_cancel_def io_defs Let_def split: prod.splits)

interpretation signalread: io_operation SignalRead_io SignalRead_cancel "\<lambda>op. sg_result op \<noteq> None"
  by unfold_locales (auto simp: SignalRead_io_def SignalRead_cancel_def io_defs Let_def split: prod.splits)

interpretation unixconnect: io_operation UnixConnect_io UnixConnect_cancel "\<lambda>op. uc_result op \<noteq> None"
  by unfold_locales (auto simp: UnixConnect_io_def UnixConnect_cancel_def io_defs Let_def split: prod.splits)

interpretation netconnect: io_operation NetConnect_io NetConnect_cancel "\<lambda>op. nc_result op \<noteq> None"
  by unfold_locales (auto simp: NetConnect_io_def NetConnect_cancel_def io_defs Let_def split: prod.splits)

interpretation unixaccept: io_operation UnixAccept_io UnixAccept_cancel "\<lambda>op. ua_result op \<noteq> None"
  by unfold_locales (auto simp: UnixAccept_io_def UnixAccept_cancel_def io_defs Let_def split: prod.splits)

interpretation sendmessage: io_operation SendMessage_io SendMessage_cancel "\<lambda>op. sm_result op \<noteq> None"
  by unfold_locales (auto simp: SendMessage_io_def SendMessage_cancel_def io_defs Let_def split: prod.splits)

interpretation receivemessage: io_operation ReceiveMessage_io ReceiveMessage_cancel "\<lambda>op. rm_result op \<noteq> None"
  by unfold_locales (auto simp: ReceiveMessage_io_def ReceiveMessage_cancel_def io_defs Let_def split: prod.splits)

interpretation netsendto: io_operation NetSendTo_io NetSendTo_cancel "\<lambda>op. st_result op \<noteq> None"
  by unfold_locales (auto simp: NetSendTo_io_def NetSendTo_cancel_def io_defs Let_def split: prod.splits)

interpretation netreceivefrom: io_operation NetReceiveFrom_io NetReceiveFrom_cancel "\<lambda>op. rf_result op \<noteq> None"
  by unfold_locales (auto simp: NetReceiveFrom_io_def NetReceiveFrom_cancel_def io_defs Let_def split: prod.splits)

interpretation anyop: io_operation op_io op_cancel "\<lambda>op. op_result op \<noteq> None"
proof (unfold_locales, goal_cases)
  case (1 op K k fd)
  then show ?case
  proof (cases op)
    case (OpRead x)
    then show ?thesis using 1 ioread.io_pending [of x K k fd] by auto
  next
    case (OpWrite x)
    then show ?thesis using 1 iowrite.io_pending [of x K k fd] by auto
  next
    case (OpTimerOrEvent x)
    then show ?thesis using 1 timerexpiryorevent.io_pending [of x K k fd] by auto
  next
    case (OpEventWrite x)
    then show ?thesis using 1 eventwrite.io_pending [of x K k fd] by auto
  next
    case (OpSignalRead x)
    then show ?thesis using 1 signalread.io_pending [of x K k fd] by auto
  next
    case (OpUnixConnect x)
    then show ?thesis using 1 unixconnect.io_pending [of x K k fd] by auto
  next
    case (OpNetConnect x)
    then show ?thesis using 1 netconnect.io_pending [of x K k fd] by auto
  next
    case (OpUnixAccept x)
    then show ?thesis using 1 unixaccept.io_pending [of x K k fd] by auto
  next
    case (OpSendMessage x)
    then show ?thesis using 1 sendmessage.io_pending [of x K k fd] by auto
  next
    case (OpReceiveMessage x)
    then show ?thesis using 1 receivemessage.io_pending [of x K k fd] by auto
  next
    case (OpNetSendTo x)
    then show ?thesis using 1 netsendto.io_pending [of x K k fd] by auto
  next
    case (OpNetReceiveFrom x)
    then show ?thesis using 1 netreceivefrom.io_pending [of x K k fd] by auto
  qed
next
  case (2 op)
  then show ?case
    by (cases op) (auto simp: IoOpBase_cancel_def TimerExpiryOrEvent_cancel_def EventWrite_cancel_def SignalRead_cancel_def UnixConnect_cancel_def NetConnect_cancel_def UnixAccept_cancel_def SendMessage_cancel_def ReceiveMessage_cancel_def NetSendTo_cancel_def NetReceiveFrom_cancel_def)
qed

section \<open>Properties\<close>

text \<open>
  The one system call an attempt makes, and the answers that mean "try again": only
  \<^verbatim>\<open>EAGAIN\<close> for plain reads and writes, also \<^verbatim>\<open>EINPROGRESS\<close> for the others.
\<close>

primrec op_syscall :: "io_op \<Rightarrow> fd \<Rightarrow> syscall" where
  "op_syscall (OpRead op) fd = Sys_read fd (bv_data (rd_buffer op)) (bv_size (rd_buffer op))"
| "op_syscall (OpWrite op) fd = Sys_write fd (bv_data (wr_buffer op)) (bv_size (wr_buffer op))"
| "op_syscall (OpTimerOrEvent op) fd = Sys_read fd (LocalU64 0) 8"
| "op_syscall (OpEventWrite op) fd =
     Sys_write fd (LocalU64 (case ew_value op of None \<Rightarrow> 1 | Some v \<Rightarrow> v)) 8"
| "op_syscall (OpSignalRead op) fd = Sys_read fd LocalSiginfo 128"
| "op_syscall (OpUnixConnect op) fd = Sys_connect_un fd (uc_addr op)"
| "op_syscall (OpNetConnect op) fd = Sys_connect_in fd (nc_addr op)"
| "op_syscall (OpUnixAccept op) fd = Sys_accept fd"
| "op_syscall (OpSendMessage op) fd = Sys_sendmsg fd (sm_msg op) (or MSG_DONTWAIT MSG_NOSIGNAL)"
| "op_syscall (OpReceiveMessage op) fd = Sys_recvmsg fd (rm_msg op) (or MSG_DONTWAIT MSG_NOSIGNAL)"
| "op_syscall (OpNetSendTo op) fd =
     Sys_sendto fd (bv_data (st_buffer op)) (bv_size (st_buffer op)) 0 (st_addr op)"
| "op_syscall (OpNetReceiveFrom op) fd =
     Sys_recvfrom fd (bv_data (rf_buffer op)) (bv_size (rf_buffer op)) 0"

definition try_again :: "io_op \<Rightarrow> sys_result \<Rightarrow> bool" where
  "try_again op r \<longleftrightarrow> sr_ret r < 0 \<and>
     (sr_errno r = EAGAIN \<or>
      sr_errno r = EINPROGRESS \<and> (case op of OpRead _ \<Rightarrow> False | OpWrite _ \<Rightarrow> False | _ \<Rightarrow> True))"

primrec arg_error :: "io_arg \<Rightarrow> error_code option" where
  "arg_error (ArgIo r) = (case r of ErrorValue e \<Rightarrow> Some e | ResultValue _ \<Rightarrow> None)"
| "arg_error (ArgTimerOrEvent r) = (case r of ErrorValue e \<Rightarrow> Some e | ResultValue _ \<Rightarrow> None)"
| "arg_error (ArgSignal r) = (case r of ErrorValue e \<Rightarrow> Some e | ResultValue _ \<Rightarrow> None)"
| "arg_error (ArgConnect r) = (case r of ErrorValue e \<Rightarrow> Some e | ResultValue _ \<Rightarrow> None)"
| "arg_error (ArgAccept r) = (case r of ErrorValue e \<Rightarrow> Some e | ResultValue _ \<Rightarrow> None)"
| "arg_error (ArgReceiveMessage r) = (case r of ErrorValue e \<Rightarrow> Some e | ResultValue _ \<Rightarrow> None)"
| "arg_error (ArgReceiveFrom r) = (case r of ErrorValue e \<Rightarrow> Some e | ResultValue _ \<Rightarrow> None)"

lemmas op_io_defs = IoRead_io_def IoWrite_io_def TimerExpiryOrEvent_io_def EventWrite_io_def
  SignalRead_io_def UnixConnect_io_def NetConnect_io_def UnixAccept_io_def SendMessage_io_def
  ReceiveMessage_io_def NetSendTo_io_def NetReceiveFrom_io_def

text \<open>
  Claim C27. An attempt at any pending operation makes exactly the one system call of the
  operation. It answers "not finished" exactly for the retry errors, and then stores no
  result; otherwise it stores one. A failed call other than a signal read is reported to the
  handler with its error number, a successful call without an error.
\<close>

theorem op_io_one_syscall:
  assumes "op_result op = None" and "K k (op_syscall op fd) = (r, k')"
  shows "\<exists>op'. op_io K k op fd = Ok (\<not> try_again op r, op', k')
    \<and> (if try_again op r then op_result op' = None
       else \<exists>a. op_dispatch op' = Ok a
         \<and> (0 \<le> sr_ret r \<longrightarrow> arg_error a = None)
         \<and> (sr_ret r < 0 \<and> (\<forall>x. op \<noteq> OpSignalRead x)
             \<longrightarrow> arg_error a = Some (system_error_code (sr_errno r))))"
  using assms
  by (cases op)
    (auto simp: op_io_defs io_defs try_again_def error_is_def system_error_code_def
      op_dispatch_def Let_def)

theorem op_io_one_syscall_witness:
  "\<exists>op'. op_io (\<lambda>k c. (\<lparr>sr_ret = 5, sr_errno = 0, sr_out = OutNothing\<rparr>, k + (1::nat))) 0
     (OpRead (IoRead_construct \<lparr>bv_data = UserMem 7, bv_size = 16\<rparr>)) 4 = Ok (True, op', 1)"
  using op_io_one_syscall [of "OpRead (IoRead_construct \<lparr>bv_data = UserMem 7, bv_size = 16\<rparr>)"
    "\<lambda>k c. (\<lparr>sr_ret = 5, sr_errno = 0, sr_out = OutNothing\<rparr>, k + (1::nat))" 0 4]
  by (auto simp: IoRead_construct_def try_again_def)

text \<open>
  Claim C28. A cancelled operation, whatever its state before, dispatches the error
  \<^verbatim>\<open>operation_canceled\<close> to its handler; the operations that cannot be dispatched are exactly
  those without a result.
\<close>

theorem cancelled_dispatch:
  "(\<exists>a. op_dispatch (op_cancel op) = Ok a \<and> arg_error a = Some (make_error_code ECANCELED))
    \<and> (op_dispatch op = Fault ContractViolation \<longleftrightarrow> op_result op = None)"
  by (cases op)
    (auto simp: op_dispatch_def operation_canceled_def IoOpBase_cancel_def
      TimerExpiryOrEvent_cancel_def EventWrite_cancel_def SignalRead_cancel_def
      UnixConnect_cancel_def NetConnect_cancel_def UnixAccept_cancel_def SendMessage_cancel_def
      ReceiveMessage_cancel_def NetSendTo_cancel_def NetReceiveFrom_cancel_def split: option.splits)

text \<open>
  A signal read whose \<^verbatim>\<open>read\<close> fails with an error other than "try again" is
  reported to the handler as a success, with a signal description that was never written: the
  error is lost.
\<close>

lemma signal_read_loses_errors:
  assumes "sg_result op = None" and "K k (Sys_read fd LocalSiginfo 128) = (r, k')"
    and "sr_ret r < 0" and "sr_errno r \<notin> {EAGAIN, EINPROGRESS}" and "sr_out r = OutNothing"
  shows "SignalRead_io K k op fd
    = Ok (True, op\<lparr>sg_result := Some (ResultValue Indeterminate)\<rparr>, k')"
  using assms
  by (simp add: SignalRead_io_def io_defs error_is_def system_error_code_def out_siginfo_def)

lemma length_abstract_path: "length name < sun_path_size \<Longrightarrow> length (abstract_path name) = sun_path_size"
  by (simp add: abstract_path_def sun_path_size_def)

lemma abstract_path_inj:
  assumes "CHR 0x00 \<notin> set a" and "CHR 0x00 \<notin> set b" and "abstract_path a = abstract_path b"
  shows "a = b"
proof -
  have "takeWhile (\<lambda>c. c \<noteq> CHR 0x00) (n @ replicate m (CHR 0x00)) = n"
    if "CHR 0x00 \<notin> set n" for n m
    using that by (subst takeWhile_append2) (auto simp: takeWhile_eq_Nil_iff hd_replicate)
  then show ?thesis using assms unfolding abstract_path_def by (metis list.inject)
qed

lemma unix_connect_construct:
  "length name < sun_path_size \<Longrightarrow> UnixConnect_construct name
     = Ok \<lparr>uc_result = None, uc_addr = \<lparr>sun_family = AF_UNIX, sun_path = abstract_path name\<rparr>\<rparr>"
  by (simp add: UnixConnect_construct_def)

text \<open>The address of a connection determines the name, up to what the length check refuses.\<close>

lemma unix_connect_address:
  "(if length name < 108
    then \<exists>op. UnixConnect_construct name = Ok op \<and> uc_result op = None
      \<and> length (sun_path (uc_addr op)) = 108
      \<and> take (Suc (length name)) (sun_path (uc_addr op)) = CHR 0x00 # name
      \<and> (\<forall>other. CHR 0x00 \<notin> set (name @ other) \<and> length other < 108 \<and> other \<noteq> name
           \<longrightarrow> UnixConnect_construct other \<noteq> Ok op)
    else UnixConnect_construct name = Fault ContractViolation)"
  using length_abstract_path [of name] abstract_path_inj [of _ name]
  by (auto simp: UnixConnect_construct_def sun_path_size_def) (simp add: abstract_path_def)

end
