(* ===== verification/Intrusive_List.thy ===== *)
theory Intrusive_List
  imports Exios_Prelude
begin

text \<open>
  The doubly linked intrusive list of \<^verbatim>\<open>include/exios/intrusive_list.hpp\<close>, at the level of
  its pointers.

  The links of every list item live in one heap, a pair of maps from addresses to the
  \<^verbatim>\<open>prev\<close> and \<^verbatim>\<open>next\<close> fields of \<^verbatim>\<open>ListItemBase\<close>; an address outside the maps is not
  allocated. A list is the address of its sentinel, an iterator the address it points to.
  Each operation performs the loads and stores of the C++ code in the code's order, and
  each load or store through a null or unallocated address is \<open>BadAccess\<close>.

  The predicate \<open>il h s xs\<close> says that the list with sentinel \<open>s\<close> holds the items \<open>xs\<close>, in
  this order. The lemmas of the collection \<open>list_repr\<close> give the effect of every operation on
  represented lists; the main results are the behaviour of \<open>splice\<close> (within one list and
  between two) and the exact cases in which it never returns.
\<close>

section \<open>The heap of list items\<close>

type_synonym addr = nat

abbreviation (input) nullptr :: addr where
  "nullptr \<equiv> 0"

record list_items =
  item_prev :: "addr \<rightharpoonup> addr"
  item_next :: "addr \<rightharpoonup> addr"

definition load_prev :: "list_items \<Rightarrow> addr \<Rightarrow> addr run" where
  "load_prev h a = (if a = nullptr then Fault BadAccess
     else case item_prev h a of None \<Rightarrow> Fault BadAccess | Some p \<Rightarrow> Ok p)"

definition load_next :: "list_items \<Rightarrow> addr \<Rightarrow> addr run" where
  "load_next h a = (if a = nullptr then Fault BadAccess
     else case item_next h a of None \<Rightarrow> Fault BadAccess | Some n \<Rightarrow> Ok n)"

definition store_prev :: "list_items \<Rightarrow> addr \<Rightarrow> addr \<Rightarrow> list_items run" where
  "store_prev h a p = (if a = nullptr \<or> item_prev h a = None then Fault BadAccess
     else Ok (h\<lparr>item_prev := (item_prev h)(a \<mapsto> p)\<rparr>))"

definition store_next :: "list_items \<Rightarrow> addr \<Rightarrow> addr \<Rightarrow> list_items run" where
  "store_next h a n = (if a = nullptr \<or> item_next h a = None then Fault BadAccess
     else Ok (h\<lparr>item_next := (item_next h)(a \<mapsto> n)\<rparr>))"

text \<open>A fresh \<^verbatim>\<open>ListItemBase\<close>: both pointers are null.\<close>

definition new_item :: "list_items \<Rightarrow> addr \<Rightarrow> list_items" where
  "new_item h a = h\<lparr>item_prev := (item_prev h)(a \<mapsto> nullptr),
                     item_next := (item_next h)(a \<mapsto> nullptr)\<rparr>"

text \<open>The storage of an item is released: its address is not allocated any more.\<close>

definition free_item :: "list_items \<Rightarrow> addr \<Rightarrow> list_items" where
  "free_item h a = h\<lparr>item_prev := (item_prev h)(a := None), item_next := (item_next h)(a := None)\<rparr>"

section \<open>Operations\<close>

text \<open>Construction of an empty list: the sentinel points to itself.\<close>

definition il_construct :: "list_items \<Rightarrow> addr \<Rightarrow> list_items run" where
  "il_construct h s =
     run_bind (store_prev (new_item h s) s s) (\<lambda>h. store_next h s s)"

definition il_begin :: "list_items \<Rightarrow> addr \<Rightarrow> addr run" where
  "il_begin h s = load_next h s"

definition il_end :: "addr \<Rightarrow> addr" where
  "il_end s = s"

definition il_empty :: "list_items \<Rightarrow> addr \<Rightarrow> bool run" where
  "il_empty h s = run_bind (il_begin h s) (\<lambda>b. Ok (b = il_end s))"

definition iter_inc :: "list_items \<Rightarrow> addr \<Rightarrow> addr run" where
  "iter_inc h it = load_next h it"

definition iter_dec :: "list_items \<Rightarrow> addr \<Rightarrow> addr run" where
  "iter_dec h it = load_prev h it"

definition erase :: "list_items \<Rightarrow> addr \<Rightarrow> addr \<Rightarrow> (addr \<times> list_items) run" where
  "erase h s pos =
     exios_expect (pos \<noteq> il_end s)
      (run_bind (il_empty h s) (\<lambda>e.
       exios_expect (\<not> e)
        (run_bind (iter_inc h pos) (\<lambda>next_item.
         run_bind (load_prev h pos) (\<lambda>prv.
         run_bind (load_next h pos) (\<lambda>nxt.
         run_bind (store_next h prv nxt) (\<lambda>h.
         run_bind (store_prev h nxt prv) (\<lambda>h.
         Ok (next_item, h)))))))))"

definition il_front :: "list_items \<Rightarrow> addr \<Rightarrow> addr run" where
  "il_front h s = run_bind (il_empty h s) (\<lambda>e. exios_expect (\<not> e) (il_begin h s))"

definition il_back :: "list_items \<Rightarrow> addr \<Rightarrow> addr run" where
  "il_back h s = run_bind (il_empty h s) (\<lambda>e. exios_expect (\<not> e) (iter_dec h (il_end s)))"

definition push_front :: "list_items \<Rightarrow> addr \<Rightarrow> addr \<Rightarrow> list_items run" where
  "push_front h s item =
     exios_expect (item \<noteq> nullptr)
      (run_bind (load_next h s) (\<lambda>n.
       run_bind (store_prev h n item) (\<lambda>h.
       run_bind (store_prev h item s) (\<lambda>h.
       run_bind (load_next h s) (\<lambda>n.
       run_bind (store_next h item n) (\<lambda>h.
       store_next h s item))))))"

definition push_back :: "list_items \<Rightarrow> addr \<Rightarrow> addr \<Rightarrow> list_items run" where
  "push_back h s item =
     exios_expect (item \<noteq> nullptr)
      (run_bind (load_prev h s) (\<lambda>p.
       run_bind (store_next h p item) (\<lambda>h.
       run_bind (store_next h item s) (\<lambda>h.
       run_bind (load_prev h s) (\<lambda>p.
       run_bind (store_prev h item p) (\<lambda>h.
       store_prev h s item))))))"

definition pop_back :: "list_items \<Rightarrow> addr \<Rightarrow> list_items run" where
  "pop_back h s =
     run_bind (il_empty h s) (\<lambda>e.
     exios_expect (\<not> e)
      (run_bind (load_prev h s) (\<lambda>item_to_remove.
       run_bind (load_prev h item_to_remove) (\<lambda>p.
       run_bind (store_prev h s p) (\<lambda>h.
       run_bind (load_prev h s) (\<lambda>p.
       store_next h p s))))))"

definition pop_front :: "list_items \<Rightarrow> addr \<Rightarrow> list_items run" where
  "pop_front h s =
     run_bind (il_empty h s) (\<lambda>e.
     exios_expect (\<not> e)
      (run_bind (load_next h s) (\<lambda>item_to_remove.
       run_bind (load_next h item_to_remove) (\<lambda>n.
       run_bind (store_next h s n) (\<lambda>h.
       run_bind (load_next h s) (\<lambda>n.
       store_prev h n s))))))"

text \<open>\<^verbatim>\<open>insert\<close> returns the position it inserted before, not the inserted item.\<close>

definition il_insert :: "list_items \<Rightarrow> addr \<Rightarrow> addr \<Rightarrow> (addr \<times> list_items) run" where
  "il_insert h item before =
     exios_expect (item \<noteq> nullptr)
      (run_bind (load_prev h before) (\<lambda>p.
       run_bind (store_next h p item) (\<lambda>h.
       run_bind (load_prev h before) (\<lambda>p.
       run_bind (store_prev h item p) (\<lambda>h.
       run_bind (store_next h item before) (\<lambda>h.
       run_bind (store_prev h before item) (\<lambda>h.
       Ok (before, h))))))))"

text \<open>The loop of \<^verbatim>\<open>splice\<close>; it need not terminate.\<close>

partial_function (option) splice_loop ::
  "list_items \<Rightarrow> addr \<Rightarrow> addr \<Rightarrow> addr \<Rightarrow> addr \<Rightarrow> list_items run" where
  "splice_loop h before other it last_it =
     (if it = last_it then Ok h
      else run_bind (erase h other it) (\<lambda>(it', h1).
           run_bind (il_insert h1 it before) (\<lambda>(before', h2).
           splice_loop h2 before' other it' last_it)))"

definition splice ::
  "list_items \<Rightarrow> addr \<Rightarrow> addr \<Rightarrow> addr \<Rightarrow> addr \<Rightarrow> addr \<Rightarrow> (addr \<times> list_items) run" where
  "splice h s before other first last_it =
     exios_expect (\<not> (other = s \<and> before = first))
      (run_bind (il_begin h other) (\<lambda>b.
       if other = s \<and> first = b \<and> last_it = il_end other then Ok (first, h)
       else run_bind (splice_loop h before other first last_it) (\<lambda>h. Ok (first, h))))"

definition splice_within ::
  "list_items \<Rightarrow> addr \<Rightarrow> addr \<Rightarrow> addr \<Rightarrow> addr \<Rightarrow> (addr \<times> list_items) run" where
  "splice_within h s before first last_it = splice h s before s first last_it"

definition splice_all ::
  "list_items \<Rightarrow> addr \<Rightarrow> addr \<Rightarrow> addr \<Rightarrow> (addr \<times> list_items) run" where
  "splice_all h s before other =
     run_bind (il_begin h other) (\<lambda>b. splice h s before other b (il_end other))"

text \<open>The move constructor: the new sentinel starts with null pointers.\<close>

definition move_construct :: "list_items \<Rightarrow> addr \<Rightarrow> addr \<Rightarrow> list_items run" where
  "move_construct h s other =
     run_bind (il_empty (new_item h s) other) (\<lambda>e.
     if e then run_bind (store_prev (new_item h s) s s) (\<lambda>h. store_next h s s)
     else run_bind (load_next (new_item h s) other) (\<lambda>n.
          run_bind (store_prev (new_item h s) n s) (\<lambda>h.
          run_bind (load_prev h other) (\<lambda>p.
          run_bind (store_next h p s) (\<lambda>h.
          run_bind (store_prev h other other) (\<lambda>h.
          store_next h other other))))))"


section \<open>Represented lists\<close>

text \<open>Two neighbours: \<open>y\<close> follows \<open>x\<close> and \<open>x\<close> precedes \<open>y\<close>.\<close>

definition linked :: "list_items \<Rightarrow> addr \<Rightarrow> addr \<Rightarrow> bool" where
  "linked h x y \<longleftrightarrow> item_next h x = Some y \<and> item_prev h y = Some x"

fun chain :: "list_items \<Rightarrow> addr list \<Rightarrow> bool" where
  "chain h [] \<longleftrightarrow> True"
| "chain h [x] \<longleftrightarrow> True"
| "chain h (x # y # zs) \<longleftrightarrow> linked h x y \<and> chain h (y # zs)"

definition il :: "list_items \<Rightarrow> addr \<Rightarrow> addr list \<Rightarrow> bool" where
  "il h s xs \<longleftrightarrow> distinct (s # xs) \<and> nullptr \<notin> set (s # xs) \<and> chain h (s # xs @ [s])"

definition allocated :: "list_items \<Rightarrow> addr \<Rightarrow> bool" where
  "allocated h a \<longleftrightarrow> a \<noteq> nullptr \<and> item_prev h a \<noteq> None \<and> item_next h a \<noteq> None"

text \<open>The common effect of all operations: make \<open>n\<close> the successor of \<open>p\<close>.\<close>

definition relink :: "list_items \<Rightarrow> addr \<Rightarrow> addr \<Rightarrow> list_items" where
  "relink h p n = h\<lparr>item_next := (item_next h)(p \<mapsto> n), item_prev := (item_prev h)(n \<mapsto> p)\<rparr>"

text \<open>Two heaps agree on the items of a set.\<close>

definition agree :: "addr set \<Rightarrow> list_items \<Rightarrow> list_items \<Rightarrow> bool" where
  "agree A h h' \<longleftrightarrow> (\<forall>a \<in> A. item_prev h a = item_prev h' a \<and> item_next h a = item_next h' a)"

lemma relink_fields [simp]:
  "item_next (relink h p n) = (item_next h)(p \<mapsto> n)"
  "item_prev (relink h p n) = (item_prev h)(n \<mapsto> p)"
  by (simp_all add: relink_def)

lemma chain_append: "chain h (xs @ y # ys) \<longleftrightarrow> chain h (xs @ [y]) \<and> chain h (y # ys)"
proof (induction xs)
  case (Cons x xs)
  then show ?case by (cases xs) auto
qed simp

lemma in_set_tlD: "x \<in> set (tl xs) \<Longrightarrow> x \<in> set xs"
  by (cases xs) auto

lemma chain_cong:
  assumes "\<And>x. x \<in> set (butlast xs) \<Longrightarrow> item_next h' x = item_next h x"
    and "\<And>x. x \<in> set (tl xs) \<Longrightarrow> item_prev h' x = item_prev h x"
  shows "chain h' xs = chain h xs"
  using assms
proof (induction h xs rule: chain.induct)
  case (3 h x y zs)
  have "chain h' (y # zs) = chain h (y # zs)"
    using "3.prems" by (intro "3.IH") (auto split: if_splits dest: in_set_butlastD)
  moreover have "linked h' x y = linked h x y"
    using "3.prems" by (simp add: linked_def)
  ultimately show ?case by simp
qed auto

lemma chain_relink:
  assumes "chain h (xs @ [p])" and "chain h (n # ys)"
    and "p \<notin> set xs" and "n \<notin> set (tl (xs @ [p]))"
    and "p \<notin> set (butlast (n # ys))" and "n \<notin> set ys"
  shows "chain (relink h p n) (xs @ p # n # ys)"
proof -
  have "chain (relink h p n) (xs @ [p])"
    using assms(1,3,4) by (subst chain_cong [where h = h]) auto
  moreover have "chain (relink h p n) (n # ys)"
    using assms(2,5,6) by (subst chain_cong [where h = h]) auto
  ultimately show ?thesis
    by (subst chain_append) (simp add: linked_def)
qed

lemma chain_agree: "agree (set xs) h h' \<Longrightarrow> chain h xs = chain h' xs"
  by (rule chain_cong) (auto simp: agree_def dest: in_set_butlastD in_set_tlD)

lemma il_agree: "agree (set (s # xs)) h h' \<Longrightarrow> il h s xs = il h' s xs"
  using chain_agree [of "s # xs @ [s]" h h'] by (auto simp: il_def)

lemma agree_relink: "p \<notin> A \<Longrightarrow> n \<notin> A \<Longrightarrow> agree A h (relink h p n)"
  by (auto simp: agree_def)

lemma agree_refl [simp]: "agree A h h"
  by (simp add: agree_def)

lemma agree_trans: "agree A h h' \<Longrightarrow> agree A h' h'' \<Longrightarrow> agree A h h''"
  by (simp add: agree_def)

lemma agree_subset: "agree A h h' \<Longrightarrow> B \<subseteq> A \<Longrightarrow> agree B h h'"
  by (auto simp: agree_def)

text \<open>The neighbours of a position of a represented list.\<close>

lemma il_ends:
  obtains us p n ns where "s # xs = us @ [p]" and "last (s # xs) = p"
    and "ys @ [s] = n # ns" and "hd (ys @ [s]) = n"
proof -
  obtain us p where us: "s # xs = us @ [p]" by (metis list.discI rev_exhaust)
  obtain n ns where n: "ys @ [s] = n # ns" by (cases ys) auto
  show thesis by (rule that [OF us _ n]) (simp_all only: us n last_snoc list.sel)
qed

lemma il_split_chain:
  assumes "il h s (xs @ ys)"
  shows "chain h (s # xs)" and "chain h (ys @ [s])" and "linked h (last (s # xs)) (hd (ys @ [s]))"
proof -
  obtain us p n ns where us: "s # xs = us @ [p]" "last (s # xs) = p"
    and n: "ys @ [s] = n # ns" "hd (ys @ [s]) = n"
    by (rule il_ends)
  have "s # (xs @ ys) @ [s] = us @ p # n # ns"
    using us(1) n(1) by (metis append_Cons append_assoc append_Nil)
  then have "chain h (us @ p # n # ns)"
    using assms unfolding il_def by metis
  then have "chain h (us @ [p])" and "linked h p n" and "chain h (n # ns)"
    by (subst (asm) chain_append, simp)+
  then show "chain h (s # xs)" and "chain h (ys @ [s])" and "linked h (last (s # xs)) (hd (ys @ [s]))"
    by (simp_all only: us n last_snoc list.sel)
qed

text \<open>Closing a gap and opening one.\<close>

lemma il_relinkI:
  assumes d: "distinct (s # xs @ ys)" and z: "nullptr \<notin> set (s # xs @ ys)"
    and c: "chain h (s # xs)" "chain h (ys @ [s])"
  shows "il (relink h (last (s # xs)) (hd (ys @ [s]))) s (xs @ ys)"
proof -
  obtain us p n ns where us: "s # xs = us @ [p]" "last (s # xs) = p"
    and n: "ys @ [s] = n # ns" "hd (ys @ [s]) = n"
    by (rule il_ends)
  have tl: "tl (us @ [p]) = xs" and bl: "butlast (n # ns) = ys"
    using us(1) n(1) by (metis list.sel(3), metis butlast_snoc)
  have "distinct (us @ [p])" and "distinct (n # ns)"
    using d unfolding us(1) [symmetric] n(1) [symmetric] by auto
  moreover have "p \<in> set (s # xs)" and "n \<in> set (ys @ [s])"
    using us(1) n(1) by simp_all
  then have "p \<notin> set ys" and "n \<notin> set xs"
    using d by auto
  ultimately have "chain (relink h p n) (us @ p # n # ns)"
    using c us(1) n(1) by (intro chain_relink) (auto simp only: tl bl distinct.simps
        distinct_append set_append list.set)
  moreover have "us @ p # n # ns = s # (xs @ ys) @ [s]"
    using us(1) n(1) by (metis append_Cons append_assoc append_Nil)
  ultimately show ?thesis
    using d z unfolding us(2) n(2) il_def by metis
qed

lemma il_remove:
  assumes "il h s (xs @ a # ys)"
  shows "il (relink h (last (s # xs)) (hd (ys @ [s]))) s (xs @ ys)"
proof (rule il_relinkI)
  show "chain h (s # xs)" using il_split_chain(1) [OF assms] .
  show "chain h (ys @ [s])" using il_split_chain(2) [of h s "xs @ [a]" ys] assms by simp
qed (use assms in \<open>auto simp: il_def\<close>)

lemma il_add:
  assumes l: "il h s (xs @ ys)" and a: "a \<notin> set (s # xs @ ys)" "a \<noteq> nullptr"
  shows "il (relink (relink h (last (s # xs)) a) a (hd (ys @ [s]))) s (xs @ a # ys)"
proof -
  obtain us p n ns where us: "s # xs = us @ [p]" "last (s # xs) = p"
    and n: "ys @ [s] = n # ns" "hd (ys @ [s]) = n"
    by (rule il_ends)
  have d: "distinct (s # xs @ ys)" and z: "nullptr \<notin> set (s # xs @ ys)"
    using l by (auto simp: il_def)
  have du: "distinct (us @ [p])" and p: "p \<in> set (s # xs)"
    using d us(1) by (metis append_Cons distinct_append) (simp add: us(1))
  have "a \<notin> set (us @ [p])" using a(1) unfolding us(1) [symmetric] by simp
  then have "chain (relink h p a) (us @ p # a # [])"
    using il_split_chain(1) [OF l] du us(1) by (intro chain_relink) (auto dest: in_set_tlD)
  then have c1: "chain (relink h p a) (s # xs @ [a])"
    using us(1) by (metis append_Cons append_assoc append_Nil)
  have c2: "chain (relink h p a) (ys @ [s])"
    using il_split_chain(2) [OF l] a(1) d p
    by (subst chain_cong [where h = h]) (auto dest: in_set_tlD)
  show ?thesis
    using il_relinkI [of s "xs @ [a]" ys "relink h p a"] c1 c2 d z a us(2) by auto
qed

lemma il_allocated: "il h s xs \<Longrightarrow> a \<in> set (s # xs) \<Longrightarrow> allocated h a"
proof -
  assume l: "il h s xs" and a: "a \<in> set (s # xs)"
  obtain us vs where "s # xs = us @ a # vs" using a by (meson split_list)
  show ?thesis
  proof (cases "a = s")
    case True
    then show ?thesis
      using l il_split_chain(3) [of h s "[]" xs] il_split_chain(3) [of h s xs "[]"]
      by (auto simp: allocated_def linked_def il_def)
  next
    case False
    with a obtain us vs where "xs = us @ a # vs" by (auto dest: split_list)
    then show ?thesis
      using l il_split_chain(3) [of h s us "a # vs"] il_split_chain(3) [of h s "us @ [a]" vs]
      by (auto simp: allocated_def linked_def il_def)
  qed
qed

lemma il_notin [dest]: "il h s xs \<Longrightarrow> s \<notin> set xs"
  by (simp add: il_def)

lemma load_ok [simp]:
  "a \<noteq> nullptr \<Longrightarrow> item_prev h a = Some p \<Longrightarrow> load_prev h a = Ok p"
  "a \<noteq> nullptr \<Longrightarrow> item_next h a = Some n \<Longrightarrow> load_next h a = Ok n"
  by (simp_all add: load_prev_def load_next_def)

lemma store_ok [simp]:
  "allocated h a \<Longrightarrow> store_prev h a p = Ok (h\<lparr>item_prev := (item_prev h)(a \<mapsto> p)\<rparr>)"
  "allocated h a \<Longrightarrow> store_next h a n = Ok (h\<lparr>item_next := (item_next h)(a \<mapsto> n)\<rparr>)"
  by (auto simp: store_prev_def store_next_def allocated_def)

lemma allocated_upd [simp]:
  "allocated h x \<Longrightarrow> allocated (h\<lparr>item_prev := (item_prev h)(a \<mapsto> p)\<rparr>) x"
  "allocated h x \<Longrightarrow> allocated (h\<lparr>item_next := (item_next h)(a \<mapsto> p)\<rparr>) x"
  "allocated h x \<Longrightarrow> allocated (relink h p n) x"
  by (auto simp: allocated_def)

lemma il_links:
  assumes "il h s (xs @ ys)"
  shows "item_next h (last (s # xs)) = Some (hd (ys @ [s]))"
    and "item_prev h (hd (ys @ [s])) = Some (last (s # xs))"
    and "allocated h (last (s # xs))" and "allocated h (hd (ys @ [s]))"
proof -
  show "item_next h (last (s # xs)) = Some (hd (ys @ [s]))"
    and "item_prev h (hd (ys @ [s])) = Some (last (s # xs))"
    using il_split_chain(3) [OF assms] by (simp_all add: linked_def)
  show "allocated h (last (s # xs))" and "allocated h (hd (ys @ [s]))"
    by (rule il_allocated [OF assms], cases "xs = []", simp, simp,
        rule il_allocated [OF assms], cases ys, auto)
qed

lemma il_begin_il [list_repr]: "il h s xs \<Longrightarrow> il_begin h s = Ok (hd (xs @ [s]))"
  using il_links(1) [of h s "[]" xs] by (simp add: il_begin_def il_def)

lemma il_empty_il [list_repr]: "il h s xs \<Longrightarrow> il_empty h s = Ok (xs = [])"
  using il_begin_il [of h s xs] by (cases xs) (auto simp: il_empty_def il_end_def dest: il_notin)

lemma erase_il [list_repr]:
  assumes "il h s (xs @ a # ys)"
  shows "erase h s a = Ok (hd (ys @ [s]), relink h (last (s # xs)) (hd (ys @ [s])))"
proof -
  have "a \<noteq> s" "a \<noteq> nullptr" using assms by (auto simp: il_def)
  moreover have "item_prev h a = Some (last (s # xs))" and "allocated h (last (s # xs))"
    using il_links [OF assms] by simp_all
  moreover have "item_next h a = Some (hd (ys @ [s]))" and "allocated h (hd (ys @ [s]))"
    using il_links [of h s "xs @ [a]" ys] assms by simp_all
  ultimately show ?thesis
    using il_empty_il [OF assms]
    by (simp add: erase_def il_end_def iter_inc_def relink_def del: last.simps)
qed

lemma il_insert_il [list_repr]:
  assumes l: "il h s (xs @ ys)" and a: "a \<notin> set (s # xs @ ys)" and al: "allocated h a"
  shows "il_insert h a (hd (ys @ [s]))
    = Ok (hd (ys @ [s]), relink (relink h (last (s # xs)) a) a (hd (ys @ [s])))"
proof -
  let ?n = "hd (ys @ [s])" and ?p = "last (s # xs)"
  have n: "?n \<noteq> nullptr" "item_prev h ?n = Some ?p" "allocated h ?p" "allocated h ?n"
    using il_links [OF l] by (auto simp: allocated_def)
  have "?n \<noteq> a" using a by (auto simp: hd_append split: if_splits)
  then show ?thesis
    using n al by (simp add: il_insert_def relink_def fun_upd_twist del: last.simps)
      (auto simp: allocated_def)
qed

lemma push_back_il [list_repr]:
  assumes l: "il h s xs" and a: "a \<notin> set (s # xs)" and al: "allocated h a"
  shows "push_back h s a = Ok (relink (relink h (last (s # xs)) a) a s)"
proof -
  have n: "s \<noteq> nullptr" "item_prev h s = Some (last (s # xs))" "allocated h (last (s # xs))"
      "allocated h s"
    using il_links [of h s xs "[]"] l by (auto simp: allocated_def)
  then show ?thesis
    using a al by (simp add: push_back_def relink_def del: last.simps)
      (auto simp: allocated_def fun_eq_iff intro!: list_items.equality)
qed

lemma push_front_il [list_repr]:
  assumes l: "il h s xs" and a: "a \<notin> set (s # xs)" and al: "allocated h a"
  shows "push_front h s a = Ok (relink (relink h s a) a (hd (xs @ [s])))"
proof -
  let ?n = "hd (xs @ [s])"
  have n: "s \<noteq> nullptr" "item_next h s = Some ?n" "allocated h ?n" "allocated h s"
    using il_links [of h s "[]" xs] l by (auto simp: allocated_def)
  have "?n \<noteq> a" using a by (auto simp: hd_append split: if_splits)
  then show ?thesis
    using n a al by (simp add: push_front_def relink_def)
      (auto simp: allocated_def fun_eq_iff intro!: list_items.equality)
qed

lemma pop_front_il [list_repr]:
  assumes "il h s (a # xs)"
  shows "pop_front h s = Ok (relink h s (hd (xs @ [s])))"
proof -
  have "s \<noteq> nullptr" "a \<noteq> nullptr" using assms by (auto simp: il_def)
  then show ?thesis
    using il_links [of h s "[]" "a # xs"] il_links [of h s "[a]" xs] assms
    by (simp add: pop_front_def il_empty_il relink_def)
qed

lemma pop_back_il [list_repr]:
  assumes "il h s (xs @ [a])"
  shows "pop_back h s = Ok (relink h (last (s # xs)) s)"
proof -
  have "s \<noteq> nullptr" "a \<noteq> nullptr" using assms by (auto simp: il_def)
  then show ?thesis
    using il_links [of h s xs "[a]"] il_links [of h s "xs @ [a]" "[]"] assms
    by (simp add: pop_back_def il_empty_il relink_def del: last.simps) simp
qed

lemma il_front_il [list_repr]: "il h s (a # xs) \<Longrightarrow> il_front h s = Ok a"
  by (simp add: il_front_def il_empty_il il_begin_il)

lemma il_back_il [list_repr]: "il h s (xs @ [a]) \<Longrightarrow> il_back h s = Ok a"
  using il_links [of h s "xs @ [a]" "[]"]
  by (simp add: il_back_def il_empty_il iter_dec_def il_end_def) (simp add: il_def)

lemma il_construct_il [list_repr]:
  assumes "s \<noteq> nullptr"
  shows "\<exists>h'. il_construct h s = Ok h' \<and> il h' s [] \<and> agree (- {s}) h h'"
  using assms
  by (simp add: il_construct_def new_item_def store_prev_def store_next_def il_def linked_def agree_def)

section \<open>What an operation may touch\<close>

definition touches :: "addr set \<Rightarrow> list_items \<Rightarrow> list_items \<Rightarrow> bool" where
  "touches A h h' \<longleftrightarrow> agree (- A) h h' \<and> (\<forall>x. allocated h x \<longrightarrow> allocated h' x)"

lemma touches_refl [simp, frame]: "touches A h h"
  by (simp add: touches_def)

lemma touches_relink [frame]: "p \<in> A \<Longrightarrow> n \<in> A \<Longrightarrow> touches A h (relink h p n)"
  by (auto simp: touches_def agree_def)

lemma touches_trans [frame, trans]: "touches A h h' \<Longrightarrow> touches A h' h'' \<Longrightarrow> touches A h h''"
  by (auto simp: touches_def agree_def)

lemma touches_mono: "touches A h h' \<Longrightarrow> A \<subseteq> B \<Longrightarrow> touches B h h'"
  by (auto simp: touches_def agree_def)

lemma touches_allocated: "touches A h h' \<Longrightarrow> allocated h x \<Longrightarrow> allocated h' x"
  by (simp add: touches_def)

text \<open>A list whose items an operation does not touch is the same list afterwards.\<close>

lemma il_untouched: "touches A h h' \<Longrightarrow> set (s # xs) \<inter> A = {} \<Longrightarrow> il h s xs \<Longrightarrow> il h' s xs"
  using il_agree [of s xs h h'] by (auto simp: touches_def agree_def)

lemma last_in: "last (s # xs) \<in> insert s (set xs)"
  using last_in_set [of "s # xs"] by simp

lemma hd_in: "hd (ys @ [s]) \<in> insert s (set ys)"
  by (cases ys) auto

section \<open>Splicing\<close>

text \<open>One round of the loop, when the item comes from another list.\<close>

lemma splice_step_other:
  assumes s: "il h s (xs @ ys)" and t: "il h t (as @ b # bs)"
    and dj: "set (s # xs @ ys) \<inter> set (t # as @ b # bs) = {}"
  obtains h1 h2 where "erase h t b = Ok (hd (bs @ [t]), h1)"
    and "il_insert h1 b (hd (ys @ [s])) = Ok (hd (ys @ [s]), h2)"
    and "il h2 s (xs @ b # ys)" and "il h2 t (as @ bs)"
    and "touches (set (s # t # xs @ ys @ as @ b # bs)) h h2"
proof -
  define h1 where "h1 = relink h (last (t # as)) (hd (bs @ [t]))"
  define h2 where "h2 = relink (relink h1 (last (s # xs)) b) b (hd (ys @ [s]))"
  note ends = last_in [of t as] hd_in [of bs t] last_in [of s xs] hd_in [of ys s]
  have t1: "touches (set (t # as @ bs)) h h1"
    unfolding h1_def using ends by (intro touches_relink) auto
  have t2: "touches (set (b # s # xs @ ys)) h1 h2"
    unfolding h2_def using ends by (intro touches_trans [OF touches_relink touches_relink]) auto
  have s1: "il h1 s (xs @ ys)" and al: "allocated h1 b"
    using il_untouched [OF t1 _ s] dj touches_allocated [OF t1 il_allocated [OF t]] by auto
  have b: "b \<notin> set (s # xs @ ys)" and b0: "b \<noteq> nullptr" using dj t by (auto simp: il_def)
  have r1: "il h1 t (as @ bs)"
    unfolding h1_def by (rule il_remove [OF t])
  show thesis
  proof (rule that)
    show "erase h t b = Ok (hd (bs @ [t]), h1)"
      unfolding h1_def by (rule erase_il [OF t])
    show "il_insert h1 b (hd (ys @ [s])) = Ok (hd (ys @ [s]), h2)"
      unfolding h2_def by (rule il_insert_il [OF s1 b al])
    show "il h2 s (xs @ b # ys)"
      unfolding h2_def by (rule il_add [OF s1 b b0])
    show "il h2 t (as @ bs)"
      using dj t r1 by (intro il_untouched [OF t2]) (auto simp: il_def)
    show "touches (set (s # t # xs @ ys @ as @ b # bs)) h h2"
      by (rule touches_trans [OF touches_mono [OF t1] touches_mono [OF t2]]) auto
  qed
qed

text \<open>One round within a single list: the item moves from one place to another.\<close>

lemma splice_step_within:
  assumes l: "il h s xs" and del: "xs = as @ b # bs" and ins: "as @ bs = us @ vs"
  obtains h1 h2 where "erase h s b = Ok (hd (bs @ [s]), h1)"
    and "il_insert h1 b (hd (vs @ [s])) = Ok (hd (vs @ [s]), h2)"
    and "il h2 s (us @ b # vs)"
    and "touches (set (s # xs)) h h2"
proof -
  define h1 where "h1 = relink h (last (s # as)) (hd (bs @ [s]))"
  define h2 where "h2 = relink (relink h1 (last (s # us)) b) b (hd (vs @ [s]))"
  have sub: "set (us @ vs) = set (as @ bs)" using ins by simp
  have l': "il h s (as @ b # bs)" using l del by simp
  have ends: "last (s # as) \<in> set (s # xs)" "hd (bs @ [s]) \<in> set (s # xs)"
    using last_in [of s as] hd_in [of bs s] del by auto
  have "last (s # us) \<in> set (s # us @ vs)" and "hd (vs @ [s]) \<in> set (s # us @ vs)"
    using last_in [of s us] hd_in [of vs s] by auto
  then have ends': "last (s # us) \<in> set (s # xs)" "hd (vs @ [s]) \<in> set (s # xs)"
    unfolding set_simps sub by (auto simp: del)
  have t1: "touches (set (s # xs)) h h1"
    unfolding h1_def by (rule touches_relink [OF ends])
  have t2: "touches (set (s # xs)) h1 h2"
    unfolding h2_def using ends' del by (intro touches_trans [OF touches_relink touches_relink]) simp_all
  have l1: "il h1 s (us @ vs)"
    unfolding h1_def ins [symmetric] by (rule il_remove [OF l'])
  have b: "b \<notin> set (s # us @ vs)" and b0: "b \<noteq> nullptr"
    using l' unfolding set_simps sub by (auto simp: il_def)
  have al: "allocated h1 b"
    using touches_allocated [OF t1 il_allocated [OF l']] by simp
  show thesis
  proof (rule that)
    show "erase h s b = Ok (hd (bs @ [s]), h1)"
      unfolding h1_def by (rule erase_il [OF l'])
    show "il_insert h1 b (hd (vs @ [s])) = Ok (hd (vs @ [s]), h2)"
      unfolding h2_def by (rule il_insert_il [OF l1 b al])
    show "il h2 s (us @ b # vs)"
      unfolding h2_def by (rule il_add [OF l1 b b0])
    show "touches (set (s # xs)) h h2"
      by (rule touches_trans [OF t1 t2])
  qed
qed

lemma splice_loop_other:
  assumes "il h s (xs @ ys)" and "il h t (as @ bs @ cs)"
    and "set (s # xs @ ys) \<inter> set (t # as @ bs @ cs) = {}"
  shows "\<exists>h'. splice_loop h (hd (ys @ [s])) t (hd (bs @ cs @ [t])) (hd (cs @ [t])) = Ok h'
    \<and> il h' s (xs @ bs @ ys) \<and> il h' t (as @ cs)
    \<and> touches (set (s # t # xs @ ys @ as @ bs @ cs)) h h'"
  using assms
proof (induction bs arbitrary: h xs)
  case Nil
  then show ?case by (simp add: splice_loop.simps)
next
  case (Cons b bs)
  obtain h1 h2 where e: "erase h t b = Ok (hd ((bs @ cs) @ [t]), h1)"
    and i: "il_insert h1 b (hd (ys @ [s])) = Ok (hd (ys @ [s]), h2)"
    and l: "il h2 s (xs @ b # ys)" "il h2 t (as @ bs @ cs)"
    and t: "touches (set (s # t # xs @ ys @ as @ b # bs @ cs)) h h2"
    using splice_step_other [of h s xs ys t as b "bs @ cs"] Cons.prems by auto
  obtain h' where h': "splice_loop h2 (hd (ys @ [s])) t (hd (bs @ cs @ [t])) (hd (cs @ [t])) = Ok h'"
    "il h' s ((xs @ [b]) @ bs @ ys)" "il h' t (as @ cs)"
    "touches (set (s # t # (xs @ [b]) @ ys @ as @ bs @ cs)) h2 h'"
    using Cons.IH [of h2 "xs @ [b]"] l Cons.prems(2,3) by (auto simp: il_def)
  have "b \<noteq> hd (cs @ [t])"
    using Cons.prems(2) by (auto simp: il_def hd_append split: if_splits)
  then have "splice_loop h (hd (ys @ [s])) t b (hd (cs @ [t])) = Ok h'"
    using e i h'(1) by (subst splice_loop.simps) simp
  moreover have "touches (set (s # t # xs @ ys @ as @ (b # bs) @ cs)) h h'"
    by (rule touches_trans [OF touches_mono [OF t] touches_mono [OF h'(4)]]) auto
  ultimately show ?case using h'(2,3) by auto
qed

text \<open>
  Within one list, moving a block \<open>bs\<close> further back, over at least one item: the target
  position is not the end of the block.
\<close>

lemma splice_loop_forward:
  assumes "il h s (as @ bs @ cs @ ds @ ys)" and "cs \<noteq> []"
  shows "\<exists>h'. splice_loop h (hd (ys @ [s])) s (hd (bs @ cs)) (hd cs) = Ok h'
    \<and> il h' s (as @ cs @ ds @ bs @ ys) \<and> touches (set (s # as @ bs @ cs @ ds @ ys)) h h'"
  using assms
proof (induction bs arbitrary: h ds)
  case Nil
  then show ?case by (simp add: splice_loop.simps)
next
  case (Cons b bs)
  obtain h1 h2 where e: "erase h s b = Ok (hd ((bs @ cs @ ds @ ys) @ [s]), h1)"
    and i: "il_insert h1 b (hd (ys @ [s])) = Ok (hd (ys @ [s]), h2)"
    and l: "il h2 s ((as @ bs @ cs @ ds) @ b # ys)"
    and t: "touches (set (s # as @ (b # bs) @ cs @ ds @ ys)) h h2"
    using splice_step_within [OF Cons.prems(1), of as b "bs @ cs @ ds @ ys" "as @ bs @ cs @ ds" ys]
    by auto
  obtain h' where h': "splice_loop h2 (hd (ys @ [s])) s (hd (bs @ cs)) (hd cs) = Ok h'"
    "il h' s (as @ cs @ (ds @ [b]) @ bs @ ys)"
    "touches (set (s # as @ bs @ cs @ (ds @ [b]) @ ys)) h2 h'"
    using Cons.IH [of h2 "ds @ [b]"] l Cons.prems(2) by auto
  have "b \<noteq> hd cs" and "hd ((bs @ cs @ ds @ ys) @ [s]) = hd (bs @ cs)"
    using Cons.prems by (auto simp: il_def hd_append)
  then have "splice_loop h (hd (ys @ [s])) s b (hd cs) = Ok h'"
    using e i h'(1) by (subst splice_loop.simps) simp
  moreover have "touches (set (s # as @ (b # bs) @ cs @ ds @ ys)) h h'"
    by (rule touches_trans [OF t touches_mono [OF h'(3)]]) auto
  ultimately show ?case using h'(2) by auto
qed

text \<open>Moving a block \<open>bs\<close> towards the front, before the first item of \<open>ys\<close>.\<close>

lemma splice_loop_backward:
  assumes "il h s (as @ ys @ bs @ cs)" and "ys \<noteq> []"
  shows "\<exists>h'. splice_loop h (hd ys) s (hd (bs @ cs @ [s])) (hd (cs @ [s])) = Ok h'
    \<and> il h' s (as @ bs @ ys @ cs) \<and> touches (set (s # as @ ys @ bs @ cs)) h h'"
  using assms
proof (induction bs arbitrary: h as)
  case Nil
  then show ?case by (simp add: splice_loop.simps)
next
  case (Cons b bs)
  obtain h1 h2 where e: "erase h s b = Ok (hd ((bs @ cs) @ [s]), h1)"
    and i: "il_insert h1 b (hd ((ys @ bs @ cs) @ [s])) = Ok (hd ((ys @ bs @ cs) @ [s]), h2)"
    and l: "il h2 s (as @ b # ys @ bs @ cs)"
    and t: "touches (set (s # as @ ys @ (b # bs) @ cs)) h h2"
    using splice_step_within [OF Cons.prems(1), of "as @ ys" b "bs @ cs" as "ys @ bs @ cs"]
    by auto
  obtain h' where h': "splice_loop h2 (hd ys) s (hd (bs @ cs @ [s])) (hd (cs @ [s])) = Ok h'"
    "il h' s ((as @ [b]) @ bs @ ys @ cs)"
    "touches (set (s # (as @ [b]) @ ys @ bs @ cs)) h2 h'"
    using Cons.IH [of h2 "as @ [b]"] l Cons.prems(2) by auto
  have "b \<noteq> hd (cs @ [s])" and "hd ((ys @ bs @ cs) @ [s]) = hd ys"
    using Cons.prems by (auto simp: il_def hd_append split: if_splits)
  then have "splice_loop h (hd ys) s b (hd (cs @ [s])) = Ok h'"
    using e i h'(1) by (subst splice_loop.simps) simp
  moreover have "touches (set (s # as @ ys @ (b # bs) @ cs)) h h'"
    by (rule touches_trans [OF t touches_mono [OF h'(3)]]) auto
  ultimately show ?case using h'(2) by auto
qed

text \<open>
  Within one list, when the target is the end of the block: a block of one item stays where
  it is, a longer one is rotated for ever.
\<close>

definition rotating :: "list_items \<Rightarrow> addr \<Rightarrow> addr \<Rightarrow> addr \<Rightarrow> addr \<Rightarrow> bool" where
  "rotating h before other it last_it \<longleftrightarrow>
     (\<exists>as bs ys. il h other (as @ bs @ ys) \<and> 2 \<le> length bs \<and> it = hd bs
        \<and> before = hd (ys @ [other]) \<and> last_it = before)"

lemma rotating_step:
  assumes "rotating h before other it last_it"
  obtains it' h1 h2 where "it \<noteq> last_it" and "erase h other it = Ok (it', h1)"
    and "il_insert h1 it before = Ok (before, h2)" and "rotating h2 before other it' last_it"
proof -
  obtain as bs ys where l: "il h other (as @ bs @ ys)" and len: "2 \<le> length bs"
    and it: "it = hd bs" and be: "before = hd (ys @ [other])" "last_it = before"
    using assms by (auto simp: rotating_def)
  obtain c bs' where bs: "bs = it # c # bs'"
    using len it by (cases bs; cases "tl bs") auto
  obtain h1 h2 where e: "erase h other it = Ok (hd ((c # bs' @ ys) @ [other]), h1)"
    and i: "il_insert h1 it (hd (ys @ [other])) = Ok (hd (ys @ [other]), h2)"
    and l2: "il h2 other ((as @ c # bs') @ it # ys)"
    by (rule splice_step_within [OF l, of as it "c # bs' @ ys" "as @ c # bs'" ys])
      (use bs in \<open>auto intro: that\<close>)
  have l3: "il h2 other (as @ (c # bs' @ [it]) @ ys)" using l2 by simp
  have "rotating h2 before other c last_it"
    unfolding rotating_def
    by (rule exI [of _ as], rule exI [of _ "c # bs' @ [it]"], rule exI [of _ ys])
      (use l3 be in simp)
  moreover have "it \<noteq> last_it"
    using l bs be by (auto simp: il_def hd_append split: if_splits)
  ultimately show thesis using e i be by (intro that [of c h1 h2]) auto
qed

lemma splice_loop_rotates:
  assumes "rotating h before other it last_it"
  shows "splice_loop h before other it last_it = Diverges"
proof (rule ccontr)
  assume "splice_loop h before other it last_it \<noteq> Diverges"
  then obtain y where "splice_loop h before other it last_it = Some y" by auto
  then have "\<not> rotating h before other it last_it"
  proof (rule splice_loop.raw_induct [rotated])
    fix f :: "list_items \<Rightarrow> addr \<Rightarrow> addr \<Rightarrow> addr \<Rightarrow> addr \<Rightarrow> list_items run"
      and h before other it last_it y
    assume IH: "\<And>h before other it last_it y. f h before other it last_it = Some y
        \<Longrightarrow> \<not> rotating h before other it last_it"
      and eq: "(if it = last_it then Ok h
        else run_bind (erase h other it) (\<lambda>(it', h1).
             run_bind (il_insert h1 it before) (\<lambda>(before', h2).
             f h2 before' other it' last_it))) = Some y"
    show "\<not> rotating h before other it last_it"
    proof
      assume "rotating h before other it last_it"
      then obtain it' h1 h2 where "it \<noteq> last_it" "erase h other it = Ok (it', h1)"
        "il_insert h1 it before = Ok (before, h2)" and r: "rotating h2 before other it' last_it"
        by (rule rotating_step)
      then have "f h2 before other it' last_it = Some y" using eq by simp
      then show False using IH r by blast
    qed
  qed
  then show False using assms by simp
qed

lemma splice_loop_single:
  assumes "il h s (as @ b # ys)"
  shows "\<exists>h'. splice_loop h (hd (ys @ [s])) s b (hd (ys @ [s])) = Ok h'
    \<and> il h' s (as @ b # ys) \<and> touches (set (s # as @ b # ys)) h h'"
proof -
  obtain h1 h2 where "erase h s b = Ok (hd (ys @ [s]), h1)"
    "il_insert h1 b (hd (ys @ [s])) = Ok (hd (ys @ [s]), h2)"
    "il h2 s (as @ b # ys)" "touches (set (s # as @ b # ys)) h h2"
    using splice_step_within [OF assms refl refl] by blast
  moreover have "b \<noteq> hd (ys @ [s])"
    using assms by (auto simp: il_def hd_append split: if_splits)
  ultimately show ?thesis
    by (auto simp: splice_loop.simps [of h] splice_loop.simps [of h2])
qed

section \<open>Draining\<close>

text \<open>
  \<^verbatim>\<open>drain_list\<close>: take items off the front until the list is empty and run \<open>op\<close> on each.
  The list lives in a larger state, read with \<open>get\<close> and written with \<open>put\<close>; an exception
  of \<open>op\<close> leaves the loop.
\<close>

partial_function (option) drain_list ::
  "('w \<Rightarrow> list_items) \<Rightarrow> (list_items \<Rightarrow> 'w \<Rightarrow> 'w) \<Rightarrow> addr \<Rightarrow>
   (addr \<Rightarrow> 'w \<Rightarrow> ('e option \<times> 'w) run) \<Rightarrow> 'w \<Rightarrow> ('e option \<times> 'w) run" where
  "drain_list get put s op w =
     run_bind (il_empty (get w) s) (\<lambda>e.
     if e then Ok (None, w)
     else run_bind (il_front (get w) s) (\<lambda>item.
          run_bind (pop_front (get w) s) (\<lambda>h.
          run_bind (op item (put h w)) (\<lambda>(ex, w').
          case ex of Some x \<Rightarrow> Ok (Some x, w') | None \<Rightarrow> drain_list get put s op w'))))"

text \<open>
  The contract between \<^verbatim>\<open>drain_list\<close> and its callback: \<open>I xs w\<close> says that the items \<open>xs\<close>
  are still to be drained in state \<open>w\<close>, \<open>E e xs w\<close> that the callback left with exception
  \<open>e\<close> while \<open>xs\<close> were still in the list, \<open>D z\<close> that a
  callback may stop the whole computation with \<open>z\<close>.
\<close>

locale drain_callback =
  fixes get :: "'w \<Rightarrow> list_items" and put :: "list_items \<Rightarrow> 'w \<Rightarrow> 'w" and s :: addr
    and op :: "addr \<Rightarrow> 'w \<Rightarrow> ('e option \<times> 'w) run"
    and I :: "addr list \<Rightarrow> 'w \<Rightarrow> bool" and E :: "'e \<Rightarrow> addr list \<Rightarrow> 'w \<Rightarrow> bool" and D :: "fault option \<Rightarrow> bool"
  assumes represented: "I xs w \<Longrightarrow> il (get w) s xs"
    and callback: "I (x # xs) w \<Longrightarrow> pop_front (get w) s = Ok h \<Longrightarrow>
      (\<exists>z. D z \<and> op x (put h w) = stop z)
      \<or> (\<exists>ex w'. op x (put h w) = Ok (ex, w') \<and> (case ex of None \<Rightarrow> I xs w' | Some e \<Rightarrow> E e xs w'))"
begin

lemma drain_step:
  assumes "I (x # xs) w" and "pop_front (get w) s = Ok h"
  shows "drain_list get put s op w
    = run_bind (op x (put h w)) (\<lambda>(ex, w').
        case ex of Some e \<Rightarrow> Ok (Some e, w') | None \<Rightarrow> drain_list get put s op w')"
  using assms represented [OF assms(1)] by (subst drain_list.simps) (simp add: il_empty_il il_front_il)

lemma drains:
  "I xs w \<Longrightarrow> (\<exists>z. D z \<and> drain_list get put s op w = stop z)
     \<or> (\<exists>ex w'. drain_list get put s op w = Ok (ex, w')
        \<and> (case ex of None \<Rightarrow> I [] w' | Some e \<Rightarrow> \<exists>us x ys. xs = us @ x # ys \<and> E e ys w'))"
proof (induction xs arbitrary: w)
  case Nil
  then show ?case
    by (subst drain_list.simps) (simp add: il_empty_il [OF represented])
next
  case (Cons x xs)
  obtain h where h: "pop_front (get w) s = Ok h"
    using pop_front_il [OF represented [OF Cons.prems]] by blast
  note step = drain_step [OF Cons.prems h]
  consider z where "D z" "op x (put h w) = stop z"
    | w' where "op x (put h w) = Ok (None, w')" "I xs w'"
    | e w' where "op x (put h w) = Ok (Some e, w')" "E e xs w'"
    using callback [OF Cons.prems h] by (metis option.case_eq_if option.collapse)
  then show ?case
  proof cases
    case (1 z)
    then show ?thesis using step by auto
  next
    case (2 w')
    then have e: "drain_list get put s op w = drain_list get put s op w'" using step by simp
    from Cons.IH [OF 2(2)] show ?thesis
    proof (elim disjE exE conjE)
      fix z assume "D z" "drain_list get put s op w' = stop z"
      then show ?thesis using e by auto
    next
      fix ex w2
      assume d: "drain_list get put s op w' = Ok (ex, w2)"
        and c: "case ex of None \<Rightarrow> I [] w2 | Some e \<Rightarrow> \<exists>us y ys. xs = us @ y # ys \<and> E e ys w2"
      show ?thesis
      proof (cases ex)
        case None
        then show ?thesis using d c e by simp
      next
        case (Some e2)
        then obtain us y ys where "x # xs = (x # us) @ y # ys" "E e2 ys w2" using c by auto
        then have "\<exists>us y ys. x # xs = us @ y # ys \<and> E e2 ys w2" by blast
        then show ?thesis using d e Some by simp
      qed
    qed
  next
    case (3 e w')
    then show ?thesis using step by (auto intro: exI [of _ "[]"])
  qed
qed

end

section \<open>Properties of the list\<close>

text \<open>Items at addresses 2 to 6 in a list with sentinel 1, items 8 and 9 in one with sentinel 7.\<close>

definition example_heap :: list_items where
  "example_heap =
     \<lparr>item_prev = [1 \<mapsto> 6, 2 \<mapsto> 1, 3 \<mapsto> 2, 4 \<mapsto> 3, 5 \<mapsto> 4, 6 \<mapsto> 5, 7 \<mapsto> 9, 8 \<mapsto> 7, 9 \<mapsto> 8, 10 \<mapsto> 0],
      item_next = [1 \<mapsto> 2, 2 \<mapsto> 3, 3 \<mapsto> 4, 4 \<mapsto> 5, 5 \<mapsto> 6, 6 \<mapsto> 1, 7 \<mapsto> 8, 8 \<mapsto> 9, 9 \<mapsto> 7, 10 \<mapsto> 0]\<rparr>"

lemma example_heap_il:
  "il example_heap 1 [2, 3, 4, 5, 6]" "il example_heap 7 [8, 9]" "allocated example_heap 10"
  by (simp_all add: example_heap_def il_def linked_def allocated_def)

lemma push_refines:
  assumes "il h s xs" and "a \<notin> set (s # xs)" and "allocated h a"
  shows "(\<exists>h'. push_back h s a = Ok h' \<and> il h' s (xs @ [a]) \<and> touches (set (s # a # xs)) h h')
    \<and> (\<exists>h'. push_front h s a = Ok h' \<and> il h' s (a # xs) \<and> touches (set (s # a # xs)) h h')"
proof
  have a0: "a \<noteq> nullptr" using assms(3) by (simp add: allocated_def)
  have "il (relink (relink h (last (s # xs)) a) a s) s (xs @ [a])"
    using il_add [of h s xs "[]" a] assms a0 by simp
  moreover have "touches (set (s # a # xs)) h (relink (relink h (last (s # xs)) a) a s)"
    using last_in [of s xs] by (intro touches_trans [OF touches_relink touches_relink]) auto
  ultimately show "\<exists>h'. push_back h s a = Ok h' \<and> il h' s (xs @ [a]) \<and> touches (set (s # a # xs)) h h'"
    using push_back_il [OF assms] by auto
  have "il (relink (relink h s a) a (hd (xs @ [s]))) s (a # xs)"
    using il_add [of h s "[]" xs a] assms a0 by simp
  moreover have "touches (set (s # a # xs)) h (relink (relink h s a) a (hd (xs @ [s])))"
    using hd_in [of xs s] by (intro touches_trans [OF touches_relink touches_relink]) auto
  ultimately show "\<exists>h'. push_front h s a = Ok h' \<and> il h' s (a # xs) \<and> touches (set (s # a # xs)) h h'"
    using push_front_il [OF assms] by auto
qed

lemma erase_insert_refine:
  assumes "il h s (xs @ a # ys)" and "b \<notin> set (s # xs @ a # ys)" and "allocated h b"
  shows "(\<exists>h'. erase h s a = Ok (hd (ys @ [s]), h') \<and> il h' s (xs @ ys)
        \<and> touches (set (s # xs @ ys)) h h')
    \<and> (\<exists>h'. il_insert h b a = Ok (a, h') \<and> il h' s (xs @ b # a # ys)
        \<and> touches (set (s # xs @ a # b # ys)) h h')"
proof
  have "touches (set (s # xs @ ys)) h (relink h (last (s # xs)) (hd (ys @ [s])))"
    using last_in [of s xs] hd_in [of ys s] by (intro touches_relink) auto
  then show "\<exists>h'. erase h s a = Ok (hd (ys @ [s]), h') \<and> il h' s (xs @ ys)
        \<and> touches (set (s # xs @ ys)) h h'"
    using erase_il [OF assms(1)] il_remove [OF assms(1)] by auto
  have b0: "b \<noteq> nullptr" using assms(3) by (simp add: allocated_def)
  have "touches (set (s # xs @ a # b # ys)) h (relink (relink h (last (s # xs)) b) b a)"
    using last_in [of s xs] by (intro touches_trans [OF touches_relink touches_relink]) auto
  then show "\<exists>h'. il_insert h b a = Ok (a, h') \<and> il h' s (xs @ b # a # ys)
        \<and> touches (set (s # xs @ a # b # ys)) h h'"
    using il_insert_il [OF assms] il_add [OF assms(1,2) b0] by auto
qed

text \<open>
  Claim C23. \<^verbatim>\<open>splice\<close> of a range of another list returns: the range is removed from that
  list and stands, in order, before the target position of this one; the result is the first
  moved item (or the range's end when it is empty).
\<close>

theorem splice_between_lists:
  assumes "il h s (xs @ ys)" and "il h t (as @ bs @ cs)"
    and "set (s # xs @ ys) \<inter> set (t # as @ bs @ cs) = {}"
  shows "\<exists>h'. splice h s (hd (ys @ [s])) t (hd (bs @ cs @ [t])) (hd (cs @ [t]))
        = Ok (hd (bs @ cs @ [t]), h')
      \<and> il h' s (xs @ bs @ ys) \<and> il h' t (as @ cs)
      \<and> touches (set (s # t # xs @ ys @ as @ bs @ cs)) h h'"
  using splice_loop_other [OF assms] assms(3) il_begin_il [OF assms(2)]
  by (auto simp: splice_def)

theorem splice_between_lists_witness:
  "\<exists>h'. splice example_heap 7 9 1 3 5 = Ok (3, h') \<and> il h' 7 [8, 3, 4, 9] \<and> il h' 1 [2, 5, 6]"
  using splice_between_lists [of example_heap 7 "[8]" "[9]" 1 "[2]" "[3, 4]" "[5, 6]"]
    example_heap_il by auto

lemma splice_within_list:
  assumes "il h s (as @ bs @ cs @ ys)" and "bs \<noteq> []" and "cs \<noteq> []"
  shows "(\<exists>h'. splice_within h s (hd (ys @ [s])) (hd bs) (hd cs) = Ok (hd bs, h')
        \<and> il h' s (as @ cs @ bs @ ys) \<and> touches (set (s # as @ bs @ cs @ ys)) h h')
    \<and> (\<exists>h'. splice_within h s (hd bs) (hd cs) (hd (ys @ [s])) = Ok (hd cs, h')
        \<and> il h' s (as @ cs @ bs @ ys) \<and> touches (set (s # as @ bs @ cs @ ys)) h h')"
proof
  obtain b bs' c cs' where [simp]: "bs = b # bs'" "cs = c # cs'"
    using assms(2,3) by (cases bs; cases cs) auto
  have "hd (ys @ [s]) \<noteq> b" and "c \<noteq> s" and "b \<noteq> c" and "b \<noteq> s"
    using assms(1) by (auto simp: il_def hd_append split: if_splits)
  moreover have "c \<noteq> hd (as @ bs @ cs @ ys @ [s])"
    using assms(1) by (auto simp: il_def hd_append split: if_splits)
  ultimately show "\<exists>h'. splice_within h s (hd (ys @ [s])) (hd bs) (hd cs) = Ok (hd bs, h')
        \<and> il h' s (as @ cs @ bs @ ys) \<and> touches (set (s # as @ bs @ cs @ ys)) h h'"
    and "\<exists>h'. splice_within h s (hd bs) (hd cs) (hd (ys @ [s])) = Ok (hd cs, h')
        \<and> il h' s (as @ cs @ bs @ ys) \<and> touches (set (s # as @ bs @ cs @ ys)) h h'"
    using splice_loop_forward [of h s as bs cs "[]" ys] splice_loop_backward [of h s as bs cs ys]
      assms il_begin_il [OF assms(1)]
    by (auto simp: splice_within_def splice_def il_end_def)
qed

lemma splice_to_end_of_range:
  assumes "il h s (as @ bs @ ys)" and "bs \<noteq> []"
  shows "splice_within h s (hd (ys @ [s])) (hd bs) (hd (ys @ [s])) = Diverges
    \<longleftrightarrow> 2 \<le> length bs \<and> \<not> (as = [] \<and> ys = [])"
proof -
  obtain b bs' where bs: "bs = b # bs'" using assms(2) by (cases bs) auto
  have ne: "hd (ys @ [s]) \<noteq> b" and be: "as \<noteq> [] \<Longrightarrow> b \<noteq> hd (as @ bs @ ys @ [s])"
    and en: "ys \<noteq> [] \<Longrightarrow> hd (ys @ [s]) \<noteq> s"
    using assms(1) bs by (auto simp: il_def hd_append split: if_splits)
  have whole: "as = [] \<Longrightarrow> ys = [] \<Longrightarrow> ?thesis"
    using ne il_begin_il [OF assms(1)] bs by (auto simp: splice_within_def splice_def il_end_def)
  moreover have "?thesis" if nw: "\<not> (as = [] \<and> ys = [])"
  proof (cases "bs' = []")
    case True
    then show ?thesis
      using splice_loop_single [of h s as b ys] assms bs ne il_begin_il [OF assms(1)]
      by (auto simp: splice_within_def splice_def)
  next
    case False
    then have len: "2 \<le> length bs" using bs by (cases bs') auto
    have "rotating h (hd (ys @ [s])) s b (hd (ys @ [s]))"
      unfolding rotating_def using assms(1) len bs by (metis list.sel(1))
    then have "splice_loop h (hd (ys @ [s])) s b (hd (ys @ [s])) = Diverges"
      by (rule splice_loop_rotates)
    then show ?thesis
      using nw len ne be en bs il_begin_il [OF assms(1)]
      by (auto simp: splice_within_def splice_def il_end_def)
  qed
  ultimately show ?thesis by blast
qed

text \<open>
  Claim C22. The edits of one item. \<^verbatim>\<open>push_back\<close> and \<^verbatim>\<open>push_front\<close> of an allocated item that
  is not in the list put it at the end and at the front. At every position, \<^verbatim>\<open>erase\<close> removes
  exactly the item there and returns the position after it, and \<^verbatim>\<open>insert\<close> puts the new item
  before it and returns the position. All of them return, the other items keep their order, and
  no item outside the list is touched but the new one.
\<close>

theorem edits_refine:
  assumes "il h s xs" and "a \<notin> set (s # xs)" and "allocated h a"
  shows "(\<exists>h'. push_back h s a = Ok h' \<and> il h' s (xs @ [a]) \<and> touches (set (s # a # xs)) h h')
    \<and> (\<exists>h'. push_front h s a = Ok h' \<and> il h' s (a # xs) \<and> touches (set (s # a # xs)) h h')
    \<and> (\<forall>us x vs. xs = us @ x # vs \<longrightarrow>
        (\<exists>h'. erase h s x = Ok (hd (vs @ [s]), h') \<and> il h' s (us @ vs) \<and> touches (set (s # us @ vs)) h h')
        \<and> (\<exists>h'. il_insert h a x = Ok (x, h') \<and> il h' s (us @ a # x # vs)
            \<and> touches (set (s # us @ x # a # vs)) h h'))"
proof (intro conjI allI impI)
  fix us x vs
  assume "xs = us @ x # vs"
  then have e: "il h s (us @ x # vs)" "a \<notin> set (s # us @ x # vs)" using assms(1,2) by simp_all
  show "\<exists>h'. erase h s x = Ok (hd (vs @ [s]), h') \<and> il h' s (us @ vs) \<and> touches (set (s # us @ vs)) h h'"
    and "\<exists>h'. il_insert h a x = Ok (x, h') \<and> il h' s (us @ a # x # vs)
      \<and> touches (set (s # us @ x # a # vs)) h h'"
    using erase_insert_refine [OF e assms(3)] by (rule conjunct1, rule conjunct2)
qed (use push_refines [OF assms] in blast)+

theorem edits_refine_witness:
  "(\<exists>h'. push_back example_heap 1 10 = Ok h' \<and> il h' 1 [2, 3, 4, 5, 6, 10])
   \<and> (\<exists>h'. erase example_heap 1 4 = Ok (5, h') \<and> il h' 1 [2, 3, 5, 6])
   \<and> (\<exists>h'. il_insert example_heap 10 4 = Ok (4, h') \<and> il h' 1 [2, 3, 10, 4, 5, 6])"
proof -
  have "10 \<notin> set (1 # [2, 3, 4, 5, 6 :: addr])" by simp
  note edits = edits_refine [OF example_heap_il(1) this example_heap_il(3)]
  have "[2, 3, 4, 5, 6] = [2, 3] @ 4 # [5, 6 :: addr]" by simp
  from edits [THEN conjunct2, THEN conjunct2, rule_format, OF this] edits [THEN conjunct1]
  show ?thesis by auto
qed



end
