(* ===== verification/Utils.thy ===== *)
theory Utils
  imports Exios_Prelude
begin

unbundle bit_operations_syntax

text \<open>
  The helpers of \<^verbatim>\<open>include/exios/utils.hpp\<close> and \<^verbatim>\<open>src/utils.cpp\<close>: reversing the byte
  order of an integer, parsing a decimal integer with the wrap-around of its type, and parsing
  a dotted IPv4 address. Integers of \<open>n\<close> bytes are words of \<open>8 * n\<close> bits stored little endian;
  a range of characters is a string. The array of octets is a list of cells, and a write
  behind its end is \<open>BadAccess\<close>. \<open>parse_ipv4\<close> throws pointers to \<^verbatim>\<open>std::runtime_error\<close>.
\<close>

section \<open>Byte order\<close>

definition bytes_of :: "nat \<Rightarrow> 'a::len word \<Rightarrow> 8 word list" where
  "bytes_of n w = map (\<lambda>i. ucast (drop_bit (8 * i) w)) [0..<n]"

fun of_bytes :: "8 word list \<Rightarrow> 'a::len word" where
  "of_bytes [] = 0"
| "of_bytes (b # bs) = ucast b OR push_bit 8 (of_bytes bs)"

definition reverse_byte_order :: "'a::len word \<Rightarrow> 'a word" where
  "reverse_byte_order val = of_bytes (rev (bytes_of (LENGTH('a) div 8) val))"

lemma byte_bit [simp]: "8 \<le> n \<Longrightarrow> \<not> bit (b :: 8 word) n"
  by (auto dest: bit_imp_le_length)

lemma length_bytes_of [simp]: "length (bytes_of n w) = n"
  by (simp add: bytes_of_def)

lemma bit_bytes_of:
  "i < n \<Longrightarrow> bit (bytes_of n w ! i) k \<longleftrightarrow> k < 8 \<and> bit w (8 * i + k)"
  by (auto simp: bytes_of_def bit_simps)

lemma bit_of_bytes:
  "bit (of_bytes bs :: 'a::len word) k \<longleftrightarrow>
     k < LENGTH('a) \<and> k < 8 * length bs \<and> bit (bs ! (k div 8)) (k mod 8)"
proof (induction bs arbitrary: k)
  case Nil
  then show ?case by simp
next
  case (Cons b bs)
  show ?case
  proof (cases "k < 8")
    case True
    then show ?thesis by (auto simp: bit_simps)
  next
    case False
    then obtain j where k: "k = j + 8" by (metis add.commute le_Suc_ex not_less)
    have "\<not> bit b k" using False by (auto dest: bit_imp_le_length)
    moreover have "(j + 8) div 8 = Suc (j div 8)" "(j + 8) mod 8 = j mod 8" by simp_all
    ultimately show ?thesis
      using Cons.IH [of j] k by (auto simp: bit_simps)
  qed
qed

text \<open>What \<open>reverse_byte_order\<close> does to every single bit.\<close>

lemma bit_reverse_byte_order:
  assumes "LENGTH('a::len) = 8 * n" and "k < 8 * n"
  shows "bit (reverse_byte_order (w :: 'a word)) k \<longleftrightarrow> bit w (8 * (n - 1 - k div 8) + k mod 8)"
proof -
  have n: "LENGTH('a) div 8 = n" using assms(1) by simp
  have i: "k div 8 < n" using assms(2) by (simp add: div_less_iff_less_mult mult.commute)
  have "bit (reverse_byte_order w) k
      \<longleftrightarrow> bit (bytes_of n w ! (n - 1 - k div 8)) (k mod 8)"
    using assms i unfolding reverse_byte_order_def n
    by (simp add: bit_of_bytes rev_nth)
  then show ?thesis using i by (simp add: bit_bytes_of)
qed

lemma reverse_byte_order_involution:
  assumes len: "LENGTH('a::len) = 8 * n"
  shows "reverse_byte_order (reverse_byte_order w) = (w :: 'a word)"
proof (rule bit_word_eqI)
  fix k assume "k < LENGTH('a)"
  then have k: "k < 8 * n" using len by simp
  let ?j = "8 * (n - 1 - k div 8) + k mod 8"
  have i: "k div 8 < n" using k by (simp add: div_less_iff_less_mult mult.commute)
  have j: "?j < 8 * n" "?j div 8 = n - 1 - k div 8" "?j mod 8 = k mod 8"
  proof -
    have "?j < 8 * (n - 1 - k div 8) + 8" by simp
    also have "\<dots> \<le> 8 * n" using i by simp
    finally show "?j < 8 * n" .
  qed simp_all
  have "n - 1 - (n - 1 - k div 8) = k div 8" using i by simp
  then have "8 * (n - 1 - ?j div 8) + ?j mod 8 = k" using j by simp
  then show "bit (reverse_byte_order (reverse_byte_order w)) k \<longleftrightarrow> bit w k"
    using bit_reverse_byte_order [OF len k, of "reverse_byte_order w"]
      bit_reverse_byte_order [OF len j(1), of w] by simp
qed

lemma bytes_of_reverse:
  assumes "LENGTH('a::len) = 8 * n"
  shows "bytes_of n (reverse_byte_order (w :: 'a word)) = rev (bytes_of n w)"
proof (rule nth_equalityI)
  fix i assume "i < length (bytes_of n (reverse_byte_order w))"
  then have i: "i < n" by simp
  show "bytes_of n (reverse_byte_order w) ! i = rev (bytes_of n w) ! i"
  proof (rule bit_word_eqI)
    fix k assume "k < LENGTH(8)"
    then have k: "k < 8" "(8 * i + k) div 8 = i" "(8 * i + k) mod 8 = k" "8 * i + k < 8 * n" using i by auto
    then show "bit (bytes_of n (reverse_byte_order w) ! i) k = bit (rev (bytes_of n w) ! i) k"
      using bit_reverse_byte_order [OF assms k(4), of w] i
      by (simp add: bit_bytes_of rev_nth)
  qed
qed simp

section \<open>Decimal integers\<close>

abbreviation char_code :: "char \<Rightarrow> nat" where
  "char_code c \<equiv> of_char c"

text \<open>The loop of \<^verbatim>\<open>parse_integer\<close>: success flag and the value of \<^verbatim>\<open>outval\<close> at the return.\<close>

fun parse_integer_loop :: "string \<Rightarrow> 'a::len word \<Rightarrow> bool \<times> 'a word" where
  "parse_integer_loop [] outval = (True, outval)"
| "parse_integer_loop (c # cs) outval =
     (if char_code c < 48 \<or> 57 < char_code c then (False, outval)
      else parse_integer_loop cs (outval * 10 + of_nat (char_code c - 48)))"

text \<open>On an empty range \<^verbatim>\<open>outval\<close> is not written.\<close>

definition parse_integer :: "string \<Rightarrow> bool \<times> 'a::len word option" where
  "parse_integer cs =
     (if cs = [] then (False, None)
      else let (b, v) = parse_integer_loop cs 0 in (b, Some v))"

definition is_digits :: "string \<Rightarrow> bool" where
  "is_digits cs \<longleftrightarrow> cs \<noteq> [] \<and> (\<forall>c \<in> set cs. 48 \<le> char_code c \<and> char_code c \<le> 57)"

fun decimal_from :: "nat \<Rightarrow> string \<Rightarrow> nat" where
  "decimal_from n [] = n"
| "decimal_from n (c # cs) = decimal_from (n * 10 + (char_code c - 48)) cs"

definition decimal :: "string \<Rightarrow> nat" where
  "decimal cs = decimal_from 0 cs"

lemma parse_integer_loop_digits:
  assumes "\<forall>c \<in> set cs. 48 \<le> char_code c \<and> char_code c \<le> 57"
  shows "parse_integer_loop cs (of_nat n :: 'a::len word) = (True, of_nat (decimal_from n cs))"
  using assms
proof (induction cs arbitrary: n)
  case (Cons c cs)
  define d where "d = char_code c - 48"
  have "(of_nat n * 10 + of_nat d :: 'a word) = of_nat (n * 10 + d)" by simp
  moreover have "parse_integer_loop (c # cs) (of_nat n :: 'a word)
      = parse_integer_loop cs (of_nat n * 10 + of_nat d)"
    using Cons.prems unfolding d_def by simp
  ultimately show ?case using Cons.IH [of "n * 10 + d"] Cons.prems by (simp add: d_def)
qed simp

lemma parse_integer_loop_bad:
  "\<exists>c \<in> set cs. char_code c < 48 \<or> 57 < char_code c \<Longrightarrow> \<not> fst (parse_integer_loop cs v)"
  by (induction cs arbitrary: v) auto

section \<open>IPv4 addresses\<close>

datatype exn =
    SystemError int                \<comment> \<open>\<^verbatim>\<open>std::system_error { errno, std::system_category() }\<close>\<close>
  | RuntimeErrorPtr string         \<comment> \<open>\<^verbatim>\<open>throw new std::runtime_error\<close>\<close>
  | UserException nat              \<comment> \<open>thrown by a completion handler\<close>

definition invalid_octet :: exn where
  "invalid_octet = RuntimeErrorPtr ''Couldn't parse IPv4: Invalid octet''"

definition too_many_octets :: exn where
  "too_many_octets = RuntimeErrorPtr ''Couldn't parse IPv4: Too many octets''"

definition too_few_octets :: exn where
  "too_few_octets = RuntimeErrorPtr ''Couldn't parse IPv4: Too few octets''"

abbreviation dot :: char where
  "dot \<equiv> CHR ''.''"

text \<open>
  The array \<^verbatim>\<open>octets\<close> has four cells, \<open>None\<close> while they are not initialised.
  \<open>parse_octet\<close> is the call of \<^verbatim>\<open>parse_integer\<close> with the cell behind \<^verbatim>\<open>out_p\<close>.
\<close>

definition parse_octet ::
  "string \<Rightarrow> nat \<Rightarrow> 8 word option list \<Rightarrow> (bool \<times> 8 word option list) run" where
  "parse_octet cs out_p octets =
     (case parse_integer cs of
        (b, None) \<Rightarrow> Ok (b, octets)
      | (b, Some v) \<Rightarrow>
          if out_p < length octets then Ok (b, octets[out_p := Some v]) else Fault BadAccess)"

text \<open>
  The \<^verbatim>\<open>while\<close> loop. \<open>rest\<close> is the address from \<^verbatim>\<open>saved\<close> on; \<^verbatim>\<open>p\<close> is the first dot in
  it. The result is what is left from \<^verbatim>\<open>saved\<close> on, the number of octets, which is also the
  position of \<^verbatim>\<open>out_p\<close>, and the array.
\<close>

function parse_ipv4_loop ::
  "string \<Rightarrow> nat \<Rightarrow> 8 word option list \<Rightarrow> (exn + (string \<times> nat \<times> 8 word option list)) run" where
  "parse_ipv4_loop rest num_octets octets =
     (if dropWhile (\<lambda>c. c \<noteq> dot) rest \<noteq> [] \<and> num_octets < 4
      then run_bind (parse_octet (takeWhile (\<lambda>c. c \<noteq> dot) rest) num_octets octets) (\<lambda>(b, octets).
           if \<not> b then Ok (Inl invalid_octet)
           else parse_ipv4_loop (tl (dropWhile (\<lambda>c. c \<noteq> dot) rest)) (num_octets + 1) octets)
      else Ok (Inr (rest, num_octets, octets)))"
  by pat_completeness auto
termination
  by (relation "measure (\<lambda>(rest, n, octets). 4 - n)") auto

declare parse_ipv4_loop.simps [simp del]

definition octet :: "8 word option list \<Rightarrow> nat \<Rightarrow> 32 word run" where
  "octet octets i = (case octets ! i of None \<Rightarrow> Fault BadAccess | Some b \<Rightarrow> Ok (ucast b))"

definition parse_ipv4 :: "string \<Rightarrow> (exn + 32 word) run" where
  "parse_ipv4 address =
     run_bind (parse_ipv4_loop address 0 (replicate 4 None)) (\<lambda>r.
     case r of Inl e \<Rightarrow> Ok (Inl e)
     | Inr (rest, num_octets, octets) \<Rightarrow>
         if dropWhile (\<lambda>c. c \<noteq> dot) rest \<noteq> []
         then Ok (Inl too_many_octets)
         else run_bind (parse_octet (takeWhile (\<lambda>c. c \<noteq> dot) rest) num_octets octets) (\<lambda>(b, octets).
         if \<not> b then Ok (Inl invalid_octet)
         else if num_octets + 1 \<noteq> 4
         then Ok (Inl too_few_octets)
         else run_bind (octet octets 0) (\<lambda>a.
              run_bind (octet octets 1) (\<lambda>b.
              run_bind (octet octets 2) (\<lambda>c.
              run_bind (octet octets 3) (\<lambda>d.
              Ok (Inr (push_bit 24 a OR push_bit 16 b OR push_bit 8 c OR d))))))))"

text \<open>Splitting at the dots, the way the loop sees the address.\<close>

fun dotted :: "string list \<Rightarrow> string" where
  "dotted [] = []"
| "dotted [x] = x"
| "dotted (x # y # zs) = x @ dot # dotted (y # zs)"

lemma dotted_first:
  assumes "dot \<notin> set x"
  shows "takeWhile (\<lambda>c. c \<noteq> dot) (dotted (x # xs)) = x"
    and "dropWhile (\<lambda>c. c \<noteq> dot) (dotted (x # xs)) = (if xs = [] then [] else dot # dotted xs)"
proof -
  have "takeWhile (\<lambda>c. c \<noteq> dot) x = x" and d: "dropWhile (\<lambda>c. c \<noteq> dot) x = []"
    using assms by (auto simp: takeWhile_eq_all_conv dropWhile_eq_Nil_conv)
  then show "takeWhile (\<lambda>c. c \<noteq> dot) (dotted (x # xs)) = x"
    and "dropWhile (\<lambda>c. c \<noteq> dot) (dotted (x # xs)) = (if xs = [] then [] else dot # dotted xs)"
    using assms by (cases xs; simp add: takeWhile_append dropWhile_append)+
qed

lemma is_digits_no_dot: "is_digits cs \<Longrightarrow> dot \<notin> set cs"
  by (force simp: is_digits_def)

lemma parse_integer_digits:
  "is_digits cs \<Longrightarrow> parse_integer cs = (True, Some (of_nat (decimal cs) :: 'a::len word))"
  using parse_integer_loop_digits [of cs 0, where 'a = 'a]
  by (simp add: parse_integer_def is_digits_def decimal_def)

lemma parse_octet_digits:
  "is_digits cs \<Longrightarrow> parse_octet cs i octets =
     (if i < length octets then Ok (True, octets[i := Some (of_nat (decimal cs))]) else Fault BadAccess)"
  by (simp add: parse_octet_def parse_integer_digits)

lemma parse_ipv4_loop_step:
  assumes "is_digits x" and "n < 4"
  shows "parse_ipv4_loop (dotted (x # y # ys)) n octets =
    (if n < length octets
     then parse_ipv4_loop (dotted (y # ys)) (n + 1) (octets[n := Some (of_nat (decimal x))])
     else Fault BadAccess)"
  using assms dotted_first [OF is_digits_no_dot [OF assms(1)], of "y # ys"]
  by (subst parse_ipv4_loop.simps) (simp add: parse_octet_digits)

lemma parse_ipv4_loop_stop:
  assumes "is_digits x" and "ys = [] \<or> n = 4"
  shows "parse_ipv4_loop (dotted (x # ys)) n octets = Ok (Inr (dotted (x # ys), n, octets))"
  using assms dotted_first [OF is_digits_no_dot [OF assms(1)], of ys]
  by (subst parse_ipv4_loop.simps) auto

lemma parse_ipv4_stop:
  assumes "is_digits x" and "parse_ipv4_loop address 0 (replicate 4 None) = Ok (Inr (dotted [x], n, octets))"
  shows "parse_ipv4 address =
    (if n < length octets
     then if n + 1 \<noteq> 4 then Ok (Inl too_few_octets)
       else run_bind (octet (octets[n := Some (of_nat (decimal x))]) 0) (\<lambda>a.
            run_bind (octet (octets[n := Some (of_nat (decimal x))]) 1) (\<lambda>b.
            run_bind (octet (octets[n := Some (of_nat (decimal x))]) 2) (\<lambda>c.
            run_bind (octet (octets[n := Some (of_nat (decimal x))]) 3) (\<lambda>d.
            Ok (Inr (push_bit 24 a OR push_bit 16 b OR push_bit 8 c OR d))))))
     else Fault BadAccess)"
proof -
  have t: "takeWhile (\<lambda>c. c \<noteq> dot) x = x" and d: "dropWhile (\<lambda>c. c \<noteq> dot) x = []"
    using dotted_first [OF is_digits_no_dot [OF assms(1)], of "[]"] by simp_all
  show ?thesis
    unfolding parse_ipv4_def assms(2) run_bind_simps sum.case prod.case dotted.simps t d
      parse_octet_digits [OF assms(1)]
    by (cases "n < length octets") simp_all
qed

text \<open>The loop consumes groups of digits one by one, as long as there are cells for them.\<close>

lemma parse_ipv4_loop_groups:
  assumes "\<forall>y \<in> set ys. is_digits y" and "zs \<noteq> []" and "n + length ys \<le> 4" and "length octets = 4"
  shows "parse_ipv4_loop (dotted (ys @ zs)) n octets
    = parse_ipv4_loop (dotted zs) (n + length ys)
        (take n octets @ map (\<lambda>y. Some (of_nat (decimal y))) ys @ drop (n + length ys) octets)"
  using assms
proof (induction ys arbitrary: n octets)
  case (Cons y ys)
  let ?os = "octets[n := Some (of_nat (decimal y))]"
  obtain u us where u: "ys @ zs = u # us" using Cons.prems(2) by (cases "ys @ zs") auto
  have "parse_ipv4_loop (dotted ((y # ys) @ zs)) n octets = parse_ipv4_loop (dotted (ys @ zs)) (n + 1) ?os"
    using parse_ipv4_loop_step [of y n u us octets] Cons.prems u by simp
  also have "\<dots> = parse_ipv4_loop (dotted zs) (n + 1 + length ys)
      (take (n + 1) ?os @ map (\<lambda>y. Some (of_nat (decimal y))) ys @ drop (n + 1 + length ys) ?os)"
    using Cons.prems by (intro Cons.IH) auto
  finally show ?case using Cons.prems by (simp add: take_Suc_conv_app_nth)
qed simp

lemma parse_ipv4_last:
  assumes "\<forall>y \<in> set ys. is_digits y" and "is_digits x" and "length ys \<le> 4"
  shows "parse_ipv4_loop (dotted (ys @ [x])) 0 (replicate 4 None) = Ok (Inr (dotted [x], length ys,
      map (\<lambda>y. Some (of_nat (decimal y))) ys @ replicate (4 - length ys) None))"
  using parse_ipv4_loop_groups [of ys "[x]" 0 "replicate 4 None"] parse_ipv4_loop_stop [of x "[]"] assms
  by simp

text \<open>The 32-bit value of four octets, each taken modulo 256.\<close>

definition ipv4_value :: "nat \<Rightarrow> nat \<Rightarrow> nat \<Rightarrow> nat \<Rightarrow> nat" where
  "ipv4_value a b c d =
     a mod 256 * 2 ^ 24 + b mod 256 * 2 ^ 16 + c mod 256 * 2 ^ 8 + d mod 256"

lemma ipv4_word:
  fixes a b c d :: "8 word"
  shows "push_bit 24 (ucast a) OR push_bit 16 (ucast b) OR push_bit 8 (ucast c) OR ucast d
    = (of_nat (unat a * 2 ^ 24 + unat b * 2 ^ 16 + unat c * 2 ^ 8 + unat d) :: 32 word)"
proof -
  let ?A = "push_bit 24 (ucast a) :: 32 word" and ?B = "push_bit 16 (ucast b) :: 32 word"
    and ?C = "push_bit 8 (ucast c) :: 32 word" and ?D = "ucast d :: 32 word"
  have cd: "?C OR ?D = ?C + ?D"
    by (rule disjunctive_add_eq_or [symmetric]) (auto intro!: bit_eqI simp: bit_simps)
  have bcd: "?B OR (?C OR ?D) = ?B + (?C OR ?D)"
    by (rule disjunctive_add_eq_or [symmetric]) (auto intro!: bit_eqI simp: bit_simps)
  have abcd: "?A OR (?B OR (?C OR ?D)) = ?A + (?B OR (?C OR ?D))"
    by (rule disjunctive_add_eq_or [symmetric]) (auto intro!: bit_eqI simp: bit_simps)
  have v: "?A = of_nat (unat a * 2 ^ 24)" "?B = of_nat (unat b * 2 ^ 16)"
    "?C = of_nat (unat c * 2 ^ 8)" "?D = of_nat (unat d)"
    by (simp_all add: push_bit_eq_mult mult.commute)
  show ?thesis
    by (subst abcd, subst bcd, subst cd) (simp only: v of_nat_add add.assoc)
qed

lemma parse_ipv4_four:
  assumes "\<forall>y \<in> {a, b, c, d}. is_digits y"
  shows "parse_ipv4 (dotted [a, b, c, d])
    = Ok (Inr (of_nat (ipv4_value (decimal a) (decimal b) (decimal c) (decimal d))))"
proof -
  have u: "unat (of_nat n :: 8 word) = n mod 256" for n by (simp add: unat_of_nat)
  note parse_ipv4_stop [OF _ parse_ipv4_last [of "[a, b, c]" d]]
  then show ?thesis using assms by (simp add: octet_def ipv4_word u ipv4_value_def del: dotted.simps)
qed

lemma parse_ipv4_few_or_five:
  assumes "\<forall>y \<in> set ys. is_digits y" and "is_digits x" and "length ys \<le> 4" and "length ys \<noteq> 3"
  shows "parse_ipv4 (dotted (ys @ [x])) = (if length ys < 4 then Ok (Inl too_few_octets) else Fault BadAccess)"
  using parse_ipv4_stop [OF assms(2) parse_ipv4_last [OF assms(1-3)]] assms(3,4) by simp

lemma parse_ipv4_many:
  assumes "\<forall>y \<in> set ys. is_digits y" and "length ys = 4" and "is_digits x"
  shows "parse_ipv4 (dotted (ys @ x # z # zs)) = Ok (Inl too_many_octets)"
proof -
  have "parse_ipv4_loop (dotted (ys @ x # z # zs)) 0 (replicate 4 None)
      = Ok (Inr (dotted (x # z # zs), 4, map (\<lambda>y. Some (of_nat (decimal y))) ys))"
    using parse_ipv4_loop_groups [of ys "x # z # zs" 0 "replicate 4 None"]
      parse_ipv4_loop_stop [of x "z # zs" 4] assms by simp
  moreover have "dot \<in> set (dotted (x # z # zs))" by simp
  ultimately show ?thesis unfolding parse_ipv4_def by (simp del: dotted.simps)
qed

lemma bytes_of_ipv4:
  "bytes_of 4 (of_nat (ipv4_value a b c d) :: 32 word) = map of_nat [d, c, b, a]"
proof -
  have u: "unat (of_nat n :: 8 word) = n mod 256" for n by (simp add: unat_of_nat)
  have v: "(of_nat (ipv4_value a b c d) :: 32 word) = push_bit 24 (ucast (of_nat a :: 8 word))
      OR push_bit 16 (ucast (of_nat b :: 8 word)) OR push_bit 8 (ucast (of_nat c :: 8 word)) OR ucast (of_nat d :: 8 word)"
    unfolding ipv4_word u ipv4_value_def ..
  have n: "[0..<4] = [0, 1, 2, 3 :: nat]" by (simp add: upt_conv_Cons)
  show ?thesis
    unfolding v bytes_of_def n by (auto intro!: bit_word_eqI simp: bit_simps simp del: of_nat_numeral)
qed

section \<open>Properties\<close>

text \<open>
  Claim C37. Reversing the byte order of a 16-bit or a 32-bit value twice gives the value
  back, and a single reversal exchanges the bytes: a port \<open>256 * hi + lo\<close> becomes
  \<open>256 * lo + hi\<close>.
\<close>

theorem reverse_byte_order_roundtrip:
  fixes port :: "16 word" and address :: "32 word" and hi lo :: "8 word"
  shows "reverse_byte_order (reverse_byte_order port) = port
    \<and> reverse_byte_order (reverse_byte_order address) = address
    \<and> reverse_byte_order (of_nat (256 * unat hi + unat lo) :: 16 word)
        = of_nat (256 * unat lo + unat hi)"
proof (intro conjI)
  show "reverse_byte_order (reverse_byte_order port) = port"
    by (rule reverse_byte_order_involution [where n = 2]) simp
  show "reverse_byte_order (reverse_byte_order address) = address"
    by (rule reverse_byte_order_involution [where n = 4]) simp
  have w: "(of_nat (256 * unat a + unat b) :: 16 word) = push_bit 8 (ucast a) OR ucast b"
    for a b :: "8 word"
  proof -
    have "push_bit 8 (ucast a) OR ucast b = push_bit 8 (ucast a) + (ucast b :: 16 word)"
      by (rule disjunctive_add_eq_or [symmetric])
        (auto intro!: bit_eqI simp: bit_simps)
    then show ?thesis by (simp add: push_bit_eq_mult mult.commute)
  qed
  have "reverse_byte_order (push_bit 8 (ucast hi) OR ucast lo :: 16 word)
      = push_bit 8 (ucast lo) OR ucast hi"
  proof (rule bit_word_eqI)
    fix k assume k: "k < LENGTH(16)"
    then have "bit (reverse_byte_order (push_bit 8 (ucast hi) OR ucast lo :: 16 word)) k
        \<longleftrightarrow> bit (push_bit 8 (ucast hi) OR ucast lo :: 16 word) (8 * (1 - k div 8) + k mod 8)"
      using bit_reverse_byte_order [where 'a = 16 and n = 2, of k] by simp
    moreover have "bit (push_bit 8 (ucast hi) OR ucast lo :: 16 word) (8 * (1 - k div 8) + k mod 8)
        \<longleftrightarrow> bit (push_bit 8 (ucast lo) OR ucast hi :: 16 word) k"
    proof (cases "k < 8")
      case True
      then show ?thesis by (simp add: bit_simps)
    next
      case False
      then have "k div 8 = 1" using k by (intro div_nat_eqI) auto
      moreover have "k mod 8 = k - 8 * (k div 8)" by (rule minus_mult_div_eq_mod [symmetric])
      moreover have "\<not> 8 \<le> k - 8" using k by simp
      ultimately show ?thesis using False k by (simp add: bit_simps)
    qed
    ultimately show "bit (reverse_byte_order (push_bit 8 (ucast hi) OR ucast lo :: 16 word)) k
        \<longleftrightarrow> bit (push_bit 8 (ucast lo) OR ucast hi :: 16 word) k"
      by simp
  qed
  then show "reverse_byte_order (of_nat (256 * unat hi + unat lo) :: 16 word)
        = of_nat (256 * unat lo + unat hi)"
    unfolding w .
qed

text \<open>
  Claim C34. \<^verbatim>\<open>parse_ipv4\<close> on groups of decimal digits separated by dots. Four groups give
  the address with every octet reduced modulo 256 (so octets above 255 are accepted and wrap);
  fewer groups are rejected as too few and six or more as too many. With exactly five groups
  the parser writes the fifth value behind the end of its array of four octets.
\<close>

theorem parse_ipv4_by_group_count:
  assumes "xs \<noteq> []" and "\<forall>x \<in> set xs. is_digits x"
  shows "parse_ipv4 (dotted xs) =
    (if length xs < 4 then Ok (Inl too_few_octets)
     else if length xs = 4 then
       Ok (Inr (of_nat (ipv4_value (decimal (xs ! 0)) (decimal (xs ! 1))
                                   (decimal (xs ! 2)) (decimal (xs ! 3)))))
     else if length xs = 5 then Fault BadAccess
     else Ok (Inl too_many_octets))"
proof -
  consider ys x where "xs = ys @ [x]" "length ys \<le> 4" "length ys \<noteq> 3"
    | a b c d where "xs = [a, b, c, d]"
    | ys x z zs where "xs = ys @ x # z # zs" "length ys = 4"
  proof (cases "length xs \<le> 5")
    case True
    have "xs = butlast xs @ [last xs]" "length (butlast xs) \<le> 4" using assms(1) True by auto
    moreover have "\<exists>a b c d. xs = [a, b, c, d]" if "length (butlast xs) = 3"
    proof -
      have "length xs = 4" using that by simp
      then show ?thesis by (auto simp: length_Suc_conv numeral_eq_Suc)
    qed
    ultimately show ?thesis using that by blast
  next
    case False
    then have "2 \<le> length (drop 4 xs)" by simp
    then obtain x z zs where "drop 4 xs = x # z # zs"
      by (metis Suc_le_length_iff numeral_2_eq_2)
    then have "xs = take 4 xs @ x # z # zs" by (metis append_take_drop_id)
    then show ?thesis using that(3) [of "take 4 xs" x z zs] False by simp
  qed
  then show ?thesis
  proof cases
    case 1
    then show ?thesis using parse_ipv4_few_or_five [of ys x] assms(2) by auto
  next
    case 2
    then show ?thesis using parse_ipv4_four [of a b c d] assms(2) by simp
  next
    case 3
    then show ?thesis using parse_ipv4_many [of ys x z zs] assms(2) by simp
  qed
qed

theorem parse_ipv4_by_group_count_witness:
  "parse_ipv4 ''127.0.0.1'' = Ok (Inr 2130706433) \<and> parse_ipv4 ''1.2.3.4.5'' = Fault BadAccess"
proof -
  have d: "is_digits ''127''" "is_digits ''0''" "is_digits ''1''" "is_digits ''2''"
    "is_digits ''3''" "is_digits ''4''" "is_digits ''5''"
    by (simp_all add: is_digits_def)
  have "parse_ipv4 (dotted [''127'', ''0'', ''0'', ''1'']) = Ok (Inr 2130706433)"
    using d by (subst parse_ipv4_by_group_count)
      (simp_all add: ipv4_value_def decimal_def)
  moreover have "parse_ipv4 (dotted [''1'', ''2'', ''3'', ''4'', ''5'']) = Fault BadAccess"
    using d by (subst parse_ipv4_by_group_count) simp_all
  ultimately show ?thesis by simp
qed

end
