(* ===== verification/Async_Operation.thy ===== *)
theory Async_Operation
  imports Io Intrusive_List Utils
begin

text \<open>
  Asynchronous operations: \<^verbatim>\<open>async_operation.hpp\<close>, \<^verbatim>\<open>async_io_operation.hpp\<close> with their
  sources, and the state they live in.

  A completion handler is user code: it is a number, and what it does is a parameter of the
  functions that run it. The library puts handlers into closures of its own: \<^verbatim>\<open>wrap_work\<close>
  into one that owns a \<^verbatim>\<open>Work\<close> object, the timers and acceptors into those of the other
  constructors of \<open>completion\<close>. An operation object is a posted completion (\<^verbatim>\<open>AsyncOperationImpl\<close>) or an I/O
  operation (\<^verbatim>\<open>AsyncIoOperationImpl\<close>). All objects live in one store indexed by their
  address; their list links are in the heap of the intrusive lists under the same address, as
  the base class \<^verbatim>\<open>ListItemBase\<close> puts them there. An address with no object in the store has
  been deallocated.
\<close>

section \<open>Completions and operations\<close>

datatype completion =
    Fn nat
  | WrapWork bool completion      \<comment> \<open>\<^verbatim>\<open>wrap_work\<close>: \<^verbatim>\<open>Work::active_\<close> and the handler\<close>
  | BindResult io_arg completion  \<comment> \<open>calls the handler with a fixed result, whatever it is given\<close>
  | OwnFd fd completion           \<comment> \<open>owns a \<^verbatim>\<open>FileDescriptor\<close> beside the handler\<close>
  | AcceptInto nat completion     \<comment> \<open>moves an accepted socket into an object first\<close>

primrec handler_of :: "completion \<Rightarrow> nat" where
  "handler_of (Fn n) = n"
| "handler_of (WrapWork _ f) = handler_of f"
| "handler_of (BindResult _ f) = handler_of f"
| "handler_of (OwnFd _ f) = handler_of f"
| "handler_of (AcceptInto _ f) = handler_of f"

text \<open>The \<^verbatim>\<open>Work\<close> objects of a closure that still have to be released.\<close>

primrec active_work :: "completion \<Rightarrow> nat" where
  "active_work (Fn _) = 0"
| "active_work (WrapWork b f) = (if b then 1 else 0) + active_work f"
| "active_work (BindResult _ f) = active_work f"
| "active_work (OwnFd _ f) = active_work f"
| "active_work (AcceptInto _ f) = active_work f"

record async_io_operation =
  aio_fd :: fd
  aio_is_read :: bool
  aio_is_cancelled :: bool
  aio_f :: completion
  aio_operation :: io_op

datatype async_op = PlainOp completion | IoOp async_io_operation

primrec op_completion :: "async_op \<Rightarrow> completion" where
  "op_completion (PlainOp f) = f"
| "op_completion (IoOp a) = aio_f a"

definition AsyncIoOperation_construct :: "completion \<Rightarrow> fd \<Rightarrow> io_op \<Rightarrow> async_io_operation" where
  "AsyncIoOperation_construct f fd op =
     \<lparr>aio_fd = fd, aio_is_read = is_readable op, aio_is_cancelled = False, aio_f = f,
      aio_operation = op\<rparr>"

definition AsyncIoOperation_cancel :: "async_io_operation \<Rightarrow> async_io_operation" where
  "AsyncIoOperation_cancel a = a\<lparr>aio_operation := op_cancel (aio_operation a), aio_is_cancelled := True\<rparr>"

definition perform_io ::
  "'k kernel \<Rightarrow> 'k \<Rightarrow> async_io_operation \<Rightarrow> (bool \<times> async_io_operation \<times> 'k) run" where
  "perform_io K k a =
     run_bind (op_io K k (aio_operation a) (aio_fd a)) (\<lambda>(b, op, k').
     Ok (b, a\<lparr>aio_operation := op\<rparr>, k'))"

section \<open>The state of a context\<close>

text \<open>
  The members of a \<^verbatim>\<open>ContextThread\<close> and its \<^verbatim>\<open>IoScheduler\<close>, the operation objects, the
  process wide counter \<^verbatim>\<open>threads_waiting\<close>, the kernel, and for every I/O object of the user
  (timers, sockets and so on) the number in its \<^verbatim>\<open>FileDescriptor\<close> member. The lists are given by the fixed
  addresses of their sentinels; \<open>next_addr\<close> is the next address handed out, to the allocator
  or to a list on the stack.
\<close>

record 'k world =
  links :: list_items
  objs :: "addr \<rightharpoonup> async_op"
  next_addr :: addr
  kern :: 'k
  epoll_fd :: fd
  wake_fd :: fd
  begin_cancelled :: addr
  poll_queue_length :: u64
  remaining_count :: u64
  threads_waiting :: u64
  io_fds :: "nat \<rightharpoonup> fd"

definition operations_list :: addr where
  "operations_list = 1"

definition completion_queue :: addr where
  "completion_queue = 2"

lemmas sentinel_defs = operations_list_def completion_queue_def

text \<open>Access to an I/O operation through a pointer of the scheduler's list.\<close>

definition deref_aio :: "'k world \<Rightarrow> addr \<Rightarrow> async_io_operation run" where
  "deref_aio w a = (case objs w a of Some (IoOp op) \<Rightarrow> Ok op | _ \<Rightarrow> Fault BadAccess)"

definition store_aio :: "'k world \<Rightarrow> addr \<Rightarrow> async_io_operation \<Rightarrow> 'k world" where
  "store_aio w a op = w\<lparr>objs := (objs w)(a \<mapsto> IoOp op)\<rparr>"

text \<open>
  \<^verbatim>\<open>make_async_operation\<close> and \<^verbatim>\<open>make_async_io_operation\<close>: allocate an object and construct
  it in place.
\<close>

definition allocate :: "'k world \<Rightarrow> async_op \<Rightarrow> addr \<times> 'k world" where
  "allocate w op =
     (let a = next_addr w
      in (a, w\<lparr>next_addr := Suc a, links := new_item (links w) a, objs := (objs w)(a \<mapsto> op)\<rparr>))"

definition make_async_operation :: "'k world \<Rightarrow> completion \<Rightarrow> addr \<times> 'k world" where
  "make_async_operation w f = allocate w (PlainOp f)"

definition make_async_io_operation ::
  "'k world \<Rightarrow> completion \<Rightarrow> fd \<Rightarrow> io_op \<Rightarrow> addr \<times> 'k world" where
  "make_async_io_operation w f fd op = allocate w (IoOp (AsyncIoOperation_construct f fd op))"

text \<open>Destroying and deallocating an object, after its closure has been moved out or with it.\<close>

definition deallocate :: "'k world \<Rightarrow> addr \<Rightarrow> 'k world" where
  "deallocate w a = w\<lparr>objs := (objs w)(a := None), links := free_item (links w) a\<rparr>"

end
