(* ===== verification/Iterators.thy ===== *)
theory Iterators
  imports Intrusive_List
begin

text \<open>
  The algorithms of the C++ standard library that exios runs over the iterators of an
  intrusive list: \<^verbatim>\<open>std::distance\<close>, \<^verbatim>\<open>std::advance\<close>, \<^verbatim>\<open>std::lower_bound\<close> and
  \<^verbatim>\<open>std::find_if\<close>, for bidirectional iterators. The iterators are addresses, a
  position of a list with sentinel \<open>s\<close> and items \<open>xs\<close> is an index of \<open>xs @ [s]\<close>. The lemmas
  give the result of each algorithm on a represented list; for \<^verbatim>\<open>lower_bound\<close> it is the
  partition point of the range.
\<close>

section \<open>The algorithms\<close>

partial_function (option) iter_distance :: "list_items \<Rightarrow> addr \<Rightarrow> addr \<Rightarrow> nat run" where
  "iter_distance h first last_it =
     (if first = last_it then Ok 0
      else run_bind (iter_inc h first) (\<lambda>n.
           run_bind (iter_distance h n last_it) (\<lambda>d. Ok (Suc d))))"

fun iter_advance :: "list_items \<Rightarrow> addr \<Rightarrow> nat \<Rightarrow> addr run" where
  "iter_advance h it 0 = Ok it"
| "iter_advance h it (Suc n) = run_bind (iter_inc h it) (\<lambda>it. iter_advance h it n)"

function lower_bound_loop ::
  "list_items \<Rightarrow> (addr \<Rightarrow> bool run) \<Rightarrow> addr \<Rightarrow> nat \<Rightarrow> addr run" where
  "lower_bound_loop h below first len =
     (if len = 0 then Ok first
      else run_bind (iter_advance h first (len div 2)) (\<lambda>middle.
           run_bind (below middle) (\<lambda>b.
           if b then run_bind (iter_inc h middle) (\<lambda>first.
                     lower_bound_loop h below first (len - len div 2 - 1))
           else lower_bound_loop h below first (len div 2))))"
  by pat_completeness auto
termination
  by (relation "measure (\<lambda>(h, below, first, len). len)") auto

declare lower_bound_loop.simps [simp del]

definition lower_bound ::
  "list_items \<Rightarrow> (addr \<Rightarrow> bool run) \<Rightarrow> addr \<Rightarrow> addr \<Rightarrow> addr run" where
  "lower_bound h below first last_it =
     run_bind (iter_distance h first last_it) (\<lambda>len. lower_bound_loop h below first len)"

partial_function (option) find_if ::
  "list_items \<Rightarrow> (addr \<Rightarrow> bool run) \<Rightarrow> addr \<Rightarrow> addr \<Rightarrow> addr run" where
  "find_if h pred first last_it =
     (if first = last_it then Ok last_it
      else run_bind (pred first) (\<lambda>b.
           if b then Ok first
           else run_bind (iter_inc h first) (\<lambda>first. find_if h pred first last_it)))"

section \<open>Positions of a represented list\<close>

abbreviation pos :: "addr \<Rightarrow> addr list \<Rightarrow> nat \<Rightarrow> addr" where
  "pos s xs k \<equiv> (xs @ [s]) ! k"

lemma pos_hd: "pos s (xs @ ys) (length xs) = hd (ys @ [s])"
  by (cases ys) (simp_all add: nth_append)

lemma pos_inj: "il h s xs \<Longrightarrow> i \<le> length xs \<Longrightarrow> j \<le> length xs \<Longrightarrow> pos s xs i = pos s xs j \<longleftrightarrow> i = j"
  by (rule nth_eq_iff_index_eq) (auto simp: il_def)

lemma iter_inc_pos [list_repr]:
  assumes l: "il h s xs" and k: "k < length xs"
  shows "iter_inc h (pos s xs k) = Ok (pos s xs (Suc k))"
proof -
  obtain us a vs where xs: "xs = us @ a # vs" and k': "k = length us"
    using k id_take_nth_drop [OF k] by (metis length_take less_imp_le min.absorb2)
  have "a \<noteq> nullptr" using l xs by (simp add: il_def)
  moreover have "item_next h a = Some (hd (vs @ [s]))"
    using il_links(1) [of h s "us @ [a]" vs] l xs by simp
  moreover have "pos s xs k = a" and "pos s xs (Suc k) = hd (vs @ [s])"
    using xs k' pos_hd [of "us @ [a]" vs s] by (simp_all add: nth_append)
  ultimately show ?thesis by (simp add: iter_inc_def)
qed

lemma iter_advance_pos [list_repr]:
  "il h s xs \<Longrightarrow> k + n \<le> length xs \<Longrightarrow> iter_advance h (pos s xs k) n = Ok (pos s xs (k + n))"
  by (induction n arbitrary: k) (simp_all add: iter_inc_pos)

lemma iter_distance_pos [list_repr]:
  "il h s xs \<Longrightarrow> k + n \<le> length xs \<Longrightarrow> iter_distance h (pos s xs k) (pos s xs (k + n)) = Ok n"
proof (induction n arbitrary: k)
  case 0
  then show ?case by (simp add: iter_distance.simps)
next
  case (Suc n)
  then show ?case
    using Suc.IH [of "Suc k"]
    by (subst iter_distance.simps) (simp add: pos_inj iter_inc_pos)
qed

lemma lower_bound_loop_pos:
  assumes "il h s xs" and "k + len \<le> length xs" and "k \<le> m" and "m \<le> k + len"
    and "\<And>i. k \<le> i \<Longrightarrow> i < k + len \<Longrightarrow> below (pos s xs i) = Ok (i < m)"
  shows "lower_bound_loop h below (pos s xs k) len = Ok (pos s xs m)"
  using assms(2-5)
proof (induction len arbitrary: k rule: less_induct)
  case (less len)
  show ?case
  proof (cases "len = 0")
    case True
    then show ?thesis using less.prems by (simp add: lower_bound_loop.simps)
  next
    case False
    let ?half = "len div 2"
    have mid: "iter_advance h (pos s xs k) ?half = Ok (pos s xs (k + ?half))"
      using less.prems(1) by (intro iter_advance_pos [OF assms(1)]) linarith
    have cmp: "below (pos s xs (k + ?half)) = Ok (k + ?half < m)"
      using less.prems(4) [of "k + ?half"] False by simp
    show ?thesis
    proof (cases "k + ?half < m")
      case True
      have "iter_inc h (pos s xs (k + ?half)) = Ok (pos s xs (Suc (k + ?half)))"
        using less.prems(1) False by (intro iter_inc_pos [OF assms(1)]) linarith
      moreover have "lower_bound_loop h below (pos s xs (Suc (k + ?half))) (len - ?half - 1)
          = Ok (pos s xs m)"
        using less.prems True False by (intro less.IH) auto
      ultimately show ?thesis
        using mid cmp True False by (subst lower_bound_loop.simps) simp
    next
      case nt: False
      have "lower_bound_loop h below (pos s xs k) ?half = Ok (pos s xs m)"
        using less.prems nt False by (intro less.IH) auto
      then show ?thesis
        using mid cmp nt False by (subst lower_bound_loop.simps) simp
    qed
  qed
qed

text \<open>\<^verbatim>\<open>lower_bound\<close> on a range partitioned by the comparison finds the partition point.\<close>

lemma lower_bound_partition [list_repr]:
  assumes l: "il h s (us @ vs @ ws)"
    and "\<And>a. a \<in> set us \<Longrightarrow> below a = Ok True" and "\<And>a. a \<in> set vs \<Longrightarrow> below a = Ok False"
  shows "lower_bound h below (hd (us @ vs @ ws @ [s])) (hd (ws @ [s])) = Ok (hd (vs @ ws @ [s]))"
proof -
  let ?xs = "us @ vs @ ws" and ?n = "length us + length vs"
  have first: "pos s ?xs 0 = hd (us @ vs @ ws @ [s])" and last: "pos s ?xs ?n = hd (ws @ [s])"
    and part: "pos s ?xs (length us) = hd (vs @ ws @ [s])"
    using pos_hd [of "[]" ?xs s] pos_hd [of "us @ vs" ws s] pos_hd [of us "vs @ ws" s] by simp_all
  have "below (pos s ?xs i) = Ok (i < length us)" if "i < ?n" for i
    using that assms(2) [of "us ! i"] assms(3) [of "vs ! (i - length us)"] by (auto simp: nth_append)
  then have "lower_bound_loop h below (pos s ?xs 0) ?n = Ok (pos s ?xs (length us))"
    by (intro lower_bound_loop_pos [OF l]) auto
  moreover have "iter_distance h (pos s ?xs 0) (pos s ?xs (0 + ?n)) = Ok ?n"
    by (rule iter_distance_pos [OF l]) simp
  ultimately show ?thesis
    unfolding lower_bound_def first [symmetric] part [symmetric] last [symmetric] by simp
qed

lemma find_if_range [list_repr]:
  assumes l: "il h s (as @ us @ vs @ ws)"
    and "\<And>a. a \<in> set us \<Longrightarrow> pred a = Ok False" and "vs \<noteq> [] \<Longrightarrow> pred (hd vs) = Ok True"
  shows "find_if h pred (hd (us @ vs @ ws @ [s])) (hd (ws @ [s])) = Ok (hd (vs @ ws @ [s]))"
  using assms(1,2)
proof (induction us arbitrary: as)
  case Nil
  show ?case
  proof (cases vs)
    case Nil
    then show ?thesis by (simp add: find_if.simps)
  next
    case (Cons v vs')
    then have "v \<noteq> hd (ws @ [s])"
      using Nil.prems(1) by (auto simp: il_def hd_append split: if_splits)
    then show ?thesis using Cons assms(3) by (simp add: find_if.simps)
  qed
next
  case (Cons u us)
  have "u \<noteq> hd (ws @ [s])"
    using Cons.prems(1) by (auto simp: il_def hd_append split: if_splits)
  moreover have "iter_inc h u = Ok (hd (us @ vs @ ws @ [s]))"
    using iter_inc_pos [OF Cons.prems(1), of "length as"] pos_hd [of as "u # us @ vs @ ws" s]
      pos_hd [of "as @ [u]" "us @ vs @ ws" s] by simp
  moreover have "find_if h pred (hd (us @ vs @ ws @ [s])) (hd (ws @ [s])) = Ok (hd (vs @ ws @ [s]))"
    using Cons.IH [of "as @ [u]"] Cons.prems by simp
  ultimately show ?case
    using Cons.prems(2) [of u] by (subst find_if.simps) simp
qed

end
