(* ===== verification/Io_Scheduler.thy ===== *)
theory Io_Scheduler
  imports Async_Operation Iterators
begin

unbundle bit_operations_syntax

text \<open>
  \<^verbatim>\<open>IoScheduler\<close> (\<^verbatim>\<open>src/io_scheduler.cpp\<close>) with the \<^verbatim>\<open>PollWakeEvent\<close> it owns and the parts
  of \<^verbatim>\<open>ContextThread\<close> it calls back (\<^verbatim>\<open>post\<close>, \<^verbatim>\<open>notify\<close>). The scheduler keeps the pending I/O
  operations in one intrusive list: first the active ones, sorted by descriptor, then from
  \<^verbatim>\<open>begin_cancelled_\<close> on the cancelled ones. The functions here are the bodies between taking
  and releasing the mutexes, run by one thread; notifying a condition variable has no effect
  on this state.
\<close>

section \<open>The wake event\<close>

definition PollWakeEvent_trigger :: "'k kernel \<Rightarrow> 'k world \<Rightarrow> u32 \<Rightarrow> 'k world run" where
  "PollWakeEvent_trigger K w n =
     (let (r, k') = K (kern w) (Sys_write (wake_fd w) (LocalU64 (ucast n)) 8)
      in exios_expect (0 \<le> sr_ret r \<or> sr_errno r = EWOULDBLOCK \<or> sr_errno r = EAGAIN)
           (Ok (w\<lparr>kern := k'\<rparr>)))"

definition PollWakeEvent_reset :: "'k kernel \<Rightarrow> 'k world \<Rightarrow> 'k world run" where
  "PollWakeEvent_reset K w =
     (let (r, k') = K (kern w) (Sys_read (wake_fd w) (LocalU64 0) 8)
      in exios_expect (0 \<le> sr_ret r \<or> sr_errno r = EWOULDBLOCK \<or> sr_errno r = EAGAIN)
           (Ok (w\<lparr>kern := k'\<rparr>)))"

text \<open>\<^verbatim>\<open>threads_waiting\<close> has 64 bits, \<^verbatim>\<open>trigger\<close> takes 32.\<close>

definition wake :: "'k kernel \<Rightarrow> 'k world \<Rightarrow> 'k world run" where
  "wake K w = PollWakeEvent_trigger K w (ucast (threads_waiting w))"

section \<open>Posting a finished operation\<close>

text \<open>\<^verbatim>\<open>ContextThread::post(AnyAsyncOperation*)\<close>\<close>

definition post :: "'k kernel \<Rightarrow> 'k world \<Rightarrow> addr \<Rightarrow> 'k world run" where
  "post K w op =
     run_bind (push_back (links w) completion_queue op) (\<lambda>h.
     run_bind (il_empty h completion_queue) (\<lambda>e.
     exios_expect (\<not> e) (wake K (w\<lparr>links := h\<rparr>))))"

section \<open>Scheduling\<close>

definition epoll_ctl :: "'k kernel \<Rightarrow> 'k world \<Rightarrow> epoll_op \<Rightarrow> fd \<Rightarrow> u32 \<Rightarrow> sys_result \<times> 'k world" where
  "epoll_ctl K w op fd events =
     (let (r, k') = K (kern w) (Sys_epoll_ctl (epoll_fd w) op fd events) in (r, w\<lparr>kern := k'\<rparr>))"

definition interest :: "async_io_operation \<Rightarrow> u32" where
  "interest op = (if aio_is_read op then EPOLLIN else EPOLLOUT)"

definition fd_less :: "'k world \<Rightarrow> fd \<Rightarrow> addr \<Rightarrow> bool run" where
  "fd_less w fd a = run_bind (deref_aio w a) (\<lambda>op. Ok (aio_fd op < fd))"

text \<open>The loop over the operations already waiting for the same descriptor.\<close>

partial_function (option) skip_same_fd ::
  "'k world \<Rightarrow> fd \<Rightarrow> addr \<Rightarrow> addr \<Rightarrow> u32 \<Rightarrow> (addr \<times> u32) run" where
  "skip_same_fd w fd insert_pos last_it events =
     (if insert_pos = last_it then Ok (insert_pos, events)
      else run_bind (deref_aio w insert_pos) (\<lambda>op.
           if aio_fd op \<noteq> fd then Ok (insert_pos, events)
           else run_bind (iter_inc (links w) insert_pos) (\<lambda>next_pos.
                skip_same_fd w fd next_pos last_it (events OR interest op))))"

definition find_insert_pos :: "'k world \<Rightarrow> fd \<Rightarrow> addr \<Rightarrow> addr \<Rightarrow> addr run" where
  "find_insert_pos w fd first last_it =
     (if first = last_it then lower_bound (links w) (fd_less w fd) first last_it
      else run_bind (deref_aio w first) (\<lambda>op1.
           if fd \<le> aio_fd op1 then Ok first
           else run_bind (iter_dec (links w) last_it) (\<lambda>p.
                run_bind (deref_aio w p) (\<lambda>op2.
                if aio_fd op2 \<le> fd then Ok last_it
                else lower_bound (links w) (fd_less w fd) first last_it))))"

definition register_fd :: "'k kernel \<Rightarrow> 'k world \<Rightarrow> fd \<Rightarrow> u32 \<Rightarrow> 'k world run" where
  "register_fd K w fd events =
     (let (r, w1) = epoll_ctl K w EPOLL_CTL_ADD fd events
      in if sr_ret r < 0
         then if sr_errno r \<noteq> EEXIST then Fault ContractViolation
              else let (r2, w2) = epoll_ctl K w1 EPOLL_CTL_MOD fd events
                   in if sr_ret r2 < 0 then Fault ContractViolation else Ok w2
         else Ok w1)"

definition schedule :: "'k kernel \<Rightarrow> 'k world \<Rightarrow> addr \<Rightarrow> 'k world run" where
  "schedule K w op =
     run_bind (il_begin (links w) operations_list) (\<lambda>first.
     run_bind (deref_aio w op) (\<lambda>aio.
     run_bind (find_insert_pos w (aio_fd aio) first (begin_cancelled w)) (\<lambda>pos.
     run_bind (skip_same_fd w (aio_fd aio) pos (begin_cancelled w) (interest aio)) (\<lambda>(pos, events).
     run_bind (register_fd K w (aio_fd aio) events) (\<lambda>w.
     run_bind (il_insert (links w) op pos) (\<lambda>(_, h).
     Ok (w\<lparr>links := h, poll_queue_length := poll_queue_length w + 1\<rparr>)))))))"

section \<open>Cancelling\<close>

text \<open>\<^verbatim>\<open>std::for_each(first_pos, last_pos, [](auto& item) { item.cancel(); })\<close>\<close>

partial_function (option) for_each_cancel :: "'k world \<Rightarrow> addr \<Rightarrow> addr \<Rightarrow> 'k world run" where
  "for_each_cancel w first last_it =
     (if first = last_it then Ok w
      else run_bind (deref_aio w first) (\<lambda>op.
           run_bind (iter_inc (links w) first) (\<lambda>n.
           for_each_cancel (store_aio w first (AsyncIoOperation_cancel op)) n last_it)))"

definition fd_differs :: "'k world \<Rightarrow> fd \<Rightarrow> addr \<Rightarrow> bool run" where
  "fd_differs w fd a = run_bind (deref_aio w a) (\<lambda>op. Ok (aio_fd op \<noteq> fd))"

definition cancel :: "'k kernel \<Rightarrow> 'k world \<Rightarrow> fd \<Rightarrow> 'k world run" where
  "cancel K w fd =
     run_bind (il_begin (links w) operations_list) (\<lambda>first.
     run_bind (lower_bound (links w) (fd_less w fd) first (begin_cancelled w)) (\<lambda>first_pos.
     run_bind (find_if (links w) (fd_differs w fd) first_pos (begin_cancelled w)) (\<lambda>last_pos.
     if first_pos = last_pos then Ok w
     else run_bind (for_each_cancel w first_pos last_pos) (\<lambda>w.
          run_bind (splice_within (links w) operations_list (begin_cancelled w) first_pos last_pos)
            (\<lambda>(b, h).
          let (_, w) = epoll_ctl K (w\<lparr>links := h, begin_cancelled := b\<rparr>) EPOLL_CTL_DEL fd 0
          in wake K w)))))"

definition io_empty :: "'k world \<Rightarrow> bool" where
  "io_empty w \<longleftrightarrow> poll_queue_length w = 0"

section \<open>Polling\<close>

definition decrement_count :: "'k world \<Rightarrow> nat \<Rightarrow> 'k world run" where
  "decrement_count w val =
     (let prev = poll_queue_length w
      in exios_expect (val = 0 \<or> val \<le> unat prev)
           (Ok (w\<lparr>poll_queue_length := prev - of_nat val\<rparr>)))"

partial_function (option) process_cancellations ::
  "'k kernel \<Rightarrow> 'k world \<Rightarrow> addr \<Rightarrow> addr \<Rightarrow> nat \<Rightarrow> (addr \<times> nat \<times> 'k world) run" where
  "process_cancellations K w it last_it count =
     (if it = last_it then Ok (it, count, w)
      else run_bind (erase (links w) operations_list it) (\<lambda>(it', h).
           run_bind (post K (w\<lparr>links := h\<rparr>) it) (\<lambda>w.
           process_cancellations K w it' last_it (Suc count))))"

text \<open>
  The loop over the operations of one notified descriptor: number of operations seen, number
  finished, and the events to register for the rest.
\<close>

partial_function (option) notify_fd ::
  "'k kernel \<Rightarrow> u32 \<Rightarrow> fd \<Rightarrow> addr \<Rightarrow> 'k world \<Rightarrow> addr \<Rightarrow> nat \<Rightarrow> nat \<Rightarrow> u32
     \<Rightarrow> (nat \<times> nat \<times> u32 \<times> 'k world) run" where
  "notify_fd K events fd last_it w it items processed reregister =
     (if it = last_it then Ok (items, processed, reregister, w)
      else run_bind (deref_aio w it) (\<lambda>item.
           if aio_fd item \<noteq> fd then Ok (items, processed, reregister, w)
           else run_bind (iter_inc (links w) it) (\<lambda>next_it.
                let reset_event = ScopeGuard (\<lambda>events. Ok (events OR interest item))
                in if aio_is_cancelled item \<or> ((events AND EPOLLIN \<noteq> 0) \<noteq> aio_is_read item)
                then run_bind (ScopeGuard_destroy reset_event reregister)
                       (\<lambda>reregister. notify_fd K events fd last_it w next_it (Suc items) processed reregister)
                else run_bind (perform_io K (kern w) item) (\<lambda>(finished, item', k').
                     let w = store_aio (w\<lparr>kern := k'\<rparr>) it item'
                     in if \<not> finished
                        then run_bind (ScopeGuard_destroy reset_event reregister)
                               (\<lambda>reregister. notify_fd K events fd last_it w next_it (Suc items) processed reregister)
                        else let reset_event = deactivate reset_event
                             in run_bind (erase (links w) operations_list it) (\<lambda>(next_it, h).
                                run_bind (post K (w\<lparr>links := h\<rparr>) it) (\<lambda>w.
                                run_bind (ScopeGuard_destroy reset_event reregister)
                                  (\<lambda>reregister. notify_fd K events fd last_it w next_it (Suc items) (Suc processed) reregister)))))))"

definition update_registration ::
  "'k kernel \<Rightarrow> 'k world \<Rightarrow> fd \<Rightarrow> nat \<Rightarrow> nat \<Rightarrow> u32 \<Rightarrow> u32 \<Rightarrow> 'k world run" where
  "update_registration K w fd items processed events reregister =
     (if items = processed
      then let (r, w) = epoll_ctl K w EPOLL_CTL_DEL fd events
           in exios_expect (sr_ret r = 0 \<or> sr_errno r = ENOENT) (Ok w)
      else let (r, w) = epoll_ctl K w EPOLL_CTL_MOD fd reregister
           in exios_expect (sr_ret r = 0) (Ok w))"

definition process_event ::
  "'k kernel \<Rightarrow> addr \<Rightarrow> 'k world \<Rightarrow> epoll_event \<Rightarrow> (nat \<times> 'k world) run" where
  "process_event K last_it w event =
     (if ev_fd event = wake_fd w then run_bind (PollWakeEvent_reset K w) (\<lambda>w. Ok (0, w))
      else run_bind (il_begin (links w) operations_list) (\<lambda>b.
           run_bind (lower_bound (links w) (fd_less w (ev_fd event)) b last_it) (\<lambda>first.
           run_bind (notify_fd K (ev_events event) (ev_fd event) last_it w first 0 0 0)
             (\<lambda>(items, processed, reregister, w).
           run_bind (update_registration K w (ev_fd event) items processed (ev_events event) reregister)
             (\<lambda>w. Ok (processed, w))))))"

fun process_notifications ::
  "'k kernel \<Rightarrow> addr \<Rightarrow> 'k world \<Rightarrow> epoll_event list \<Rightarrow> nat \<Rightarrow> (nat \<times> 'k world) run" where
  "process_notifications K last_it w [] acc = Ok (acc, w)"
| "process_notifications K last_it w (event # events) acc =
     run_bind (process_event K last_it w event) (\<lambda>(n, w).
     process_notifications K last_it w events (acc + n))"

definition kMaxEventsPerPoll :: nat where
  "kMaxEventsPerPoll = 1024"

definition out_events :: "sys_result \<Rightarrow> epoll_event list" where
  "out_events r = (case sr_out r of OutEvents evs \<Rightarrow> take (nat (sr_ret r)) evs | _ \<Rightarrow> [])"

text \<open>The polling loop; it goes on while it is not to block and the buffer came back full.\<close>

partial_function (option) poll_loop ::
  "'k kernel \<Rightarrow> bool \<Rightarrow> int \<Rightarrow> nat \<Rightarrow> 'k world \<Rightarrow> ((exn + nat) \<times> 'k world) run" where
  "poll_loop K block timeout num_processed w =
     (let w = w\<lparr>threads_waiting := threads_waiting w + 1\<rparr>;
          (r, k') = K (kern w) (Sys_epoll_wait (epoll_fd w) kMaxEventsPerPoll timeout);
          w = w\<lparr>kern := k', threads_waiting := threads_waiting w - 1\<rparr>
      in if sr_ret r < 0 then Ok (Inl (SystemError (sr_errno r)), w)
         else run_bind (process_notifications K (begin_cancelled w) w (out_events r) 0) (\<lambda>(num, w).
              run_bind (decrement_count w num) (\<lambda>w.
              if nat (sr_ret r) = kMaxEventsPerPoll \<and> \<not> block
              then poll_loop K block 0 (num_processed + num) w
              else Ok (Inr (num_processed + num), w))))"

definition poll_once :: "'k kernel \<Rightarrow> bool \<Rightarrow> 'k world \<Rightarrow> ((exn + nat) \<times> 'k world) run" where
  "poll_once K block w =
     run_bind (process_cancellations K w (begin_cancelled w) (il_end operations_list) 0)
       (\<lambda>(b, num_cancelled, w).
     exios_expect (b = il_end operations_list)
      (run_bind (decrement_count (w\<lparr>begin_cancelled := b\<rparr>) num_cancelled) (\<lambda>w.
       run_bind (il_begin (links w) operations_list) (\<lambda>first.
       if first = begin_cancelled w
       then exios_expect (poll_queue_length w = 0) (Ok (Inr 0, w))
       else poll_loop K block (if block \<and> num_cancelled = 0 then -1 else 0) 0 w))))"

end
