(* ===== verification/File_Descriptor.thy ===== *)
theory File_Descriptor
  imports Async_Operation
begin

text \<open>
  \<^verbatim>\<open>FileDescriptor\<close> (\<^verbatim>\<open>file_descriptor.hpp\<close>, \<^verbatim>\<open>src/file_descriptor.cpp\<close>), the owner of a
  descriptor: a number, negative when there is nothing to close. Its operations work on the
  numbers; where an operation ends the life of an owner the kernel is called.
\<close>

definition kInvalidDescriptor :: fd where
  "kInvalidDescriptor = -1"

text \<open>Move construction: the new owner, and what the old one is left with.\<close>

definition FileDescriptor_move :: "fd \<Rightarrow> fd \<times> fd" where
  "FileDescriptor_move other = (other, kInvalidDescriptor)"

definition FileDescriptor_destroy :: "'k kernel \<Rightarrow> 'k \<Rightarrow> fd \<Rightarrow> 'k" where
  "FileDescriptor_destroy K k fd = (if 0 \<le> fd then snd (K k (Sys_close fd)) else k)"

definition FileDescriptor_swap :: "fd \<Rightarrow> fd \<Rightarrow> fd \<times> fd" where
  "FileDescriptor_swap lhs rhs = (rhs, lhs)"

text \<open>Move assignment: the target and the source afterwards; the temporary dies at the end.\<close>

definition FileDescriptor_assign :: "'k kernel \<Rightarrow> 'k \<Rightarrow> fd \<Rightarrow> fd \<Rightarrow> fd \<times> fd \<times> 'k" where
  "FileDescriptor_assign K k this other =
     (let (tmp, other) = FileDescriptor_move other; (this, tmp) = FileDescriptor_swap this tmp
      in (this, other, FileDescriptor_destroy K k tmp))"

lemma FileDescriptor_assign_eq [simp]:
  "FileDescriptor_assign K k this other = (other, kInvalidDescriptor, FileDescriptor_destroy K k this)"
  by (simp add: FileDescriptor_assign_def FileDescriptor_move_def FileDescriptor_swap_def)

lemma FileDescriptor_destroy_invalid [simp]: "FileDescriptor_destroy K k kInvalidDescriptor = k"
  by (simp add: FileDescriptor_destroy_def kInvalidDescriptor_def)

section \<open>The calls that were made\<close>

text \<open>
  Any kernel with a record of the calls made to it, in order: with it statements can speak of
  the calls of a computation.
\<close>

definition logged :: "'k kernel \<Rightarrow> ('k \<times> syscall list) kernel" where
  "logged K kl c = (case kl of (k, calls) \<Rightarrow> let (r, k') = K k c in (r, k', calls @ [c]))"

definition calls_made :: "('k \<times> syscall list) world \<Rightarrow> syscall list" where
  "calls_made w = snd (kern w)"

lemma logged_answer:
  "K (fst kl) c = (r, k') \<Longrightarrow> logged K kl c = (r, k', snd kl @ [c])"
  by (cases kl) (simp add: logged_def)

lemma logged_calls: "logged K kl c = (r, k', calls) \<Longrightarrow> calls = snd kl @ [c]"
  by (cases kl) (auto simp: logged_def split: prod.splits)

lemma snd_logged [simp]: "snd (snd (logged K kl c)) = snd kl @ [c]"
  by (cases kl) (simp add: logged_def split: prod.split)

lemma logged_destroy [simp]:
  "snd (FileDescriptor_destroy (logged K) kl fd) = (if 0 \<le> fd then snd kl @ [Sys_close fd] else snd kl)"
  by (simp add: FileDescriptor_destroy_def)

end
