(* ===== verification/Context_Thread.thy ===== *)
theory Context_Thread
  imports Io_Scheduler File_Descriptor
begin

text \<open>
  \<^verbatim>\<open>ContextThread\<close> (\<^verbatim>\<open>src/context_thread.cpp\<close>), the \<^verbatim>\<open>Context\<close> that forwards to it,
  \<^verbatim>\<open>Work\<close> and \<^verbatim>\<open>wrap_work\<close> (\<^verbatim>\<open>work.hpp\<close>), and dispatching and discarding operations.

  Completion handlers are user code. They are a parameter: a handler number, the argument it is
  called with and the user's own state give the calls into the library the handler makes, in
  order, whether it throws, and the user's next state. Handlers may post completions, start
  I/O operations and cancel descriptors; a handler that calls \<^verbatim>\<open>run\<close> itself is not modelled.
  One thread runs the context; waiting on the condition variable in \<^verbatim>\<open>run\<close>, which only
  another thread could end, is a computation that does not return.
\<close>

section \<open>Work\<close>

definition latch_work :: "'k world \<Rightarrow> 'k world run" where
  "latch_work w =
     (let prev = remaining_count w
      in exios_expect (prev < -1) (Ok (w\<lparr>remaining_count := prev + 1\<rparr>)))"

text \<open>
  \<^verbatim>\<open>release_work\<close> ends with \<^verbatim>\<open>cvar_.notify_all()\<close>; the flag says whether the condition
  variable has not been destroyed yet.
\<close>

definition release_work :: "bool \<Rightarrow> 'k kernel \<Rightarrow> 'k world \<Rightarrow> 'k world run" where
  "release_work cvar_alive K w =
     (let prev = remaining_count w
      in exios_expect (0 < prev)
          (run_bind (wake K (w\<lparr>remaining_count := prev - 1\<rparr>)) (\<lambda>w.
           if cvar_alive then Ok w else Fault BadAccess)))"

text \<open>
  A \<^verbatim>\<open>Context\<close> is a pointer to the thread; the world has one thread, and the members of
  \<^verbatim>\<open>Context\<close> call those of the thread.
\<close>

abbreviation Context_latch_work :: "'k world \<Rightarrow> 'k world run" where
  "Context_latch_work w \<equiv> latch_work w"

abbreviation Context_release_work :: "bool \<Rightarrow> 'k kernel \<Rightarrow> 'k world \<Rightarrow> 'k world run" where
  "Context_release_work cvar_alive K w \<equiv> release_work cvar_alive K w"

abbreviation Context_post :: "'k kernel \<Rightarrow> 'k world \<Rightarrow> addr \<Rightarrow> 'k world run" where
  "Context_post K w a \<equiv> post K w a"

text \<open>A \<^verbatim>\<open>Work\<close> object is its flag \<^verbatim>\<open>active_\<close>; moving from it leaves it inactive.\<close>

definition Work_construct :: "'k world \<Rightarrow> (bool \<times> 'k world) run" where
  "Work_construct w = run_bind (Context_latch_work w) (\<lambda>w. Ok (True, w))"

definition Work_move :: "bool \<Rightarrow> bool \<times> bool" where
  "Work_move other = (other, False)"

definition Work_reset :: "bool \<Rightarrow> 'k kernel \<Rightarrow> bool \<Rightarrow> 'k world \<Rightarrow> (bool \<times> 'k world) run" where
  "Work_reset cvar_alive K active w =
     run_bind (if active then Context_release_work cvar_alive K w else Ok w) (\<lambda>w. Ok (False, w))"

definition wrap_work :: "'k world \<Rightarrow> completion \<Rightarrow> (completion \<times> 'k world) run" where
  "wrap_work w f = run_bind (Work_construct w) (\<lambda>(work, w). Ok (WrapWork work f, w))"

text \<open>
  The destructor of a closure: every \<^verbatim>\<open>Work\<close> in it that is still active is released, every
  descriptor it owns is closed.
\<close>

primrec destroy_closure :: "bool \<Rightarrow> 'k kernel \<Rightarrow> completion \<Rightarrow> 'k world \<Rightarrow> 'k world run" where
  "destroy_closure alive K (Fn _) w = Ok w"
| "destroy_closure alive K (WrapWork active f) w =
     run_bind (destroy_closure alive K f w) (\<lambda>w.
     run_bind (Work_reset alive K active w) (\<lambda>(_, w). Ok w))"
| "destroy_closure alive K (BindResult _ f) w = destroy_closure alive K f w"
| "destroy_closure alive K (OwnFd fd f) w =
     run_bind (destroy_closure alive K f w) (\<lambda>w.
     Ok (w\<lparr>kern := FileDescriptor_destroy K (kern w) fd\<rparr>))"
| "destroy_closure alive K (AcceptInto _ f) w = destroy_closure alive K f w"

text \<open>The descriptors a closure owns, in the order its destructor closes them.\<close>

primrec owned_fds :: "completion \<Rightarrow> fd list" where
  "owned_fds (Fn _) = []"
| "owned_fds (WrapWork _ f) = owned_fds f"
| "owned_fds (BindResult _ f) = owned_fds f"
| "owned_fds (OwnFd fd f) = owned_fds f @ [fd]"
| "owned_fds (AcceptInto _ f) = owned_fds f"

lemma run_bind_Ok [simp]: "run_bind m Ok = m"
  by (cases m) (auto simp: run_bind_def split: sum.splits)

lemma wrap_work_latches: "wrap_work w f = run_bind (latch_work w) (\<lambda>w. Ok (WrapWork True f, w))"
  by (simp add: wrap_work_def Work_construct_def run_bind_assoc)

lemma destroy_WrapWork [simp]:
  "destroy_closure alive K (WrapWork active f) w = run_bind (destroy_closure alive K f w) (\<lambda>w.
     if active then release_work alive K w else Ok w)"
  by (cases active) (simp_all add: Work_reset_def run_bind_assoc)

declare destroy_closure.simps(2) [simp del]

section \<open>Posting, starting and cancelling\<close>

text \<open>\<^verbatim>\<open>post(F&& f, Alloc const&)\<close> of \<^verbatim>\<open>ContextThread\<close> and of \<^verbatim>\<open>Context\<close>, which have the same text.\<close>

definition post_completion :: "'k kernel \<Rightarrow> 'k world \<Rightarrow> completion \<Rightarrow> 'k world run" where
  "post_completion K w f =
     run_bind (wrap_work w f) (\<lambda>(f, w).
     let (a, w) = make_async_operation w f in post K w a)"

definition Context_post_completion :: "'k kernel \<Rightarrow> 'k world \<Rightarrow> completion \<Rightarrow> 'k world run" where
  "Context_post_completion K w f =
     run_bind (wrap_work w f) (\<lambda>(f, w).
     let (a, w) = make_async_operation w f in Context_post K w a)"

lemma Context_post_completion_eq [simp]: "Context_post_completion = post_completion"
  by (intro ext) (simp add: Context_post_completion_def post_completion_def)

text \<open>The common body of the operations of the I/O objects.\<close>

definition start_io :: "'k kernel \<Rightarrow> 'k world \<Rightarrow> completion \<Rightarrow> fd \<Rightarrow> io_op \<Rightarrow> 'k world run" where
  "start_io K w f fd op =
     run_bind (wrap_work w f) (\<lambda>(f, w).
     let (a, w) = make_async_io_operation w f fd op in schedule K w a)"

datatype api = ApiPost nat | ApiStart fd io_op nat | ApiCancel fd

primrec run_api :: "'k kernel \<Rightarrow> 'k world \<Rightarrow> api \<Rightarrow> 'k world run" where
  "run_api K w (ApiPost n) = post_completion K w (Fn n)"
| "run_api K w (ApiStart fd op n) = start_io K w (Fn n) fd op"
| "run_api K w (ApiCancel fd) = cancel K w fd"

primrec run_apis :: "'k kernel \<Rightarrow> api list \<Rightarrow> 'k world \<Rightarrow> 'k world run" where
  "run_apis K [] w = Ok w"
| "run_apis K (c # cs) w = run_bind (run_api K w c) (run_apis K cs)"

type_synonym 'u handlers = "nat \<Rightarrow> io_arg option \<Rightarrow> 'u \<Rightarrow> api list \<times> nat option \<times> 'u"

section \<open>Dispatching and discarding\<close>

text \<open>
  Moving a new socket with descriptor \<open>fd\<close> into an I/O object, by the move assignment the
  compiler provides for the sockets; the object must still exist.
\<close>

definition IoObject_assign :: "'k kernel \<Rightarrow> 'k world \<Rightarrow> nat \<Rightarrow> fd \<Rightarrow> 'k world run" where
  "IoObject_assign K w ob fd =
     (case io_fds w ob of
        None \<Rightarrow> Fault BadAccess
      | Some old \<Rightarrow>
          let (new, _, k) = FileDescriptor_assign K (kern w) old fd
          in Ok (w\<lparr>io_fds := (io_fds w)(ob \<mapsto> new), kern := k\<rparr>))"

text \<open>
  What the closures of the library do before the user's handler runs, and the argument they
  hand on. A closure of \<^verbatim>\<open>accept\<close> is only ever called with the result of an accept.
\<close>

primrec enter_closure ::
  "'k kernel \<Rightarrow> completion \<Rightarrow> io_arg option \<Rightarrow> 'k world \<Rightarrow> (io_arg option \<times> 'k world) run" where
  "enter_closure K (Fn _) arg w = Ok (arg, w)"
| "enter_closure K (WrapWork _ f) arg w = enter_closure K f arg w"
| "enter_closure K (BindResult result f) arg w = enter_closure K f (Some result) w"
| "enter_closure K (OwnFd _ f) arg w = enter_closure K f arg w"
| "enter_closure K (AcceptInto target f) arg w =
     (case arg of
        Some (ArgAccept (ErrorValue e)) \<Rightarrow>
          enter_closure K f (Some (ArgConnect (result_error e))) w
      | Some (ArgAccept (ResultValue fd)) \<Rightarrow>
          run_bind (IoObject_assign K w target fd) (\<lambda>w.
          enter_closure K f (Some (ArgConnect (ResultValue ()))) w)
      | _ \<Rightarrow> Fault BadVariantAccess)"

text \<open>A handler is called; its closure, a local variable, is destroyed however it ends.\<close>

definition call_handler ::
  "'k kernel \<Rightarrow> 'u handlers \<Rightarrow> completion \<Rightarrow> io_arg option \<Rightarrow> 'u \<Rightarrow> 'k world
     \<Rightarrow> (exn option \<times> 'u \<times> 'k world) run" where
  "call_handler K H f arg u w =
     run_bind (enter_closure K f arg w) (\<lambda>(arg, w).
     let (calls, ex, u') = H (handler_of f) arg u
     in run_bind (run_apis K calls w) (\<lambda>w.
        run_bind (destroy_closure True K f w) (\<lambda>w.
        Ok (map_option UserException ex, u', w))))"

definition dispatch ::
  "'k kernel \<Rightarrow> 'u handlers \<Rightarrow> addr \<Rightarrow> 'u \<Rightarrow> 'k world \<Rightarrow> (exn option \<times> 'u \<times> 'k world) run" where
  "dispatch K H a u w =
     (case objs w a of
        None \<Rightarrow> Fault BadAccess
      | Some (PlainOp f) \<Rightarrow> call_handler K H f None u (deallocate w a)
      | Some (IoOp op) \<Rightarrow>
          run_bind (op_dispatch (aio_operation op)) (\<lambda>arg.
          call_handler K H (aio_f op) (Some arg) u (deallocate w a)))"

text \<open>Discarding destroys the object with its closure, without calling the handler.\<close>

definition discard :: "bool \<Rightarrow> 'k kernel \<Rightarrow> addr \<Rightarrow> 'k world \<Rightarrow> 'k world run" where
  "discard alive K a w =
     (case objs w a of
        None \<Rightarrow> Fault BadAccess
      | Some op \<Rightarrow> run_bind (destroy_closure alive K (op_completion op) w) (\<lambda>w. Ok (deallocate w a)))"

section \<open>Running\<close>

text \<open>The loop of \<^verbatim>\<open>run_once\<close> over its temporary list, with the count of dispatched items.\<close>

type_synonym ('u, 'k) drain_state = "nat \<times> 'u \<times> 'k world"

definition drain_links :: "('u, 'k) drain_state \<Rightarrow> list_items" where
  "drain_links st = (case st of (n, u, w) \<Rightarrow> links w)"

definition put_drain_links :: "list_items \<Rightarrow> ('u, 'k) drain_state \<Rightarrow> ('u, 'k) drain_state" where
  "put_drain_links h st = (case st of (n, u, w) \<Rightarrow> (n, u, w\<lparr>links := h\<rparr>))"

definition dispatch_item ::
  "'k kernel \<Rightarrow> 'u handlers \<Rightarrow> addr \<Rightarrow> ('u, 'k) drain_state \<Rightarrow> (exn option \<times> ('u, 'k) drain_state) run" where
  "dispatch_item K H a st =
     (case st of (n, u, w) \<Rightarrow>
        run_bind (dispatch K H a u w) (\<lambda>(ex, u, w).
        Ok (ex, (if ex = None then n + 1 else n), u, w)))"

text \<open>
  Leaving \<^verbatim>\<open>run_once\<close>: the second scope guard puts unprocessed completions back to the front of
  the queue, the first one notifies other threads, of which there are none here, and the
  temporary list ceases to exist.
\<close>

definition put_back :: "addr \<Rightarrow> list_items \<Rightarrow> list_items run" where
  "put_back tmp h =
     run_bind (il_empty h tmp) (\<lambda>e.
     if e then Ok h
     else run_bind (il_begin h completion_queue) (\<lambda>b.
          run_bind (splice_all h completion_queue b tmp) (\<lambda>(_, h). Ok h)))"

definition leave_run_once :: "'k world \<Rightarrow> addr \<Rightarrow> 'k world run" where
  "leave_run_once w tmp =
     run_bind (ScopeGuard_destroy (ScopeGuard (put_back tmp)) (links w)) (\<lambda>h.
     Ok (w\<lparr>links := free_item h tmp\<rparr>))"

text \<open>The second half of \<^verbatim>\<open>run_once\<close>, after the completions have been dispatched.\<close>

definition poll_after_completions ::
  "'k kernel \<Rightarrow> addr \<Rightarrow> nat \<Rightarrow> 'u \<Rightarrow> 'k world \<Rightarrow> ((exn + nat) \<times> 'u \<times> 'k world) run" where
  "poll_after_completions K tmp num_processed u w =
     run_bind (il_empty (links w) completion_queue) (\<lambda>e.
     let more_completions_ready = \<not> e
     in if \<not> io_empty w
        then run_bind (poll_once K (\<not> more_completions_ready) w) (\<lambda>(r, w).
             run_bind (leave_run_once w tmp) (\<lambda>w.
             case r of Inl e \<Rightarrow> Ok (Inl e, u, w) | Inr _ \<Rightarrow> Ok (Inr num_processed, u, w)))
        else run_bind (leave_run_once w tmp) (\<lambda>w. Ok (Inr num_processed, u, w)))"

definition run_once ::
  "'k kernel \<Rightarrow> 'u handlers \<Rightarrow> 'u \<Rightarrow> 'k world \<Rightarrow> ((exn + nat) \<times> 'u \<times> 'k world) run" where
  "run_once K H u w =
     (let tmp = next_addr w
      in run_bind (il_construct (links w) tmp) (\<lambda>h.
         run_bind (splice_all h tmp (il_end tmp) completion_queue) (\<lambda>(_, h).
         run_bind (il_empty h completion_queue) (\<lambda>e.
         exios_expect e
          (run_bind (drain_list drain_links put_drain_links tmp (dispatch_item K H)
                      (0, u, w\<lparr>next_addr := Suc tmp, links := h\<rparr>)) (\<lambda>(ex, num_processed, u, w).
           case ex of
             Some e \<Rightarrow> run_bind (leave_run_once w tmp) (\<lambda>w. Ok (Inl e, u, w))
           | None \<Rightarrow> poll_after_completions K tmp num_processed u w))))))"

partial_function (option) run ::
  "'k kernel \<Rightarrow> 'u handlers \<Rightarrow> 'u \<Rightarrow> 'k world \<Rightarrow> nat \<Rightarrow> ((exn + nat) \<times> 'u \<times> 'k world) run" where
  "run K H u w num_processed =
     (if remaining_count w > 0
      then run_bind (il_empty (links w) completion_queue) (\<lambda>e.
           if e \<and> io_empty w \<and> remaining_count w > 0 then Diverges
           else run_bind (run_once K H u w) (\<lambda>(r, u, w).
                case r of Inl ex \<Rightarrow> Ok (Inl ex, u, w)
                        | Inr n \<Rightarrow> run K H u w (num_processed + n)))
      else run_bind (wake K w) (\<lambda>w. Ok (Inr num_processed, u, w)))"

section \<open>Construction and destruction\<close>

text \<open>
  The constructor is \<^verbatim>\<open>noexcept\<close>, but the constructors of the scheduler and of its wake
  event throw when a system call fails.
\<close>

definition PollWakeEvent_construct :: "'k kernel \<Rightarrow> 'k \<Rightarrow> (exn + fd) \<times> 'k" where
  "PollWakeEvent_construct K k =
     (let (r, k) = K k (Sys_eventfd False)
      in (if sr_ret r < 0 then Inl (SystemError (sr_errno r)) else Inr (sr_ret r), k))"

definition construct_wake_registration :: "'k kernel \<Rightarrow> 'k \<Rightarrow> fd \<Rightarrow> fd \<Rightarrow> (exn + unit) \<times> 'k" where
  "construct_wake_registration K k efd wfd =
     (let (r, k) = K k (Sys_epoll_ctl efd EPOLL_CTL_ADD wfd EPOLLIN)
      in if sr_ret r < 0
         then if sr_errno r \<noteq> EEXIST then (Inl (SystemError (sr_errno r)), k)
              else let (r2, k) = K k (Sys_epoll_ctl efd EPOLL_CTL_MOD wfd EPOLLIN)
                   in (if sr_ret r2 < 0 then Inl (SystemError (sr_errno r2)) else Inr (), k)
         else (Inr (), k))"

text \<open>
  The list, the epoll instance and the wake event of a new scheduler, or the exception; a throw
  destroys the wake event but leaves the epoll instance, a plain number, open.
\<close>

definition IoScheduler_construct :: "'k kernel \<Rightarrow> 'k \<Rightarrow> ((exn + list_items \<times> fd \<times> fd) \<times> 'k) run" where
  "IoScheduler_construct K k =
     (let (r, k) = K k Sys_epoll_create; (wake_event, k) = PollWakeEvent_construct K k
      in case wake_event of
           Inl e \<Rightarrow> Ok (Inl e, k)
         | Inr wfd \<Rightarrow>
             run_bind (il_construct \<lparr>item_prev = Map.empty, item_next = Map.empty\<rparr> operations_list) (\<lambda>h.
             if sr_ret r < 0 then Ok (Inl (SystemError (sr_errno r)), FileDescriptor_destroy K k wfd)
             else case construct_wake_registration K k (sr_ret r) wfd of
                    (Inl e, k) \<Rightarrow> Ok (Inl e, FileDescriptor_destroy K k wfd)
                  | (Inr _, k) \<Rightarrow> Ok (Inr (h, sr_ret r, wfd), k)))"

definition ContextThread_construct :: "'k kernel \<Rightarrow> 'k \<Rightarrow> 'k world run" where
  "ContextThread_construct K k =
     run_bind (IoScheduler_construct K k) (\<lambda>(r, k).
     case r of
       Inl e \<Rightarrow> Fault NoexceptViolation
     | Inr (h, efd, wfd) \<Rightarrow>
         run_bind (il_construct h completion_queue) (\<lambda>h.
         Ok \<lparr>links = h, objs = Map.empty, next_addr = 3, kern = k, epoll_fd = efd, wake_fd = wfd,
             begin_cancelled = il_end operations_list, poll_queue_length = 0, remaining_count = 0,
             threads_waiting = 0, io_fds = Map.empty\<rparr>))"

text \<open>
  The destructor drains the completion queue; then the members are destroyed in the reverse
  order of their declaration: the condition variable before the scheduler, whose destructor
  closes the epoll instance, discards the pending I/O operations and closes the wake event.
\<close>

definition discard_item :: "bool \<Rightarrow> 'k kernel \<Rightarrow> addr \<Rightarrow> 'k world \<Rightarrow> (exn option \<times> 'k world) run" where
  "discard_item alive K a w = run_bind (discard alive K a w) (\<lambda>w. Ok (None, w))"

definition put_links :: "list_items \<Rightarrow> 'k world \<Rightarrow> 'k world" where
  "put_links h w = w\<lparr>links := h\<rparr>"

definition IoScheduler_destroy :: "'k kernel \<Rightarrow> 'k world \<Rightarrow> 'k world run" where
  "IoScheduler_destroy K w =
     (let (_, k) = K (kern w) (Sys_close (epoll_fd w))
      in run_bind (drain_list links put_links operations_list (discard_item False K) (w\<lparr>kern := k\<rparr>))
          (\<lambda>(_, w). Ok (w\<lparr>kern := FileDescriptor_destroy K (kern w) (wake_fd w)\<rparr>)))"

definition ContextThread_destroy :: "'k kernel \<Rightarrow> 'k world \<Rightarrow> 'k world run" where
  "ContextThread_destroy K w =
     run_bind (drain_list links put_links completion_queue (discard_item True K) w) (\<lambda>(_, w).
     IoScheduler_destroy K w)"

end
