(* ===== verification/Io_Object.thy ===== *)
theory Io_Object
  imports Context_Thread
begin

text \<open>
  \<^verbatim>\<open>IoObject\<close> (\<^verbatim>\<open>io_object.hpp\<close>, \<^verbatim>\<open>src/io_object.cpp\<close>), the base of the timers, events,
  signals and sockets. An I/O object of the user is a number; the world keeps the number in its
  \<^verbatim>\<open>FileDescriptor\<close> member, and no entry when the object does not exist. Members that throw
  return the exception beside the state; a constructor that throws leaves no object and has
  destroyed its base.
\<close>

type_synonym 'k may_throw = "((exn + unit) \<times> 'k world) run"

text \<open>\<^verbatim>\<open>fd_.value()\<close>\<close>

definition object_fd :: "'k world \<Rightarrow> nat \<Rightarrow> fd run" where
  "object_fd w ob = (case io_fds w ob of None \<Rightarrow> Fault BadAccess | Some fd \<Rightarrow> Ok fd)"

definition IoObject_construct :: "'k world \<Rightarrow> nat \<Rightarrow> fd \<Rightarrow> 'k world" where
  "IoObject_construct w ob fd = w\<lparr>io_fds := (io_fds w)(ob \<mapsto> fst (FileDescriptor_move fd))\<rparr>"

definition IoObject_destroy :: "'k kernel \<Rightarrow> 'k world \<Rightarrow> nat \<Rightarrow> 'k world run" where
  "IoObject_destroy K w ob =
     run_bind (object_fd w ob) (\<lambda>fd.
     Ok (w\<lparr>kern := FileDescriptor_destroy K (kern w) fd, io_fds := (io_fds w)(ob := None)\<rparr>))"

text \<open>\<^verbatim>\<open>::close(fd_.value()); fd_ = FileDescriptor {};\<close>\<close>

definition IoObject_close :: "'k kernel \<Rightarrow> 'k world \<Rightarrow> nat \<Rightarrow> 'k world run" where
  "IoObject_close K w ob =
     run_bind (object_fd w ob) (\<lambda>fd.
     let (_, k) = K (kern w) (Sys_close fd);
         (this, tmp, k) = FileDescriptor_assign K k fd kInvalidDescriptor
     in Ok (w\<lparr>kern := FileDescriptor_destroy K k tmp, io_fds := (io_fds w)(ob \<mapsto> this)\<rparr>))"

definition IoObject_cancel :: "'k kernel \<Rightarrow> 'k world \<Rightarrow> nat \<Rightarrow> 'k world run" where
  "IoObject_cancel K w ob = run_bind (object_fd w ob) (\<lambda>fd. cancel K w fd)"

text \<open>The handler is wrapped here and again by \<^verbatim>\<open>Context::post\<close>.\<close>

definition IoObject_post_completion :: "'k kernel \<Rightarrow> 'k world \<Rightarrow> completion \<Rightarrow> 'k world run" where
  "IoObject_post_completion K w f = run_bind (wrap_work w f) (\<lambda>(f, w). Context_post_completion K w f)"

text \<open>
  The common form of the asynchronous members: \<^verbatim>\<open>make_async_io_operation\<close> with the wrapped
  handler, the object's descriptor and the operation, then \<^verbatim>\<open>schedule_io\<close>.
\<close>

definition schedule_io :: "'k kernel \<Rightarrow> 'k world \<Rightarrow> nat \<Rightarrow> completion \<Rightarrow> io_op \<Rightarrow> 'k world run" where
  "schedule_io K w ob f op = run_bind (object_fd w ob) (\<lambda>fd. start_io K w f fd op)"

text \<open>
  A constructor that throws: the exception exists already, then the base is destroyed.
\<close>

definition leave_constructor :: "'k kernel \<Rightarrow> 'k world \<Rightarrow> nat \<Rightarrow> exn \<Rightarrow> ((exn + 'a) \<times> 'k world) run" where
  "leave_constructor K w ob e = run_bind (IoObject_destroy K w ob) (\<lambda>w. Ok (Inl e, w))"

text \<open>The constructors that open a descriptor and throw when that failed.\<close>

definition open_object :: "'k kernel \<Rightarrow> 'k world \<Rightarrow> nat \<Rightarrow> syscall \<Rightarrow> 'k may_throw" where
  "open_object K w ob call =
     (let (r, k) = K (kern w) call; w = IoObject_construct (w\<lparr>kern := k\<rparr>) ob (sr_ret r)
      in if sr_ret r < 0 then leave_constructor K w ob (SystemError (sr_errno r))
         else Ok (Inr (), w))"

lemmas object_defs = object_fd_def IoObject_construct_def IoObject_destroy_def FileDescriptor_move_def
  leave_constructor_def

text \<open>A context without any operation, and a kernel whose calls all return 8, for examples.\<close>

definition idle_world :: "'k \<Rightarrow> (nat \<rightharpoonup> fd) \<Rightarrow> 'k world" where
  "idle_world k fds =
     \<lparr>links = \<lparr>item_prev = [1 \<mapsto> 1, 2 \<mapsto> 2], item_next = [1 \<mapsto> 1, 2 \<mapsto> 2]\<rparr>, objs = Map.empty, next_addr = 3,
      kern = k, epoll_fd = 0, wake_fd = 1, begin_cancelled = 1, poll_queue_length = 0,
      remaining_count = 0, threads_waiting = 0, io_fds = fds\<rparr>"

definition calm_kernel :: "unit kernel" where
  "calm_kernel k c = (\<lparr>sr_ret = 8, sr_errno = 0, sr_out = OutNothing\<rparr>, k)"

lemma idle_world_simps [simp]:
  "io_fds (idle_world k fds) = fds" "kern (idle_world k fds) = k" "calls_made (idle_world kl fds) = snd kl"
  by (simp_all add: idle_world_def calls_made_def)

section \<open>Properties\<close>

lemma descriptor_closed_once:
  "\<exists>this' other' kl'. FileDescriptor_assign (logged K) kl this other = (this', other', kl')
    \<and> this' = other \<and> other' = kInvalidDescriptor
    \<and> snd (FileDescriptor_destroy (logged K) (FileDescriptor_destroy (logged K) kl' this') other')
      = snd kl @ map Sys_close (filter (\<lambda>fd. 0 \<le> fd) [this, other])"
  by (simp add: kInvalidDescriptor_def)

lemma close_closes_twice:
  assumes "io_fds w ob = Some fd" and "0 \<le> fd"
  shows "\<exists>w'. IoObject_close (logged K) w ob = Ok w'
    \<and> calls_made w' = calls_made w @ [Sys_close fd, Sys_close fd] \<and> io_fds w' ob = Some kInvalidDescriptor"
  using assms
  by (auto simp: IoObject_close_def object_defs calls_made_def Let_def split: prod.split
      dest: logged_calls)

text \<open>
  Claim C32. Descriptors are owned by one \<^verbatim>\<open>FileDescriptor\<close> at a time. After a move assignment
  the target owns the source's descriptor and the source nothing, and the target's old
  descriptor has been closed; when both owners are destroyed as well, each of the two
  descriptors has been closed exactly once, in this order, and no invalid number is closed.
  \<^verbatim>\<open>IoObject::close\<close> breaks this: it closes an open descriptor twice, once itself and once
  through the assignment that replaces the owner; between the two calls the number may have been
  given to another file of the process.
\<close>

theorem descriptor_closes:
  "(\<exists>this' other' kl'. FileDescriptor_assign (logged K) kl this other = (this', other', kl')
    \<and> this' = other \<and> other' = kInvalidDescriptor
    \<and> snd (FileDescriptor_destroy (logged K) (FileDescriptor_destroy (logged K) kl' this') other')
      = snd kl @ map Sys_close (filter (\<lambda>fd. 0 \<le> fd) [this, other]))
   \<and> (io_fds w ob = Some fd \<and> 0 \<le> fd \<longrightarrow> (\<exists>w'. IoObject_close (logged K) w ob = Ok w'
    \<and> calls_made w' = calls_made w @ [Sys_close fd, Sys_close fd] \<and> io_fds w' ob = Some kInvalidDescriptor))"
  using descriptor_closed_once close_closes_twice by blast

theorem descriptor_closes_witness:
  "\<exists>w'. IoObject_close (logged calm_kernel) (idle_world ((), []) [0 \<mapsto> 5]) 0 = Ok w'
     \<and> calls_made w' = [Sys_close 5, Sys_close 5]"
proof -
  let ?w = "idle_world ((), []) [0 \<mapsto> 5]"
  have "io_fds ?w 0 = Some 5 \<and> 0 \<le> (5 :: int)" by simp
  with descriptor_closes [of calm_kernel "((), [])" 5 6 ?w 0 5] show ?thesis by auto
qed

fun is_close :: "syscall \<Rightarrow> bool" where
  "is_close (Sys_close _) = True"
| "is_close _ = False"

abbreviation closes_made :: "('k \<times> syscall list) world \<Rightarrow> syscall list" where
  "closes_made w \<equiv> filter is_close (calls_made w)"

lemma release_work_closes:
  "release_work alive (logged K) w = Ok w' \<Longrightarrow> closes_made w' = closes_made w"
  by (auto simp: release_work_def wake_def PollWakeEvent_trigger_def exios_expect_def calls_made_def Let_def
      split: prod.splits if_splits dest!: logged_calls)

lemma destroy_closure_closes:
  "destroy_closure alive (logged K) f w = Ok w' \<Longrightarrow>
   closes_made w' = closes_made w @ map Sys_close (filter (\<lambda>fd. 0 \<le> fd) (owned_fds f))"
proof (induction f arbitrary: w w')
  case (WrapWork b f)
  then show ?case by (auto simp: run_bind_eq_Ok split: if_splits dest!: release_work_closes)
next
  case (OwnFd fd f)
  then show ?case by (auto simp: run_bind_eq_Ok calls_made_def)
qed (simp_all add: calls_made_def)

lemma discard_closes:
  assumes "objs w a = Some x" and "discard alive (logged K) a w = Ok w'"
  shows "closes_made w' = closes_made w @ map Sys_close (filter (\<lambda>fd. 0 \<le> fd) (owned_fds (op_completion x)))"
    and "objs w' a = None"
  using assms destroy_closure_closes [of alive K "op_completion x" w]
  by (auto simp: discard_def run_bind_eq_Ok deallocate_def calls_made_def)

text \<open>
  Claim C33. Destroying a closure of the library, after its handler has run or when its
  operation is discarded, closes every valid descriptor the closure owns exactly once and no
  other descriptor. Discarding an operation therefore closes what its closure owns and nothing
  else: the connection of an accept that has succeeded, but whose handler has not been called
  yet, is held by no closure, and is never closed.
\<close>

theorem closure_releases_descriptors:
  assumes "objs w a = Some x"
  shows "(\<forall>f w'. destroy_closure alive (logged K) f w = Ok w' \<longrightarrow>
      closes_made w' = closes_made w @ map Sys_close (filter (\<lambda>fd. 0 \<le> fd) (owned_fds f)))
    \<and> (\<forall>w'. discard alive (logged K) a w = Ok w' \<longrightarrow> objs w' a = None
      \<and> closes_made w' = closes_made w @ map Sys_close (filter (\<lambda>fd. 0 \<le> fd) (owned_fds (op_completion x))))
    \<and> (\<forall>op fd b target n w'. x = IoOp op \<and> aio_f op = WrapWork b (AcceptInto target (Fn n))
          \<and> op_result (aio_operation op) = Some (ArgAccept (ResultValue fd))
          \<and> discard alive (logged K) a w = Ok w' \<longrightarrow> closes_made w' = closes_made w)"
  using destroy_closure_closes discard_closes [OF assms] by fastforce

text \<open>A context whose only operation is a successful accept of descriptor 9.\<close>

definition accepted_world :: "(unit \<times> syscall list) world" where
  "accepted_world = (idle_world ((), []) Map.empty)\<lparr>objs := [3 \<mapsto>
     IoOp ((AsyncIoOperation_construct (WrapWork True (AcceptInto 0 (Fn 0))) 5 (OpUnixAccept UnixAccept_construct))
       \<lparr>aio_operation := OpUnixAccept \<lparr>ua_result = Some (ResultValue 9)\<rparr>\<rparr>)], remaining_count := 1\<rparr>"

theorem closure_releases_descriptors_witness:
  "\<exists>w'. discard True (logged calm_kernel) 3 accepted_world = Ok w' \<and> closes_made w' = []"
proof -
  obtain op where o: "objs accepted_world 3 = Some (IoOp op)" "aio_f op = WrapWork True (AcceptInto 0 (Fn 0))"
    "op_result (aio_operation op) = Some (ArgAccept (ResultValue 9))"
    by (simp add: accepted_world_def AsyncIoOperation_construct_def)
  obtain w' where r: "discard True (logged calm_kernel) 3 accepted_world = Ok w'"
    by (simp add: accepted_world_def AsyncIoOperation_construct_def discard_def release_work_def wake_def
        PollWakeEvent_trigger_def logged_def calm_kernel_def idle_world_def)
  have "closes_made w' = closes_made accepted_world"
    using closure_releases_descriptors [OF o(1), of True calm_kernel] o(2,3) r by blast
  then show ?thesis using r by (simp add: accepted_world_def calls_made_def idle_world_def)
qed

text \<open>
  An accepted connection. When accepting failed, the handler gets the error and
  the target socket keeps its descriptor; nothing is called. When it succeeded, the target owns
  exactly the accepted descriptor, its previous descriptor, if it had one, has been closed once,
  and the handler gets a success; no other object changes. A target that no longer exists is
  undefined behaviour, but only when accepting succeeded.
\<close>

lemma accept_moves_socket:
  "enter_closure (logged K) (WrapWork b (AcceptInto target (Fn n))) (Some (ArgAccept (ErrorValue e))) w
      = Ok (Some (ArgConnect (ErrorValue e)), w)
   \<and> (case io_fds w target of
        None \<Rightarrow> enter_closure (logged K) (WrapWork b (AcceptInto target (Fn n)))
                 (Some (ArgAccept (ResultValue fd))) w = Fault BadAccess
      | Some old \<Rightarrow> \<exists>w'. enter_closure (logged K) (WrapWork b (AcceptInto target (Fn n)))
                 (Some (ArgAccept (ResultValue fd))) w = Ok (Some (ArgConnect (ResultValue ())), w')
          \<and> io_fds w' = (io_fds w)(target \<mapsto> fd)
          \<and> calls_made w' = calls_made w @ map Sys_close (filter (\<lambda>fd. 0 \<le> fd) [old]))"
  by (auto simp: IoObject_assign_def calls_made_def split: option.split)

end
