(* ===== verification/Owned_Lists.thy ===== *)
theory Owned_Lists
  imports Iterators
begin

text \<open>
  Several intrusive lists side by side. A context keeps three of them in one heap: the
  scheduler's operations, the completion queue, and the temporary list of a running
  \<^verbatim>\<open>run_once\<close>. \<open>lists h ((s, xs) # L)\<close> says that every pair of a sentinel and its items
  is a represented list of the heap and that no item is in two of them. Each operation of the
  list is given here as a step from one such family to another; the lists it does not work on
  are in the rest \<open>L\<close> and stay as they are.
\<close>

type_synonym owned = "(addr \<times> addr list) list"

definition owned_items :: "owned \<Rightarrow> addr list" where
  "owned_items L = concat (map (\<lambda>(s, xs). s # xs) L)"

definition lists :: "list_items \<Rightarrow> owned \<Rightarrow> bool" where
  "lists h L \<longleftrightarrow> distinct (owned_items L) \<and> (\<forall>(s, xs) \<in> set L. il h s xs)"

lemma owned_items_simps [simp]:
  "owned_items [] = []"
  "owned_items ((s, xs) # L) = s # xs @ owned_items L"
  by (simp_all add: owned_items_def)

lemma lists_Nil [simp]: "lists h []"
  by (simp add: lists_def)

lemma lists_Cons:
  "lists h ((s, xs) # L) \<longleftrightarrow>
     il h s xs \<and> set (s # xs) \<inter> set (owned_items L) = {} \<and> lists h L"
  by (auto simp: lists_def il_def)

lemma lists_head: "lists h ((s, xs) # L) \<Longrightarrow> il h s xs"
  by (simp add: lists_Cons)

lemma lists_swap: "lists h (x # y # L) \<longleftrightarrow> lists h (y # x # L)"
  by (cases x; cases y) (auto simp: lists_Cons)

lemma lists_untouched:
  "touches A h h' \<Longrightarrow> set (owned_items L) \<inter> A = {} \<Longrightarrow> lists h L \<Longrightarrow> lists h' L"
proof (induction L)
  case (Cons x L)
  obtain s xs where x: "x = (s, xs)" by (cases x)
  have "set (s # xs) \<inter> A = {}" and "set (owned_items L) \<inter> A = {}"
    using Cons.prems(2) x by auto
  then show ?case
    using Cons.IH Cons.prems x il_untouched [OF Cons.prems(1), of s xs] by (simp add: lists_Cons)
qed simp

lemma lists_agree: "agree (set (owned_items L)) h h' \<Longrightarrow> lists h L \<Longrightarrow> lists h' L"
proof (induction L)
  case (Cons x L)
  obtain s xs where x: "x = (s, xs)" by (cases x)
  have "agree (set (s # xs)) h h'" and "agree (set (owned_items L)) h h'"
    using Cons.prems(1) x by (auto intro: agree_subset)
  then show ?case
    using Cons.IH Cons.prems(2) x il_agree [of s xs h h'] by (simp add: lists_Cons)
qed simp

text \<open>Allocating and releasing the storage of items that are in no list.\<close>

lemma lists_new_item: "a \<notin> set (owned_items L) \<Longrightarrow> lists h L \<Longrightarrow> lists (new_item h a) L"
  by (erule lists_agree [rotated]) (auto simp: agree_def new_item_def)

lemma lists_free_item: "a \<notin> set (owned_items L) \<Longrightarrow> lists h L \<Longrightarrow> lists (free_item h a) L"
  by (erule lists_agree [rotated]) (auto simp: agree_def free_item_def)

lemma allocated_new_item: "a \<noteq> nullptr \<Longrightarrow> allocated (new_item h a) a"
  by (simp add: allocated_def new_item_def)

text \<open>The general step: one list changes, by touching only its own items and new ones.\<close>

lemma lists_update:
  assumes "lists h ((s, xs) # L)" and "touches A h h'" and "il h' s ys"
    and "A \<inter> set (owned_items L) = {}" and "set ys \<inter> set (owned_items L) = {}"
  shows "lists h' ((s, ys) # L)"
  using assms lists_untouched [of A h h' L] by (auto simp: lists_Cons)

lemma owned_erase:
  assumes "lists h ((s, xs @ a # ys) # L)"
  shows "\<exists>h'. erase h s a = Ok (hd (ys @ [s]), h') \<and> lists h' ((s, xs @ ys) # L)
    \<and> touches UNIV h h'"
proof (intro exI conjI)
  let ?h = "relink h (last (s # xs)) (hd (ys @ [s]))"
  note l = lists_head [OF assms]
  show "erase h s a = Ok (hd (ys @ [s]), ?h)" by (rule erase_il [OF l])
  show "touches UNIV h ?h" by (rule touches_relink) auto
  have "touches (set (s # xs @ ys)) h ?h"
    using last_in [of s xs] hd_in [of ys s] by (intro touches_relink) auto
  then show "lists ?h ((s, xs @ ys) # L)"
    by (rule lists_update [OF assms]) (use assms il_remove [OF l] in \<open>auto simp: lists_Cons\<close>)
qed

lemma owned_insert:
  assumes "lists h ((s, xs @ ys) # L)" and "a \<notin> set (owned_items ((s, xs @ ys) # L))"
    and "allocated h a"
  shows "\<exists>h'. il_insert h a (hd (ys @ [s])) = Ok (hd (ys @ [s]), h')
    \<and> lists h' ((s, xs @ a # ys) # L) \<and> touches UNIV h h'"
proof (intro exI conjI)
  let ?h = "relink (relink h (last (s # xs)) a) a (hd (ys @ [s]))"
  note l = lists_head [OF assms(1)]
  show "il_insert h a (hd (ys @ [s])) = Ok (hd (ys @ [s]), ?h)"
    using assms by (intro il_insert_il [OF l]) auto
  show "touches UNIV h ?h"
    by (rule touches_trans [of _ h "relink h (last (s # xs)) a"]) (rule touches_relink; simp)+
  have "touches (set (s # a # xs @ ys)) h ?h"
    by (rule touches_trans [of _ h "relink h (last (s # xs)) a"])
      (rule touches_relink; use last_in [of s xs] hd_in [of ys s] in auto)+
  then show "lists ?h ((s, xs @ a # ys) # L)"
    by (rule lists_update [OF assms(1)])
      (use assms il_add [OF l, of a] in \<open>auto simp: lists_Cons allocated_def\<close>)
qed

lemma owned_push_back:
  assumes "lists h ((s, xs) # L)" and "a \<notin> set (owned_items ((s, xs) # L))" and "allocated h a"
  shows "\<exists>h'. push_back h s a = Ok h' \<and> lists h' ((s, xs @ [a]) # L) \<and> touches UNIV h h'"
proof -
  have "push_back h s a = Ok (relink (relink h (last (s # xs)) a) a s)"
    using assms by (intro push_back_il lists_head) auto
  moreover have "il_insert h a s = Ok (s, relink (relink h (last (s # xs)) a) a s)"
    using il_insert_il [of h s xs "[]" a] assms lists_head by auto
  ultimately show ?thesis using owned_insert [of h s xs "[]" L a] assms by auto
qed

lemma owned_pop_front:
  assumes "lists h ((s, a # xs) # L)"
  shows "\<exists>h'. pop_front h s = Ok h' \<and> lists h' ((s, xs) # L) \<and> touches UNIV h h'"
proof -
  have "pop_front h s = Ok (relink h s (hd (xs @ [s])))"
    using assms by (intro pop_front_il lists_head)
  moreover have "erase h s a = Ok (hd (xs @ [s]), relink h s (hd (xs @ [s])))"
    using erase_il [of h s "[]" a xs] lists_head [OF assms] by simp
  ultimately show ?thesis using owned_erase [of h s "[]" a xs L] assms by auto
qed

lemma owned_construct:
  assumes "lists h L" and "s \<notin> set (owned_items L)" and "s \<noteq> nullptr"
  shows "\<exists>h'. il_construct h s = Ok h' \<and> lists h' ((s, []) # L) \<and> touches UNIV h h'"
proof -
  obtain h' where h': "il_construct h s = Ok h'" "il h' s []" "agree (- {s}) h h'"
    using il_construct_il [OF assms(3)] by blast
  have "allocated h' x" if "allocated h x" for x
    using that h'(3) il_allocated [OF h'(2), of s]
    by (cases "x = s") (auto simp: agree_def allocated_def)
  then have t: "touches {s} h h'" using h'(3) by (simp add: touches_def)
  then have "lists h' L" using assms(1,2) by (intro lists_untouched [OF t]) auto
  then show ?thesis
    using h' assms(2) touches_mono [OF t, of UNIV] by (auto simp: lists_Cons)
qed

lemma owned_splice_all:
  assumes "lists h ((s, xs @ ys) # (t, as) # L)"
  shows "\<exists>r h'. splice_all h s (hd (ys @ [s])) t = Ok (r, h')
    \<and> lists h' ((s, xs @ as @ ys) # (t, []) # L) \<and> touches UNIV h h'"
proof -
  have ne: "t \<noteq> s" and l: "il h s (xs @ ys)" "il h t ([] @ as @ [])"
    and dj: "set (s # xs @ ys) \<inter> set (t # [] @ as @ []) = {}"
    using assms by (auto simp: lists_Cons)
  obtain h' where h': "splice_loop h (hd (ys @ [s])) t (hd (as @ [t])) t = Ok h'"
    "il h' s (xs @ as @ ys)" "il h' t []"
    and t: "touches (set (s # t # xs @ ys @ as)) h h'"
    using splice_loop_other [OF l dj] by auto
  have "lists h' L" using assms by (intro lists_untouched [OF t]) (auto simp: lists_Cons)
  then have "lists h' ((s, xs @ as @ ys) # (t, []) # L)"
    using assms h' by (auto simp: lists_Cons)
  moreover have "il_begin h t = Ok (hd (as @ [t]))" using l by (simp add: il_begin_il)
  moreover have "touches UNIV h h'" using touches_mono [OF t] by simp
  ultimately show ?thesis
    using h'(1) ne by (auto simp: splice_all_def splice_def il_end_def)
qed

text \<open>The neighbours of a position, as the iterators read them.\<close>

lemma iter_inc_il:
  assumes "il h s (xs @ a # ys)"
  shows "iter_inc h a = Ok (hd (ys @ [s]))"
  using il_links [of h s "xs @ [a]" ys] assms by (auto simp: iter_inc_def il_def)

lemma iter_dec_il:
  assumes "il h s (xs @ a # ys)"
  shows "iter_dec h (hd (ys @ [s])) = Ok a"
  using il_links [of h s "xs @ [a]" ys] assms by (auto simp: iter_dec_def allocated_def)

lemma hd_sentinel_eq:
  "il h s (xs @ ys @ zs) \<Longrightarrow> hd (ys @ zs @ [s]) = hd (zs @ [s]) \<longleftrightarrow> ys = []"
  by (cases ys) (auto simp: il_def hd_append split: if_splits)

end
