(* ===== verification/Kernel_Contract.thy ===== *)
theory Kernel_Contract
  imports Posix
begin

text \<open>
  What exios relies on of the operating system, as documented in the manual pages of
  \<^verbatim>\<open>eventfd(2)\<close>, \<^verbatim>\<open>epoll_ctl(2)\<close>, \<^verbatim>\<open>epoll_wait(2)\<close>, \<^verbatim>\<open>close(2)\<close> and \<^verbatim>\<open>epoll(7)\<close>, for a kernel
  given as a parameter. The contract names two projections of the kernel's state: the interest
  list \<open>reg\<close> of the epoll instance, and the set \<open>F\<close> of the open descriptors, the kinds that epoll can
  poll. It says nothing about what reads and writes return or which events are reported when.
  The end of the theory gives one executable kernel that satisfies it.
\<close>

text \<open>An open eventfd answers, or would block.\<close>

definition eventfd_answers :: "'k kernel \<Rightarrow> fd \<Rightarrow> ('k \<Rightarrow> fd set) \<Rightarrow> bool" where
  "eventfd_answers K wfd F \<longleftrightarrow>
     (\<forall>k (n :: u32). wfd \<in> F k \<longrightarrow> (let r = fst (K k (Sys_write wfd (LocalU64 (ucast n)) 8))
                                  in 0 \<le> sr_ret r \<or> sr_errno r = EAGAIN))
     \<and> (\<forall>k. wfd \<in> F k \<longrightarrow> (let r = fst (K k (Sys_read wfd (LocalU64 0) 8))
                          in 0 \<le> sr_ret r \<or> sr_errno r = EAGAIN))"

text \<open>\<^verbatim>\<open>epoll_ctl(2)\<close>: the answer and the new interest list, by whether the descriptor is registered.\<close>

definition ctl_answer ::
  "epoll_op \<Rightarrow> fd \<Rightarrow> u32 \<Rightarrow> (fd \<rightharpoonup> u32) \<Rightarrow> int \<times> int \<times> (fd \<rightharpoonup> u32)" where
  "ctl_answer op fd ev m =
     (case (op, m fd) of
        (EPOLL_CTL_ADD, None) \<Rightarrow> (0, 0, m(fd \<mapsto> ev))
      | (EPOLL_CTL_ADD, Some _) \<Rightarrow> (-1, EEXIST, m)
      | (EPOLL_CTL_MOD, None) \<Rightarrow> (-1, ENOENT, m)
      | (EPOLL_CTL_MOD, Some _) \<Rightarrow> (0, 0, m(fd \<mapsto> ev))
      | (EPOLL_CTL_DEL, None) \<Rightarrow> (-1, ENOENT, m)
      | (EPOLL_CTL_DEL, Some _) \<Rightarrow> (0, 0, m(fd := None)))"

definition epoll_ctl_answers ::
  "'k kernel \<Rightarrow> fd \<Rightarrow> ('k \<Rightarrow> fd \<rightharpoonup> u32) \<Rightarrow> ('k \<Rightarrow> fd set) \<Rightarrow> bool" where
  "epoll_ctl_answers K efd reg F \<longleftrightarrow>
     (\<forall>k op fd ev. efd \<in> F k \<and> fd \<in> F k \<and> fd \<noteq> efd \<longrightarrow>
        (let (r, k') = K k (Sys_epoll_ctl efd op fd ev); (ret, err, m) = ctl_answer op fd ev (reg k)
         in sr_ret r = ret \<and> (ret < 0 \<longrightarrow> sr_errno r = err) \<and> reg k' = m \<and> F k \<subseteq> F k'))"

text \<open>
  Only \<^verbatim>\<open>epoll_ctl\<close> and \<^verbatim>\<open>close\<close> change the interest list, and only \<^verbatim>\<open>close\<close> closes a
  descriptor, which takes it off the list.
\<close>

fun changes_registration :: "syscall \<Rightarrow> bool" where
  "changes_registration (Sys_epoll_ctl _ _ _ _) = True"
| "changes_registration (Sys_close _) = True"
| "changes_registration _ = False"

definition registration_kept :: "'k kernel \<Rightarrow> ('k \<Rightarrow> fd \<rightharpoonup> u32) \<Rightarrow> ('k \<Rightarrow> fd set) \<Rightarrow> bool" where
  "registration_kept K reg F \<longleftrightarrow>
     (\<forall>k c. \<not> changes_registration c \<longrightarrow> reg (snd (K k c)) = reg k \<and> F k \<subseteq> F (snd (K k c)))"

definition close_removes ::
  "'k kernel \<Rightarrow> fd \<Rightarrow> ('k \<Rightarrow> fd \<rightharpoonup> u32) \<Rightarrow> ('k \<Rightarrow> fd set) \<Rightarrow> bool" where
  "close_removes K efd reg F \<longleftrightarrow>
     (\<forall>k fd. F k - {fd} \<subseteq> F (snd (K k (Sys_close fd)))
        \<and> (fd \<noteq> efd \<longrightarrow> reg (snd (K k (Sys_close fd))) = (reg k)(fd := None)))"

text \<open>The calls that open a descriptor: an error, or a number that was not open.\<close>

fun opens_descriptor :: "syscall \<Rightarrow> bool" where
  "opens_descriptor (Sys_accept _) = True"
| "opens_descriptor Sys_epoll_create = True"
| "opens_descriptor (Sys_eventfd _) = True"
| "opens_descriptor Sys_timerfd_create = True"
| "opens_descriptor (Sys_signalfd _) = True"
| "opens_descriptor (Sys_socket _ _) = True"
| "opens_descriptor _ = False"

definition open_answers :: "'k kernel \<Rightarrow> ('k \<Rightarrow> fd set) \<Rightarrow> bool" where
  "open_answers K F \<longleftrightarrow>
     (\<forall>k c. opens_descriptor c \<longrightarrow> (let (r, k') = K k c
        in 0 \<le> sr_ret r \<longrightarrow> sr_ret r \<notin> F k \<and> sr_ret r \<in> F k'))"

text \<open>\<^verbatim>\<open>epoll_wait(2)\<close>: an error, or as many events as it says, of descriptors it watches.\<close>

definition epoll_wait_answers :: "'k kernel \<Rightarrow> fd \<Rightarrow> ('k \<Rightarrow> fd set) \<Rightarrow> bool" where
  "epoll_wait_answers K efd F \<longleftrightarrow>
     (\<forall>k n t. let r = fst (K k (Sys_epoll_wait efd n t))
              in efd \<in> F k \<longrightarrow> 0 \<le> sr_ret r \<longrightarrow>
                (\<exists>evs. sr_out r = OutEvents evs \<and> int (length evs) = sr_ret r \<and> length evs \<le> n
                       \<and> ev_fd ` set evs \<subseteq> F k - {efd}))"

text \<open>The interface: the epoll instance \<open>efd\<close>, the wake event \<open>wfd\<close>, and what the kernel promises.\<close>

locale os_contract =
  fixes K :: "'k kernel" and efd wfd :: fd and reg :: "'k \<Rightarrow> fd \<rightharpoonup> u32" and F :: "'k \<Rightarrow> fd set"
  assumes eventfd: "eventfd_answers K wfd F"
    and epoll_ctl: "epoll_ctl_answers K efd reg F"
    and kept: "registration_kept K reg F"
    and closes: "close_removes K efd reg F"
    and opens: "open_answers K F"
    and epoll_wait: "epoll_wait_answers K efd F"
begin

lemma other_call: "\<not> changes_registration c \<Longrightarrow> K k c = (r, k') \<Longrightarrow> reg k' = reg k \<and> F k \<subseteq> F k'"
  using kept unfolding registration_kept_def by (metis snd_conv)

lemma close_call:
  "K k (Sys_close fd) = (r, k') \<Longrightarrow> F k - {fd} \<subseteq> F k' \<and> (fd \<noteq> efd \<longrightarrow> reg k' = (reg k)(fd := None))"
  using closes unfolding close_removes_def by (metis snd_conv)

lemma open_call:
  "opens_descriptor c \<Longrightarrow> K k c = (r, k') \<Longrightarrow> 0 \<le> sr_ret r \<Longrightarrow> sr_ret r \<notin> F k \<and> sr_ret r \<in> F k'"
  using opens unfolding open_answers_def Let_def by (metis (no_types, lifting) case_prod_conv)

lemma wake_write:
  assumes "wfd \<in> F k"
  shows "\<exists>r k'. K k (Sys_write wfd (LocalU64 (ucast (n :: u32))) 8) = (r, k')
    \<and> (0 \<le> sr_ret r \<or> sr_errno r = EAGAIN) \<and> reg k' = reg k \<and> F k \<subseteq> F k'"
proof -
  obtain r k' where e: "K k (Sys_write wfd (LocalU64 (ucast n)) 8) = (r, k')" by fastforce
  have "0 \<le> sr_ret r \<or> sr_errno r = EAGAIN"
    using eventfd assms e unfolding eventfd_answers_def Let_def by (metis fst_conv)
  then show ?thesis using e other_call [OF _ e] by simp
qed

lemma wake_read:
  assumes "wfd \<in> F k"
  shows "\<exists>r k'. K k (Sys_read wfd (LocalU64 0) 8) = (r, k')
    \<and> (0 \<le> sr_ret r \<or> sr_errno r = EAGAIN) \<and> reg k' = reg k \<and> F k \<subseteq> F k'"
proof -
  obtain r k' where e: "K k (Sys_read wfd (LocalU64 0) 8) = (r, k')" by fastforce
  have "0 \<le> sr_ret r \<or> sr_errno r = EAGAIN"
    using eventfd assms e unfolding eventfd_answers_def Let_def by (metis fst_conv)
  then show ?thesis using e other_call [OF _ e] by simp
qed

lemma ctl_call:
  assumes "efd \<in> F k" and "fd \<in> F k" and "fd \<noteq> efd"
  shows "\<exists>r k'. K k (Sys_epoll_ctl efd op fd ev) = (r, k')
    \<and> sr_ret r = fst (ctl_answer op fd ev (reg k))
    \<and> (sr_ret r < 0 \<longrightarrow> sr_errno r = fst (snd (ctl_answer op fd ev (reg k))))
    \<and> reg k' = snd (snd (ctl_answer op fd ev (reg k))) \<and> F k \<subseteq> F k'"
proof -
  obtain r k' where e: "K k (Sys_epoll_ctl efd op fd ev) = (r, k')" by fastforce
  obtain x y m where a: "ctl_answer op fd ev (reg k) = (x, y, m)" by (metis prod_cases3)
  show ?thesis using epoll_ctl assms e a unfolding epoll_ctl_answers_def Let_def by fastforce
qed

lemma wait_call:
  assumes "K k (Sys_epoll_wait efd n t) = (r, k')" and "0 \<le> sr_ret r" and "efd \<in> F k"
  shows "\<exists>evs. sr_out r = OutEvents evs \<and> int (length evs) = sr_ret r \<and> length evs \<le> n
    \<and> ev_fd ` set evs \<subseteq> F k - {efd}"
  using assms epoll_wait unfolding epoll_wait_answers_def Let_def by (metis fst_conv)

end

lemmas os_contract_write = os_contract.wake_write
lemmas os_contract_read = os_contract.wake_read
lemmas os_contract_ctl = os_contract.ctl_call
lemmas os_contract_other = os_contract.other_call
lemmas os_contract_open = os_contract.open_call
lemmas os_contract_close = os_contract.close_call
lemmas os_contract_wait = os_contract.wait_call

section \<open>A kernel that satisfies the contract\<close>

text \<open>
  A kernel with a list of open descriptors, an interest list and a script of events that
  \<^verbatim>\<open>epoll_wait\<close> reports once, of the descriptors that are open. A new descriptor is greater than
  the open ones; reads and writes return eight bytes.
\<close>

record sim =
  sim_open :: "fd list"
  sim_reg :: "fd \<rightharpoonup> u32"
  sim_events :: "epoll_event list"

definition sim_fresh :: "sim \<Rightarrow> fd" where
  "sim_fresh k = foldr max (sim_open k) 0 + 1"

definition sim_ready :: "sim \<Rightarrow> fd \<Rightarrow> nat \<Rightarrow> epoll_event list" where
  "sim_ready k epfd n = filter (\<lambda>e. ev_fd e \<in> set (sim_open k) - {epfd}) (take n (sim_events k))"

definition sim_result :: "int \<Rightarrow> int \<Rightarrow> sys_out \<Rightarrow> sys_result" where
  "sim_result ret err out = \<lparr>sr_ret = ret, sr_errno = err, sr_out = out\<rparr>"

definition sim_kernel :: "sim kernel" where
  "sim_kernel k c =
     (case c of
        Sys_epoll_ctl epfd op fd ev \<Rightarrow>
          if {epfd, fd} \<subseteq> set (sim_open k) \<and> fd \<noteq> epfd
          then (case ctl_answer op fd ev (sim_reg k) of
                  (ret, err, m) \<Rightarrow> (sim_result ret err OutNothing, k\<lparr>sim_reg := m\<rparr>))
          else (sim_result (-1) EBADF OutNothing, k)
      | Sys_epoll_wait epfd n _ \<Rightarrow>
          (sim_result (int (length (sim_ready k epfd n))) 0 (OutEvents (sim_ready k epfd n)),
           k\<lparr>sim_events := drop n (sim_events k)\<rparr>)
      | Sys_close fd \<Rightarrow>
          (sim_result (if fd \<in> set (sim_open k) then 0 else -1) EBADF OutNothing,
           k\<lparr>sim_open := removeAll fd (sim_open k), sim_reg := (sim_reg k)(fd := None)\<rparr>)
      | _ \<Rightarrow> if opens_descriptor c
            then (sim_result (sim_fresh k) 0 OutNothing, k\<lparr>sim_open := sim_fresh k # sim_open k\<rparr>)
            else (sim_result 8 0 (OutU64 1), k))"

abbreviation sim_fds :: "sim \<Rightarrow> fd set" where
  "sim_fds k \<equiv> set (sim_open k)"

lemma sim_fresh_not_open: "sim_fresh k \<notin> sim_fds k"
proof -
  have "fd \<le> foldr max fds 0" if "fd \<in> set fds" for fd :: int and fds
    using that by (induction fds) auto
  then show ?thesis by (fastforce simp: sim_fresh_def)
qed

lemma sim_result_simps [simp]:
  "sr_ret (sim_result r e x) = r" "sr_errno (sim_result r e x) = e" "sr_out (sim_result r e x) = x"
  by (simp_all add: sim_result_def)

interpretation sim: os_contract sim_kernel efd wfd sim_reg sim_fds for efd wfd
proof
  have "sim_reg (snd (sim_kernel k c)) = sim_reg k \<and> sim_fds k \<subseteq> sim_fds (snd (sim_kernel k c))"
    if "\<not> changes_registration c" for k c
    using that by (cases c) (auto simp: sim_kernel_def)
  then show "registration_kept sim_kernel sim_reg sim_fds" by (simp add: registration_kept_def)
  show "epoll_ctl_answers sim_kernel efd sim_reg sim_fds"
    by (auto simp: epoll_ctl_answers_def sim_kernel_def split: prod.split)
  show "epoll_wait_answers sim_kernel efd sim_fds"
    by (auto simp: epoll_wait_answers_def sim_kernel_def sim_ready_def
        intro: le_trans [OF length_filter_le])
  show "open_answers sim_kernel sim_fds"
    unfolding open_answers_def
  proof (intro allI impI)
    fix k c assume "opens_descriptor c"
    then show "let (r, k') = sim_kernel k c
        in 0 \<le> sr_ret r \<longrightarrow> sr_ret r \<notin> sim_fds k \<and> sr_ret r \<in> sim_fds k'"
      using sim_fresh_not_open [of k] by (cases c) (auto simp: sim_kernel_def)
  qed
qed (auto simp: eventfd_answers_def close_removes_def sim_kernel_def)

lemmas sim_kernel_contract = sim.os_contract_axioms

end
