(* ===== verification/Scheduler_Lists.thy ===== *)
theory Scheduler_Lists
  imports Io_Scheduler Owned_Lists Kernel_Contract
begin

text \<open>
  The invariant of the scheduler's state and the lemmas on its building blocks: waking, posting
  a finished operation, finding the place of a descriptor, registering it with epoll, moving
  the operations of a descriptor.

  The operations list is \<open>act @ can\<close>: the active operations, sorted by descriptor and without
  a result, then the cancelled ones, each with its result. \<open>begin_cancelled\<close> is the position
  between the two, and the queue length counts both. Everything in the completion queue \<open>cq\<close>
  has a result to dispatch. \<open>L\<close> are the other lists of the heap.
\<close>

section \<open>Invariant\<close>

fun the_aio :: "async_op option \<Rightarrow> async_io_operation" where
  "the_aio (Some (IoOp op)) = op"

fun is_aio :: "async_op option \<Rightarrow> bool" where
  "is_aio (Some (IoOp op)) = True"
| "is_aio _ = False"

abbreviation aio_at :: "'k world \<Rightarrow> addr \<Rightarrow> async_io_operation" where
  "aio_at w a \<equiv> the_aio (objs w a)"

abbreviation fd_at :: "'k world \<Rightarrow> addr \<Rightarrow> fd" where
  "fd_at w a \<equiv> aio_fd (aio_at w a)"

definition pending :: "async_op option \<Rightarrow> bool" where
  "pending x \<longleftrightarrow> is_aio x \<and> \<not> aio_is_cancelled (the_aio x)
     \<and> op_result (aio_operation (the_aio x)) = None"

definition cancelled_op :: "async_op option \<Rightarrow> bool" where
  "cancelled_op x \<longleftrightarrow> is_aio x \<and> aio_is_cancelled (the_aio x)
     \<and> op_result (aio_operation (the_aio x)) \<noteq> None"

text \<open>Ready to be dispatched.\<close>

definition finished :: "async_op option \<Rightarrow> bool" where
  "finished x \<longleftrightarrow> x \<noteq> None \<and> (is_aio x \<longrightarrow> op_result (aio_operation (the_aio x)) \<noteq> None)"

definition sched_inv ::
  "'k world \<Rightarrow> addr list \<Rightarrow> addr list \<Rightarrow> addr list \<Rightarrow> owned \<Rightarrow> bool" where
  "sched_inv w act can cq L \<longleftrightarrow>
     lists (links w) ((operations_list, act @ can) # (completion_queue, cq) # L)
     \<and> begin_cancelled w = hd (can @ [operations_list])
     \<and> (\<forall>a \<in> set act. pending (objs w a)) \<and> sorted (map (fd_at w) act)
     \<and> (\<forall>a \<in> set can. cancelled_op (objs w a)) \<and> (\<forall>a \<in> set cq. finished (objs w a))
     \<and> poll_queue_length w = of_nat (length act + length can)
     \<and> length act + length can < 2 ^ 64"

text \<open>
  The epoll registration: the active operations wait for open descriptors, and beside the wake
  event exactly the descriptors with an active operation are registered.
\<close>

abbreviation pollable :: "('k \<Rightarrow> fd set) \<Rightarrow> 'k world \<Rightarrow> fd set" where
  "pollable F w \<equiv> F (kern w) - {wake_fd w, epoll_fd w}"

definition registered_inv ::
  "('k \<Rightarrow> fd \<rightharpoonup> u32) \<Rightarrow> ('k \<Rightarrow> fd set) \<Rightarrow> 'k world \<Rightarrow> addr list \<Rightarrow> bool" where
  "registered_inv reg F w act \<longleftrightarrow> fd_at w ` set act \<subseteq> pollable F w
     \<and> (\<forall>fd. fd \<noteq> wake_fd w \<longrightarrow> (reg (kern w) fd \<noteq> None \<longleftrightarrow> fd \<in> fd_at w ` set act))"

text \<open>The kernel keeps its contract, and the context's epoll instance and wake event are open.\<close>

abbreviation waking ::
  "'k kernel \<Rightarrow> fd \<Rightarrow> ('k \<Rightarrow> fd \<rightharpoonup> u32) \<Rightarrow> ('k \<Rightarrow> fd set) \<Rightarrow> 'k world \<Rightarrow> bool" where
  "waking K efd reg F w \<equiv> os_contract K efd (wake_fd w) reg F \<and> wake_fd w \<in> F (kern w)"

abbreviation running ::
  "'k kernel \<Rightarrow> fd \<Rightarrow> ('k \<Rightarrow> fd \<rightharpoonup> u32) \<Rightarrow> ('k \<Rightarrow> fd set) \<Rightarrow> 'k world \<Rightarrow> bool" where
  "running K efd reg F w \<equiv> waking K efd reg F w \<and> efd \<in> F (kern w) - {wake_fd w}"

lemma running_ctl:
  assumes "running K efd reg F w" and "fd \<in> F (kern w)" and "fd \<noteq> efd"
  obtains r k' where "K (kern w) (Sys_epoll_ctl efd op fd ev) = (r, k')"
    and "sr_ret r = fst (ctl_answer op fd ev (reg (kern w)))"
    and "sr_ret r < 0 \<longrightarrow> sr_errno r = fst (snd (ctl_answer op fd ev (reg (kern w))))"
    and "reg k' = snd (snd (ctl_answer op fd ev (reg (kern w))))" and "F (kern w) \<subseteq> F k'"
proof -
  have "os_contract K efd (wake_fd w) reg F" "efd \<in> F (kern w)" using assms(1) by simp_all
  from os_contract_ctl [OF this assms(2,3), of op ev] show thesis using that by blast
qed

text \<open>The members no operation of the scheduler changes.\<close>

definition same_setup :: "'k world \<Rightarrow> 'k world \<Rightarrow> bool" where
  "same_setup w w' \<longleftrightarrow> epoll_fd w' = epoll_fd w \<and> wake_fd w' = wake_fd w
     \<and> next_addr w' = next_addr w \<and> remaining_count w' = remaining_count w
     \<and> threads_waiting w' = threads_waiting w \<and> io_fds w' = io_fds w \<and> dom (objs w') = dom (objs w)
     \<and> (\<forall>a op. objs w a = Some op \<longrightarrow> op_completion (the (objs w' a)) = op_completion op)
     \<and> (\<forall>a. fd_at w' a = fd_at w a)"

lemma same_setup_refl [simp]: "same_setup w w"
  by (simp add: same_setup_def)

lemma same_setup_trans: "same_setup w w' \<Longrightarrow> same_setup w' w'' \<Longrightarrow> same_setup w w''"
  unfolding same_setup_def by (auto simp: dom_def set_eq_iff) (metis option.sel)

lemma is_aio_iff: "is_aio x \<longleftrightarrow> (\<exists>op. x = Some (IoOp op))"
  by (cases x rule: is_aio.cases) auto

lemma deref_aio_is_aio: "is_aio (objs w a) \<Longrightarrow> deref_aio w a = Ok (aio_at w a)"
  by (auto simp: is_aio_iff deref_aio_def)

lemma deref_aio_links [simp]:
  "deref_aio (w\<lparr>links := h\<rparr>) a = deref_aio w a" "deref_aio (w\<lparr>kern := k\<rparr>) a = deref_aio w a"
  by (simp_all add: deref_aio_def)

lemma pending_is_aio [dest]: "pending x \<Longrightarrow> is_aio x"
  by (simp add: pending_def)

lemma cancelled_is_aio [dest]: "cancelled_op x \<Longrightarrow> is_aio x"
  by (simp add: cancelled_op_def)

lemma cancelled_finished [dest]: "cancelled_op x \<Longrightarrow> finished x"
  by (cases x) (simp_all add: cancelled_op_def finished_def)

lemma finished_not_pending: "finished x \<Longrightarrow> \<not> pending x"
  by (auto simp: finished_def pending_def)

section \<open>The operations of one descriptor\<close>

text \<open>The part of a sorted list below, at and above a descriptor.\<close>

abbreviation below_fd :: "'k world \<Rightarrow> fd \<Rightarrow> addr list \<Rightarrow> addr list" where
  "below_fd w fd \<equiv> filter (\<lambda>a. fd_at w a < fd)"

abbreviation at_fd :: "'k world \<Rightarrow> fd \<Rightarrow> addr list \<Rightarrow> addr list" where
  "at_fd w fd \<equiv> filter (\<lambda>a. fd_at w a = fd)"

abbreviation above_fd :: "'k world \<Rightarrow> fd \<Rightarrow> addr list \<Rightarrow> addr list" where
  "above_fd w fd \<equiv> filter (\<lambda>a. fd < fd_at w a)"

lemma sorted_split:
  fixes f :: "'a \<Rightarrow> 'b :: linorder"
  assumes "sorted (map f xs)"
  shows "xs = filter (\<lambda>x. f x < d) xs @ filter (\<lambda>x. f x = d) xs @ filter (\<lambda>x. d < f x) xs"
  using assms
proof (induction xs)
  case (Cons x xs)
  have "filter (\<lambda>y. f y < d) xs = []" if "d \<le> f x"
    using Cons.prems that by (auto simp: filter_empty_conv)
  moreover have "filter (\<lambda>y. f y = d) xs = []" if "d < f x"
    using Cons.prems that by (auto simp: filter_empty_conv)
  ultimately show ?case using Cons by auto
qed simp

lemma sorted_filter_parts:
  fixes f :: "'a \<Rightarrow> 'b :: linorder"
  assumes "sorted (map f xs)"
  shows "sorted (map f (filter (\<lambda>x. f x < d) xs @ filter (\<lambda>x. d < f x) xs))"
    and "sorted (map f (filter (\<lambda>x. f x \<le> d) xs @ filter (\<lambda>x. d < f x) xs))"
  using assms by (auto simp: sorted_append intro: sorted_filter)

lemma filter_le_split:
  fixes f :: "'a \<Rightarrow> 'b :: linorder"
  assumes "sorted (map f xs)"
  shows "filter (\<lambda>x. f x \<le> d) xs = filter (\<lambda>x. f x < d) xs @ filter (\<lambda>x. f x = d) xs"
  using assms
proof (induction xs)
  case (Cons x xs)
  have "filter (\<lambda>y. f y < d) xs = []" if "d \<le> f x"
    using Cons.prems that by (auto simp: filter_empty_conv)
  then show ?case using Cons by auto
qed simp

definition interests :: "'k world \<Rightarrow> addr list \<Rightarrow> u32 \<Rightarrow> u32" where
  "interests w xs m = fold (\<lambda>a m. or m (interest (aio_at w a))) xs m"

lemma interests_simps [simp]:
  "interests w [] m = m"
  "interests w (a # xs) m = interests w xs (or m (interest (aio_at w a)))"
  by (simp_all add: interests_def)

lemma interests_snoc: "interests w (xs @ [a]) m = or (interests w xs m) (interest (aio_at w a))"
  by (simp add: interests_def)

section \<open>Waking and posting\<close>

lemma wake_ok:
  assumes "waking K efd reg F w"
  shows "\<exists>k'. wake K w = Ok (w\<lparr>kern := k'\<rparr>) \<and> reg k' = reg (kern w) \<and> F (kern w) \<subseteq> F k'"
  using os_contract_write [OF conjunct1 [OF assms], of "kern w" "ucast (threads_waiting w)"] assms
  by (auto simp: wake_def PollWakeEvent_trigger_def)

lemma reset_ok:
  assumes "waking K efd reg F w"
  shows "\<exists>k'. PollWakeEvent_reset K w = Ok (w\<lparr>kern := k'\<rparr>) \<and> reg k' = reg (kern w) \<and> F (kern w) \<subseteq> F k'"
  using os_contract_read [OF conjunct1 [OF assms], of "kern w"] assms by (auto simp: PollWakeEvent_reset_def)

lemma post_ok:
  assumes "waking K efd reg F w"
    and "lists (links w) ((completion_queue, cq) # L)"
    and "a \<notin> set (owned_items ((completion_queue, cq) # L))" and "allocated (links w) a"
  shows "\<exists>h' k'. post K w a = Ok (w\<lparr>links := h', kern := k'\<rparr>)
    \<and> lists h' ((completion_queue, cq @ [a]) # L) \<and> touches UNIV (links w) h'
    \<and> reg k' = reg (kern w) \<and> F (kern w) \<subseteq> F k'"
proof -
  obtain h' where h': "push_back (links w) completion_queue a = Ok h'"
    "lists h' ((completion_queue, cq @ [a]) # L)" "touches UNIV (links w) h'"
    using owned_push_back [OF assms(2-4)] by blast
  moreover have "il_empty h' completion_queue = Ok False"
    using lists_head [OF h'(2)] by (simp add: il_empty_il)
  moreover obtain k' where "wake K (w\<lparr>links := h'\<rparr>) = Ok (w\<lparr>links := h', kern := k'\<rparr>)"
    "reg k' = reg (kern w) \<and> F (kern w) \<subseteq> F k'"
    using wake_ok [of K efd "w\<lparr>links := h'\<rparr>" reg F] assms(1) by auto
  ultimately show ?thesis by (auto simp: post_def)
qed

text \<open>An item leaves the operations list and is posted, as both polling loops do it.\<close>

lemma erase_post_ok:
  assumes c: "waking K efd reg F w"
    and l: "lists (links w) ((operations_list, xs @ a # ys) # (completion_queue, cq) # L)"
  shows "\<exists>h1 h2 k'. erase (links w) operations_list a = Ok (hd (ys @ [operations_list]), h1)
    \<and> post K (w\<lparr>links := h1\<rparr>) a = Ok (w\<lparr>links := h2, kern := k'\<rparr>)
    \<and> lists h2 ((operations_list, xs @ ys) # (completion_queue, cq @ [a]) # L)
    \<and> reg k' = reg (kern w) \<and> F (kern w) \<subseteq> F k'"
proof -
  obtain h1 where h1: "erase (links w) operations_list a = Ok (hd (ys @ [operations_list]), h1)"
    "lists h1 ((operations_list, xs @ ys) # (completion_queue, cq) # L)" "touches UNIV (links w) h1"
    using owned_erase [OF l] by blast
  have "allocated (links w) a" using lists_head [OF l] by (intro il_allocated) auto
  then have al: "allocated h1 a" by (rule touches_allocated [OF h1(3)])
  have "a \<notin> set (owned_items ((completion_queue, cq) # (operations_list, xs @ ys) # L))"
    using l by (auto simp: lists_def)
  then obtain h2 k' where
    "post K (w\<lparr>links := h1\<rparr>) a = Ok (w\<lparr>links := h2, kern := k'\<rparr>)"
    "lists h2 ((completion_queue, cq @ [a]) # (operations_list, xs @ ys) # L)"
    "reg k' = reg (kern w) \<and> F (kern w) \<subseteq> F k'"
    using post_ok [of K efd "w\<lparr>links := h1\<rparr>" reg F cq "(operations_list, xs @ ys) # L" a]
      c h1(2) al by (auto simp: lists_swap)
  then show ?thesis using h1(1) lists_swap by blast
qed

end
