(* ===== verification/Schedule.thy ===== *)
theory Schedule
  imports Scheduler_Lists
begin

text \<open>
  \<^verbatim>\<open>IoScheduler::schedule\<close>: where an operation is put, and which events are registered for
  its descriptor.
\<close>

section \<open>Finding the place\<close>

text \<open>The searches of one descriptor in a list sorted by descriptor.\<close>

lemma fd_less_at: "is_aio (objs w a) \<Longrightarrow> fd_less w fd a = Ok (fd_at w a < fd)"
  by (simp add: fd_less_def deref_aio_is_aio)

lemma fd_differs_at: "is_aio (objs w a) \<Longrightarrow> fd_differs w fd a = Ok (fd_at w a \<noteq> fd)"
  by (simp add: fd_differs_def deref_aio_is_aio)

lemma lower_bound_fd:
  assumes "il (links w) s (act @ can)" and "\<forall>a \<in> set act. is_aio (objs w a)"
    and "sorted (map (fd_at w) act)"
  shows "lower_bound (links w) (fd_less w fd) (hd (act @ can @ [s])) (hd (can @ [s]))
    = Ok (hd (at_fd w fd act @ above_fd w fd act @ can @ [s]))"
proof -
  let ?us = "below_fd w fd act" and ?vs = "at_fd w fd act @ above_fd w fd act"
  have act: "act = ?us @ ?vs" using sorted_split [OF assms(3), of fd] .
  have l: "il (links w) s (?us @ ?vs @ can)"
    using assms(1) act by (metis append_assoc)
  have "lower_bound (links w) (fd_less w fd) (hd (?us @ ?vs @ can @ [s])) (hd (can @ [s]))
      = Ok (hd (?vs @ can @ [s]))"
    using assms(2) by (intro lower_bound_partition [OF l]) (auto simp: fd_less_at)
  moreover have "?us @ ?vs @ can @ [s] = act @ can @ [s]"
    using act by (metis append_assoc)
  ultimately show ?thesis by (metis append_assoc)
qed

lemma find_insert_pos_fd:
  assumes l: "il (links w) s (act @ can)" and io: "\<forall>a \<in> set act. is_aio (objs w a)"
    and so: "sorted (map (fd_at w) act)"
  shows "find_insert_pos w fd (hd (act @ can @ [s])) (hd (can @ [s]))
    = Ok (if below_fd w fd act \<noteq> [] \<and> above_fd w fd act = [] then hd (can @ [s])
          else hd (at_fd w fd act @ above_fd w fd act @ can @ [s]))"
proof (cases act)
  case Nil
  then show ?thesis using lower_bound_fd [OF assms, of fd] by (simp add: find_insert_pos_def)
next
  case (Cons a as)
  obtain bs b where snoc: "act = bs @ [b]" using Cons by (metis list.discI rev_exhaust)
  have ab: "a \<in> set act" "b \<in> set act" by (simp add: Cons, simp add: snoc)
  have ne: "hd (act @ can @ [s]) \<noteq> hd (can @ [s])"
    using hd_sentinel_eq [of "links w" s "[]" act can] l Cons by simp
  have dec: "iter_dec (links w) (hd (can @ [s])) = Ok b"
    using iter_dec_il [of "links w" s bs b can] l snoc by simp
  have first: "fd \<le> fd_at w a \<longleftrightarrow> below_fd w fd act = []"
    using so Cons by (auto simp: filter_empty_conv)
  have lasts: "fd_at w b \<le> fd \<longleftrightarrow> above_fd w fd act = []"
    using so snoc by (auto simp: filter_empty_conv sorted_append)
  have "hd (at_fd w fd act @ above_fd w fd act @ can @ [s]) = a" if "below_fd w fd act = []"
    using sorted_split [OF so, of fd] that Cons by (metis append_assoc append_Cons append_Nil list.sel(1))
  moreover have "deref_aio w a = Ok (aio_at w a)" "deref_aio w b = Ok (aio_at w b)"
    using io ab by (simp_all add: deref_aio_is_aio)
  ultimately show ?thesis
    using lower_bound_fd [OF assms, of fd] ne dec first lasts Cons
    by (auto simp: find_insert_pos_def)
qed

text \<open>The loop over the operations of the descriptor collects their events.\<close>

lemma skip_same_fd_end: "skip_same_fd w fd p p m = Ok (p, m)"
  by (subst skip_same_fd.simps) simp

lemma skip_same_fd_run:
  assumes "il (links w) s (us @ gs @ vs @ can)" and "\<forall>a \<in> set (gs @ vs). is_aio (objs w a)"
    and "\<forall>a \<in> set gs. fd_at w a = fd" and "\<forall>a \<in> set vs. fd_at w a \<noteq> fd"
  shows "skip_same_fd w fd (hd (gs @ vs @ can @ [s])) (hd (can @ [s])) m
    = Ok (hd (vs @ can @ [s]), interests w gs m)"
  using assms
proof (induction gs arbitrary: us m)
  case Nil
  then show ?case
    using hd_sentinel_eq [of "links w" s us vs can]
    by (cases vs) (auto simp: skip_same_fd.simps deref_aio_is_aio)
next
  case (Cons g gs)
  have ne: "g \<noteq> hd (can @ [s])"
    using hd_sentinel_eq [of "links w" s us "g # gs @ vs" can] Cons.prems(1) by simp
  have inc: "iter_inc (links w) g = Ok (hd (gs @ vs @ can @ [s]))"
    using iter_inc_il [of "links w" s us g "gs @ vs @ can"] Cons.prems(1) by simp
  have "skip_same_fd w fd (hd (gs @ vs @ can @ [s])) (hd (can @ [s])) (or m (interest (aio_at w g)))
      = Ok (hd (vs @ can @ [s]), interests w gs (or m (interest (aio_at w g))))"
    using Cons.IH [of "us @ [g]"] Cons.prems by simp
  then show ?case
    using ne inc Cons.prems(2,3) by (subst skip_same_fd.simps) (simp add: deref_aio_is_aio)
qed

lemma register_fd_ok:
  assumes c: "running K (epoll_fd w) reg F w" and fd: "fd \<in> F (kern w)" "fd \<noteq> epoll_fd w"
  shows "\<exists>k'. register_fd K w fd ev = Ok (w\<lparr>kern := k'\<rparr>)
    \<and> reg k' = (reg (kern w))(fd \<mapsto> ev) \<and> F (kern w) \<subseteq> F k'"
proof -
  obtain r k1 where 1: "K (kern w) (Sys_epoll_ctl (epoll_fd w) EPOLL_CTL_ADD fd ev) = (r, k1)"
    "sr_ret r = fst (ctl_answer EPOLL_CTL_ADD fd ev (reg (kern w)))"
    "sr_ret r < 0 \<longrightarrow> sr_errno r = fst (snd (ctl_answer EPOLL_CTL_ADD fd ev (reg (kern w))))"
    "reg k1 = snd (snd (ctl_answer EPOLL_CTL_ADD fd ev (reg (kern w))))" "F (kern w) \<subseteq> F k1"
    by (rule running_ctl [OF c fd])
  have "running K (epoll_fd w) reg F (w\<lparr>kern := k1\<rparr>)" "fd \<in> F (kern (w\<lparr>kern := k1\<rparr>))"
    using c fd 1(5) by auto
  note ctl2 = running_ctl [OF this fd(2), of EPOLL_CTL_MOD ev, simplified]
  obtain r2 k2 where 2: "K k1 (Sys_epoll_ctl (epoll_fd w) EPOLL_CTL_MOD fd ev) = (r2, k2)"
    "sr_ret r2 = fst (ctl_answer EPOLL_CTL_MOD fd ev (reg k1))"
    "reg k2 = snd (snd (ctl_answer EPOLL_CTL_MOD fd ev (reg k1)))" "F k1 \<subseteq> F k2"
    by (rule ctl2)
  show ?thesis
    using 1 2 by (cases "reg (kern w) fd") (auto simp: register_fd_def epoll_ctl_def ctl_answer_def)
qed

section \<open>Scheduling\<close>

text \<open>
  The events registered for a new operation: its own and those of the operations already
  waiting for the descriptor, unless the descriptor is the greatest active one and not the
  only one.
\<close>

definition schedule_mask :: "'k world \<Rightarrow> addr list \<Rightarrow> addr \<Rightarrow> u32" where
  "schedule_mask w act a =
     (if below_fd w (fd_at w a) act \<noteq> [] \<and> above_fd w (fd_at w a) act = []
      then interest (aio_at w a)
      else interests w (at_fd w (fd_at w a) act) (interest (aio_at w a)))"

definition insert_sorted :: "'k world \<Rightarrow> addr \<Rightarrow> addr list \<Rightarrow> addr list" where
  "insert_sorted w a act =
     filter (\<lambda>b. fd_at w b \<le> fd_at w a) act @ a # above_fd w (fd_at w a) act"

lemma set_insert_sorted [simp]: "set (insert_sorted w a act) = insert a (set act)"
  by (auto simp: insert_sorted_def)

lemma length_insert_sorted [simp]: "length (insert_sorted w a act) = Suc (length act)"
  using sum_length_filter_compl [of "\<lambda>b. fd_at w b \<le> fd_at w a" act]
  by (simp add: insert_sorted_def not_le)

lemma sorted_insert_sorted:
  "sorted (map (fd_at w) act) \<Longrightarrow> sorted (map (fd_at w) (insert_sorted w a act))"
  using sorted_filter_parts(2) [of "fd_at w" act "fd_at w a"]
  by (auto simp: insert_sorted_def sorted_append)

lemma schedule_ok:
  assumes inv: "sched_inv w act can cq L" and c: "running K (epoll_fd w) reg F w"
    and a: "a \<notin> set (owned_items ((operations_list, act @ can) # (completion_queue, cq) # L))"
      "allocated (links w) a" "pending (objs w a)" "fd_at w a \<in> pollable F w"
    and len: "Suc (length act + length can) < 2 ^ 64"
  shows "\<exists>h' k'. schedule K w a
      = Ok (w\<lparr>kern := k', links := h', poll_queue_length := poll_queue_length w + 1\<rparr>)
    \<and> sched_inv (w\<lparr>kern := k', links := h', poll_queue_length := poll_queue_length w + 1\<rparr>)
        (insert_sorted w a act) can cq L
    \<and> reg k' = (reg (kern w))(fd_at w a \<mapsto> schedule_mask w act a) \<and> F (kern w) \<subseteq> F k'"
proof -
  let ?s = operations_list and ?fd = "fd_at w a"
  let ?us = "below_fd w ?fd act" and ?gs = "at_fd w ?fd act" and ?vs = "above_fd w ?fd act"
  let ?pos = "if ?us \<noteq> [] \<and> ?vs = [] then hd (can @ [?s]) else hd (?gs @ ?vs @ can @ [?s])"
  let ?le = "filter (\<lambda>b. fd_at w b \<le> ?fd) act"
  have l: "lists (links w) ((?s, act @ can) # (completion_queue, cq) # L)"
    and bc: "begin_cancelled w = hd (can @ [?s])" and io: "\<forall>a \<in> set act. is_aio (objs w a)"
    and so: "sorted (map (fd_at w) act)"
    using inv by (auto simp: sched_inv_def)
  note il = lists_head [OF l]
  have act: "act = ?us @ ?gs @ ?vs" and act': "act = ?le @ ?vs"
    using sorted_split [OF so, of ?fd] filter_le_split [OF so, of ?fd] by (metis, metis append_assoc)
  have e: "?le @ ?vs @ can = act @ can" using act' by (metis append_assoc)
  have ins: "\<exists>h'. il_insert (links w) a (hd (?vs @ can @ [?s])) = Ok (hd (?vs @ can @ [?s]), h')
    \<and> lists h' ((?s, insert_sorted w a act @ can) # (completion_queue, cq) # L)"
    using owned_insert [of "links w" ?s ?le "?vs @ can" "(completion_queue, cq) # L" a] l a(1,2)
    unfolding e insert_sorted_def append_assoc append_Cons by blast
  have il': "il (links w) ?s (?us @ ?gs @ ?vs @ can)"
    using il act by (metis append_assoc)
  have "skip_same_fd w ?fd (hd (?gs @ ?vs @ can @ [?s])) (hd (can @ [?s])) (interest (aio_at w a))
      = Ok (hd (?vs @ can @ [?s]), interests w ?gs (interest (aio_at w a)))"
    by (rule skip_same_fd_run [OF il']) (use io in auto)
  then have "skip_same_fd w ?fd ?pos (hd (can @ [?s])) (interest (aio_at w a))
      = Ok (hd (?vs @ can @ [?s]), schedule_mask w act a)"
    by (cases "?us \<noteq> [] \<and> ?vs = []") (simp_all only: schedule_mask_def skip_same_fd_end if_True if_False append_Nil simp_thms)
  moreover obtain k' where k': "register_fd K w ?fd (schedule_mask w act a) = Ok (w\<lparr>kern := k'\<rparr>)"
    "reg k' = (reg (kern w))(?fd \<mapsto> schedule_mask w act a) \<and> F (kern w) \<subseteq> F k'"
    using register_fd_ok [OF c, of ?fd] a(4) by blast
  moreover obtain h' where h': "il_insert (links w) a (hd (?vs @ can @ [?s])) = Ok (hd (?vs @ can @ [?s]), h')"
    "lists h' ((?s, insert_sorted w a act @ can) # (completion_queue, cq) # L)"
    using ins by blast
  moreover have "find_insert_pos w ?fd (hd (act @ can @ [?s])) (hd (can @ [?s])) = Ok ?pos"
    by (rule find_insert_pos_fd [OF il io so])
  ultimately have "schedule K w a
      = Ok (w\<lparr>kern := k', links := h', poll_queue_length := poll_queue_length w + 1\<rparr>)"
    using il_begin_il [OF il] bc deref_aio_is_aio [OF pending_is_aio [OF a(3)]]
    by (simp add: schedule_def)
  moreover have "sched_inv (w\<lparr>kern := k', links := h', poll_queue_length := poll_queue_length w + 1\<rparr>)
        (insert_sorted w a act) can cq L"
    using inv h'(2) sorted_insert_sorted [OF so, of a] a(3) len by (simp add: sched_inv_def)
  ultimately show ?thesis using k'(2) by blast
qed

end
