(* ===== verification/Cancel.thy ===== *)
theory Cancel
  imports Schedule
begin

text \<open>
  \<^verbatim>\<open>IoScheduler::cancel\<close>: the operations of a descriptor get their result and move behind
  \<^verbatim>\<open>begin_cancelled_\<close>, except in the one case in which the call never returns.
\<close>

section \<open>Marking the operations\<close>

definition mark_cancelled :: "addr list \<Rightarrow> (addr \<rightharpoonup> async_op) \<Rightarrow> (addr \<rightharpoonup> async_op)" where
  "mark_cancelled gs ob =
     (\<lambda>a. if a \<in> set gs then Some (IoOp (AsyncIoOperation_cancel (the_aio (ob a)))) else ob a)"

lemma cancel_fields [simp]:
  "aio_fd (AsyncIoOperation_cancel op) = aio_fd op"
  "aio_f (AsyncIoOperation_cancel op) = aio_f op"
  "aio_is_cancelled (AsyncIoOperation_cancel op)"
  "op_result (aio_operation (AsyncIoOperation_cancel op)) \<noteq> None"
  using anyop.cancel_has_result [of "aio_operation op"]
  by (simp_all add: AsyncIoOperation_cancel_def)

lemma mark_cancelled_cancelled: "a \<in> set gs \<Longrightarrow> cancelled_op (mark_cancelled gs ob a)"
  using cancel_fields(4) by (simp add: mark_cancelled_def cancelled_op_def)

lemma mark_cancelled_other: "a \<notin> set gs \<Longrightarrow> mark_cancelled gs ob a = ob a"
  by (simp add: mark_cancelled_def)

lemma mark_cancelled_fd: "aio_fd (the_aio (mark_cancelled gs ob a)) = aio_fd (the_aio (ob a))"
  by (simp add: mark_cancelled_def)

lemma mark_cancelled_setup:
  assumes "\<forall>a \<in> set gs. is_aio (objs w a)"
  shows "same_setup w (w\<lparr>objs := mark_cancelled gs (objs w), links := h, begin_cancelled := b, kern := k\<rparr>)"
  using assms by (force simp: same_setup_def mark_cancelled_def is_aio_iff dom_def)

lemma for_each_cancel_run:
  assumes "il (links w) s (us @ gs @ vs)" and "\<forall>a \<in> set gs. is_aio (objs w a)"
  shows "for_each_cancel w (hd (gs @ vs @ [s])) (hd (vs @ [s]))
    = Ok (w\<lparr>objs := mark_cancelled gs (objs w)\<rparr>)"
  using assms
proof (induction gs arbitrary: us w)
  case Nil
  then show ?case by (simp add: for_each_cancel.simps mark_cancelled_def)
next
  case (Cons g gs)
  let ?w = "store_aio w g (AsyncIoOperation_cancel (aio_at w g))"
  have ne: "g \<noteq> hd (vs @ [s])"
    using hd_sentinel_eq [of "links w" s us "g # gs" vs] Cons.prems(1) by simp
  have inc: "iter_inc (links w) g = Ok (hd (gs @ vs @ [s]))"
    using iter_inc_il [of "links w" s us g "gs @ vs"] Cons.prems(1) by simp
  have g: "g \<notin> set gs" using Cons.prems(1) by (simp add: il_def)
  then have m: "mark_cancelled gs (objs ?w) = mark_cancelled (g # gs) (objs w)"
    by (auto simp: mark_cancelled_def store_aio_def)
  have "for_each_cancel ?w (hd (gs @ vs @ [s])) (hd (vs @ [s]))
      = Ok (?w\<lparr>objs := mark_cancelled gs (objs ?w)\<rparr>)"
  proof (rule Cons.IH)
    show "il (links ?w) s ((us @ [g]) @ gs @ vs)" using Cons.prems(1) by (simp add: store_aio_def)
    show "\<forall>a \<in> set gs. is_aio (objs ?w a)" using Cons.prems(2) by (simp add: store_aio_def)
  qed
  moreover have "?w\<lparr>objs := x\<rparr> = w\<lparr>objs := x\<rparr>" for x by (simp add: store_aio_def)
  ultimately show ?case
    using ne inc m Cons.prems(2) by (subst for_each_cancel.simps) (simp add: deref_aio_is_aio)
qed

section \<open>Moving them\<close>

text \<open>
  The splice to \<^verbatim>\<open>begin_cancelled_\<close> does not return when at least two operations have the
  greatest active descriptor and the list holds something else too.
\<close>

definition cancel_stuck :: "addr list \<Rightarrow> addr list \<Rightarrow> addr list \<Rightarrow> addr list \<Rightarrow> bool" where
  "cancel_stuck us gs vs can \<longleftrightarrow> vs = [] \<and> 2 \<le> length gs \<and> \<not> (us = [] \<and> can = [])"

lemma splice_cancelled:
  assumes l: "lists h ((s, us @ gs @ vs @ can) # L)" and gs: "gs \<noteq> []"
    and ns: "\<not> cancel_stuck us gs vs can"
  shows "\<exists>h'. splice_within h s (hd (can @ [s])) (hd gs) (hd (vs @ can @ [s])) = Ok (hd gs, h')
    \<and> lists h' ((s, us @ vs @ gs @ can) # L) \<and> touches UNIV h h'"
proof -
  note il = lists_head [OF l]
  obtain g gs' where g: "gs = g # gs'" using gs by (cases gs) auto
  have ne: "hd (can @ [s]) \<noteq> g"
    using hd_sentinel_eq [of h s us "gs @ vs" can] il g by auto
  have up: "lists h' ((s, us @ vs @ gs @ can) # L) \<and> touches UNIV h h'"
    if "il h' s (us @ vs @ gs @ can)" "touches (set (s # us @ gs @ vs @ can)) h h'" for h'
    by (intro conjI lists_update [OF l that(2,1)] touches_mono [OF that(2)])
      (use l in \<open>auto simp: lists_Cons\<close>)
  show ?thesis
  proof (cases "vs = []")
    case True
    show ?thesis
    proof (cases "us = [] \<and> can = []")
      case True
      then show ?thesis
        using \<open>vs = []\<close> l g ne il_begin_il [OF il]
        by (auto simp: splice_within_def splice_def il_end_def)
    next
      case False
      then have gs': "gs' = []" using ns \<open>vs = []\<close> g by (cases gs') (auto simp: cancel_stuck_def)
      obtain h' where "splice_loop h (hd (can @ [s])) s g (hd (can @ [s])) = Ok h'"
        "il h' s (us @ g # can)" "touches (set (s # us @ g # can)) h h'"
        using splice_loop_single [of h s us g can] il g gs' \<open>vs = []\<close> by auto
      moreover have "\<not> (g = hd (us @ g # can @ [s]) \<and> hd (can @ [s]) = s)"
        using False il g gs' \<open>vs = []\<close> by (cases us; cases can) (auto simp: il_def)
      ultimately show ?thesis
        using up [of h'] ne g gs' \<open>vs = []\<close> il_begin_il [OF il]
        by (auto simp: splice_within_def splice_def il_end_def)
    qed
  next
    case False
    then obtain v vs' where v: "vs = v # vs'" by (cases vs) auto
    obtain h' where h': "splice_loop h (hd (can @ [s])) s g v = Ok h'"
      "il h' s (us @ vs @ gs @ can)" "touches (set (s # us @ gs @ vs @ can)) h h'"
      using splice_loop_forward [of h s us gs vs "[]" can] il False g v by auto
    moreover have "v \<noteq> s" using il v by (auto simp: il_def)
    ultimately show ?thesis
      using up [of h'] ne g v il_begin_il [OF il]
      by (auto simp: splice_within_def splice_def il_end_def)
  qed
qed

lemma splice_cancelled_stuck:
  assumes il: "il h s (us @ gs @ vs @ can)" and st: "cancel_stuck us gs vs can"
  shows "splice_within h s (hd (can @ [s])) (hd gs) (hd (vs @ can @ [s])) = Diverges"
proof -
  have vs: "vs = []" and len: "2 \<le> length gs" and o: "\<not> (us = [] \<and> can = [])"
    using st by (auto simp: cancel_stuck_def)
  then obtain g gs' where g: "gs = g # gs'" by (cases gs) auto
  have ne: "hd (can @ [s]) \<noteq> g"
    using hd_sentinel_eq [of h s us gs can] il g vs by auto
  have "rotating h (hd (can @ [s])) s g (hd (can @ [s]))"
    unfolding rotating_def using il len g vs by (metis append_Nil list.sel(1))
  then have "splice_loop h (hd (can @ [s])) s g (hd (can @ [s])) = Diverges"
    by (rule splice_loop_rotates)
  moreover have "\<not> (g = hd (us @ gs @ can @ [s]) \<and> hd (can @ [s]) = s)"
    using o il g vs by (cases us; cases can) (auto simp: il_def)
  ultimately show ?thesis
    using ne g vs il_begin_il [OF il] by (auto simp: splice_within_def splice_def il_end_def)
qed

section \<open>Cancelling\<close>

text \<open>Both searches find the operations of the descriptor.\<close>

lemma cancel_range:
  assumes "il (links w) s (act @ can)" and "\<forall>a \<in> set act. is_aio (objs w a)"
    and "sorted (map (fd_at w) act)"
  shows "find_if (links w) (fd_differs w fd)
      (hd (at_fd w fd act @ above_fd w fd act @ can @ [s])) (hd (can @ [s]))
    = Ok (hd (above_fd w fd act @ can @ [s]))"
proof -
  have "il (links w) s (below_fd w fd act @ at_fd w fd act @ above_fd w fd act @ can)"
    using assms(1) sorted_split [OF assms(3), of fd] by (metis append_assoc)
  then show ?thesis
  proof (rule find_if_range)
    show "fd_differs w fd a = Ok False" if "a \<in> set (at_fd w fd act)" for a
      using that assms(2) by (auto simp: fd_differs_at)
    show "fd_differs w fd (hd (above_fd w fd act)) = Ok True" if "above_fd w fd act \<noteq> []"
      using hd_in_set [OF that] assms(2) by (auto simp: fd_differs_at)
  qed
qed

lemma cancel_unfold:
  assumes il: "il (links w) operations_list (act @ can)" and io: "\<forall>a \<in> set act. is_aio (objs w a)"
    and so: "sorted (map (fd_at w) act)" and bc: "begin_cancelled w = hd (can @ [operations_list])"
    and g: "at_fd w fd act \<noteq> []"
  shows "cancel K w fd =
    run_bind (splice_within (links w) operations_list (hd (can @ [operations_list]))
       (hd (at_fd w fd act)) (hd (above_fd w fd act @ can @ [operations_list]))) (\<lambda>(b, h).
    let (_, w) = epoll_ctl K (w\<lparr>objs := mark_cancelled (at_fd w fd act) (objs w), links := h,
                                  begin_cancelled := b\<rparr>) EPOLL_CTL_DEL fd 0
    in wake K w)"
proof -
  let ?s = operations_list and ?us = "below_fd w fd act" and ?gs = "at_fd w fd act"
    and ?vs = "above_fd w fd act"
  have il': "il (links w) ?s (?us @ ?gs @ ?vs @ can)"
    using il sorted_split [OF so, of fd] by (metis append_assoc)
  have ne: "hd (?gs @ ?vs @ can @ [?s]) \<noteq> hd (?vs @ can @ [?s])"
    using hd_sentinel_eq [of "links w" ?s ?us ?gs "?vs @ can"] il' g by simp
  have "for_each_cancel w (hd (?gs @ ?vs @ can @ [?s])) (hd (?vs @ can @ [?s]))
      = Ok (w\<lparr>objs := mark_cancelled ?gs (objs w)\<rparr>)"
    using for_each_cancel_run [of w ?s ?us ?gs "?vs @ can"] il' io by auto
  then show ?thesis
    using lower_bound_fd [OF il io so, of fd] cancel_range [OF il io so, of fd] il_begin_il [OF il]
      bc ne g
    by (simp add: cancel_def hd_append)
qed

lemma cancel_ok:
  assumes inv: "sched_inv w act can cq L" and c: "running K (epoll_fd w) reg F w"
    and fd: "fd \<in> pollable F w" and g: "at_fd w fd act \<noteq> []"
    and ns: "\<not> cancel_stuck (below_fd w fd act) (at_fd w fd act) (above_fd w fd act) can"
  shows "\<exists>h' k'. let w' = w\<lparr>objs := mark_cancelled (at_fd w fd act) (objs w), links := h',
        begin_cancelled := hd (at_fd w fd act), kern := k'\<rparr>
      in cancel K w fd = Ok w'
       \<and> sched_inv w' (filter (\<lambda>a. fd_at w a \<noteq> fd) act) (at_fd w fd act @ can) cq L
       \<and> reg k' = (reg (kern w))(fd := None) \<and> F (kern w) \<subseteq> F k'"
proof -
  let ?s = operations_list and ?us = "below_fd w fd act" and ?gs = "at_fd w fd act"
    and ?vs = "above_fd w fd act" and ?ob = "mark_cancelled (at_fd w fd act) (objs w)"
  have l: "lists (links w) ((?s, act @ can) # (completion_queue, cq) # L)"
    and bc: "begin_cancelled w = hd (can @ [?s])" and io: "\<forall>a \<in> set act. is_aio (objs w a)"
    and so: "sorted (map (fd_at w) act)"
    using inv by (auto simp: sched_inv_def)
  note il = lists_head [OF l]
  have act: "act @ can = ?us @ ?gs @ ?vs @ can"
    using sorted_split [OF so, of fd] by (metis append_assoc)
  have rest: "filter (\<lambda>a. fd_at w a \<noteq> fd) act = ?us @ ?vs"
  proof -
    have "filter (\<lambda>a. fd_at w a \<noteq> fd) act = filter (\<lambda>a. fd_at w a \<noteq> fd) (?us @ ?gs @ ?vs)"
      using sorted_split [OF so, of fd] by simp
    also have "\<dots> = ?us @ ?vs"
      by (auto simp: filter_empty_conv intro!: arg_cong2 [where f = append] filter_cong)
    finally show ?thesis .
  qed
  obtain h' where h': "splice_within (links w) ?s (hd (can @ [?s])) (hd ?gs) (hd (?vs @ can @ [?s]))
      = Ok (hd ?gs, h')" "lists h' ((?s, (?us @ ?vs) @ ?gs @ can) # (completion_queue, cq) # L)"
    using splice_cancelled [of "links w" ?s ?us ?gs ?vs can "(completion_queue, cq) # L"] l g ns act
    by auto
  let ?w1 = "w\<lparr>objs := ?ob, links := h', begin_cancelled := hd ?gs\<rparr>"
  obtain r k1 where k1: "K (kern w) (Sys_epoll_ctl (epoll_fd w) EPOLL_CTL_DEL fd 0) = (r, k1)"
    "reg k1 = snd (snd (ctl_answer EPOLL_CTL_DEL fd 0 (reg (kern w)))) \<and> F (kern w) \<subseteq> F k1"
    using running_ctl [OF c, of fd EPOLL_CTL_DEL 0] fd by blast
  obtain k' where k': "wake K (?w1\<lparr>kern := k1\<rparr>) = Ok (?w1\<lparr>kern := k'\<rparr>)" "reg k' = reg k1 \<and> F k1 \<subseteq> F k'"
    using wake_ok [of K "epoll_fd w" "?w1\<lparr>kern := k1\<rparr>" reg F] c k1(2) by auto
  have "reg k1 = (reg (kern w))(fd := None)"
    using k1(2) by (auto simp: ctl_answer_def split: option.splits)
  moreover have "cancel K w fd = Ok (?w1\<lparr>kern := k'\<rparr>)"
    using cancel_unfold [OF il io so bc g, of K] h'(1) k1(1) k'(1) by (simp add: epoll_ctl_def)
  moreover have "sched_inv (?w1\<lparr>kern := k'\<rparr>) (?us @ ?vs) (?gs @ can) cq L"
  proof -
    have dj: "set ?gs \<inter> (set can \<union> set cq) = {}"
      using l by (auto simp: lists_Cons il_def)
    have other: "?ob a = objs w a" if "a \<in> set can \<or> a \<in> set cq" for a
      using dj that by (intro mark_cancelled_other) blast
    have "\<forall>a \<in> set (?us @ ?vs). pending (?ob a)"
      using inv by (auto simp: sched_inv_def mark_cancelled_other)
    moreover have "sorted (map (fd_at w) (?us @ ?vs))" by (rule sorted_filter_parts(1) [OF so])
    moreover have "\<forall>a \<in> set (?gs @ can). cancelled_op (?ob a)"
      using inv other mark_cancelled_cancelled [of _ ?gs "objs w"] by (auto simp: sched_inv_def)
    moreover have "\<forall>a \<in> set cq. finished (?ob a)"
      using inv other by (auto simp: sched_inv_def)
    moreover have "length act + length can = length (?us @ ?vs) + length (?gs @ can)"
      using arg_cong [OF act, of length] by simp
    ultimately show ?thesis
      using inv h'(2) g by (simp add: sched_inv_def mark_cancelled_fd)
  qed
  ultimately show ?thesis unfolding Let_def rest using k'(2) k1(2) by auto
qed

end
