(* ===== verification/Poll.thy ===== *)
theory Poll
  imports Cancel
begin

text \<open>
  \<^verbatim>\<open>IoScheduler::poll_once\<close> and its two passes: the cancelled operations go to the completion
  queue, then the operations of every notified descriptor are tried and the finished ones
  follow them.
\<close>

section \<open>Cancelled operations\<close>

lemma process_cancellations_run:
  assumes "waking K efd reg F w"
    and "lists (links w) ((operations_list, xs @ can) # (completion_queue, cq) # L)"
  shows "\<exists>h' k'. process_cancellations K w (hd (can @ [operations_list])) operations_list n
      = Ok (operations_list, n + length can, w\<lparr>links := h', kern := k'\<rparr>)
    \<and> lists h' ((operations_list, xs) # (completion_queue, cq @ can) # L)
    \<and> reg k' = reg (kern w) \<and> F (kern w) \<subseteq> F k'"
  using assms
proof (induction can arbitrary: w cq n)
  case Nil
  then show ?case by (intro exI [of _ "links w"] exI [of _ "kern w"]) (simp add: process_cancellations.simps)
next
  case (Cons a can)
  let ?s = operations_list
  have "a \<noteq> ?s" using lists_head [OF Cons.prems(2)] by (auto simp: il_def)
  obtain h1 h2 k1 where s: "erase (links w) ?s a = Ok (hd (can @ [?s]), h1)"
    "post K (w\<lparr>links := h1\<rparr>) a = Ok (w\<lparr>links := h2, kern := k1\<rparr>)"
    "lists h2 ((?s, xs @ can) # (completion_queue, cq @ [a]) # L)" "reg k1 = reg (kern w) \<and> F (kern w) \<subseteq> F k1"
    using erase_post_ok [OF Cons.prems] by blast
  obtain h' k' where "process_cancellations K (w\<lparr>links := h2, kern := k1\<rparr>) (hd (can @ [?s])) ?s (Suc n)
      = Ok (?s, Suc n + length can, w\<lparr>links := h', kern := k'\<rparr>)"
    "lists h' ((?s, xs) # (completion_queue, (cq @ [a]) @ can) # L)" "reg k' = reg k1 \<and> F k1 \<subseteq> F k'"
    using Cons.IH [of "w\<lparr>links := h2, kern := k1\<rparr>" "cq @ [a]" "Suc n"] Cons.prems(1) s(3,4) by auto
  then show ?case
    using s \<open>a \<noteq> ?s\<close> by (subst process_cancellations.simps) auto
qed

section \<open>Operations of a notified descriptor\<close>

text \<open>Whether an event leads to an attempt, and what the attempt makes of the operation.\<close>

definition event_matches :: "u32 \<Rightarrow> async_io_operation \<Rightarrow> bool" where
  "event_matches events op \<longleftrightarrow> \<not> aio_is_cancelled op \<and> ((and events EPOLLIN \<noteq> 0) = aio_is_read op)"

definition attempted :: "'k kernel \<Rightarrow> u32 \<Rightarrow> async_op option \<Rightarrow> async_op option \<Rightarrow> bool" where
  "attempted K events x x' \<longleftrightarrow>
     (if event_matches events (the_aio x)
      then \<exists>k b op' k'. perform_io K k (the_aio x) = Ok (b, op', k') \<and> x' = Some (IoOp op')
      else x' = x)"

lemma op_syscall_keeps: "\<not> changes_registration (op_syscall op fd)"
  by (cases op) auto

lemma op_io_kernel:
  assumes "op_result op = None" and "op_io K k op fd = Ok (b, op', k')"
  shows "\<exists>r. K k (op_syscall op fd) = (r, k')"
  using assms
  by (cases op)
    (auto simp: op_io_defs io_defs Let_def run_bind_eq_Ok exios_expect_def split: prod.splits if_splits)

lemma perform_io_ok:
  assumes "pending (Some (IoOp op))"
  shows "\<exists>b op' k'. perform_io K k op = Ok (b, op', k')
    \<and> (if b then finished (Some (IoOp op')) else pending (Some (IoOp op')))
    \<and> aio_fd op' = aio_fd op \<and> aio_is_read op' = aio_is_read op \<and> aio_f op' = aio_f op"
proof -
  have p: "op_result (aio_operation op) = None" "\<not> aio_is_cancelled op"
    using assms by (simp_all add: pending_def)
  obtain b o' k' where o': "op_io K k (aio_operation op) (aio_fd op) = Ok (b, o', k')"
    "(op_result o' \<noteq> None) = b"
    using anyop.io_pending [of "aio_operation op" K k "aio_fd op"] p(1) by auto
  then show ?thesis
    using p by (cases b) (auto simp: perform_io_def pending_def finished_def)
qed

lemma perform_io_registration:
  assumes "pending (Some (IoOp op))" and "perform_io K k op = Ok (b, op', k')"
    and "os_contract K efd wfd reg F"
  shows "reg k' = reg k \<and> F k \<subseteq> F k'"
proof -
  obtain o' where "op_io K k (aio_operation op) (aio_fd op) = Ok (b, o', k')"
    using assms(2) by (auto simp: perform_io_def run_bind_eq_Ok)
  then obtain r where "K k (op_syscall (aio_operation op) (aio_fd op)) = (r, k')"
    using op_io_kernel [of "aio_operation op" K k "aio_fd op" b o' k'] assms(1)
    by (auto simp: pending_def)
  then show ?thesis by (rule os_contract_other [OF assms(3) op_syscall_keeps])
qed

lemma attempted_status:
  assumes "pending x" and "attempted K events x x'"
  shows "is_aio x'" and "aio_fd (the_aio x') = aio_fd (the_aio x)"
    and "pending x' \<or> finished x'" and "interest (the_aio x') = interest (the_aio x)"
proof -
  obtain op where x: "x = Some (IoOp op)" using assms(1) by (auto simp: pending_def is_aio_iff)
  have "is_aio x' \<and> aio_fd (the_aio x') = aio_fd op \<and> (pending x' \<or> finished x')
      \<and> interest (the_aio x') = interest op"
  proof (cases "event_matches events op")
    case True
    then obtain k b op' k' where "perform_io K k op = Ok (b, op', k')" "x' = Some (IoOp op')"
      using assms(2) x by (auto simp: attempted_def)
    then show ?thesis
      using perform_io_ok [of op K k] assms(1) x by (auto simp: interest_def split: if_splits)
  next
    case False
    then show ?thesis using assms x by (auto simp: attempted_def)
  qed
  then show "is_aio x'" and "aio_fd (the_aio x') = aio_fd (the_aio x)"
    and "pending x' \<or> finished x'" and "interest (the_aio x') = interest (the_aio x)"
    using x by auto
qed

lemma world_update_order:
  "w\<lparr>kern := k, objs := x\<rparr> = w\<lparr>objs := x, kern := k\<rparr>"
  "w\<lparr>links := h, objs := x\<rparr> = w\<lparr>objs := x, links := h\<rparr>"
  "w\<lparr>kern := k, links := h\<rparr> = w\<lparr>links := h, kern := k\<rparr>"
  by (cases w, simp)+

text \<open>One round of the loop, for the first of the remaining operations of the descriptor.\<close>

lemma notify_fd_step:
  assumes c: "waking K efd reg F w"
    and l: "lists (links w) ((operations_list, us @ g # rest @ can) # (completion_queue, cq) # L)"
    and g: "pending (objs w g)" "fd_at w g = fd"
  shows "\<exists>h' k' x'. let w' = w\<lparr>objs := (objs w)(g \<mapsto> x'), links := h', kern := k'\<rparr>
    in attempted K events (objs w g) (Some x') \<and> op_completion x' = op_completion (the (objs w g))
     \<and> reg k' = reg (kern w) \<and> F (kern w) \<subseteq> F k'
     \<and> (if pending (Some x')
        then lists h' ((operations_list, (us @ [g]) @ rest @ can) # (completion_queue, cq) # L)
          \<and> notify_fd K events fd (hd (can @ [operations_list])) w g i p m
            = notify_fd K events fd (hd (can @ [operations_list])) w'
                (hd (rest @ can @ [operations_list])) (Suc i) p (or m (interest (aio_at w g)))
        else lists h' ((operations_list, us @ rest @ can) # (completion_queue, cq @ [g]) # L)
          \<and> notify_fd K events fd (hd (can @ [operations_list])) w g i p m
            = notify_fd K events fd (hd (can @ [operations_list])) w'
                (hd (rest @ can @ [operations_list])) (Suc i) (Suc p) m)"
proof -
  let ?s = operations_list and ?last = "hd (can @ [operations_list])"
  obtain op where op: "objs w g = Some (IoOp op)" using g(1) by (auto simp: pending_def is_aio_iff)
  have unfold: "notify_fd K events fd ?last w g i p m =
      (if \<not> event_matches events op
       then notify_fd K events fd ?last w (hd (rest @ can @ [?s])) (Suc i) p (or m (interest op))
       else run_bind (perform_io K (kern w) op) (\<lambda>(finished, item', k').
            let w = store_aio (w\<lparr>kern := k'\<rparr>) g item'
            in if \<not> finished
               then notify_fd K events fd ?last w (hd (rest @ can @ [?s])) (Suc i) p (or m (interest op))
               else run_bind (erase (links w) operations_list g) (\<lambda>(next_it, h).
                    run_bind (post K (w\<lparr>links := h\<rparr>) g) (\<lambda>w.
                    notify_fd K events fd ?last w next_it (Suc i) (Suc p) m))))"
    using hd_sentinel_eq [of "links w" ?s us "g # rest" can] lists_head [OF l] g op
      iter_inc_il [of "links w" ?s us g "rest @ can"]
    by (subst notify_fd.simps) (auto simp: deref_aio_is_aio event_matches_def Let_def cong: if_cong)
  show ?thesis
  proof (cases "event_matches events op")
    case False
    then show ?thesis
      using unfold op g l by (intro exI [of _ "links w"] exI [of _ "kern w"] exI [of _ "IoOp op"])
        (auto simp: attempted_def fun_upd_idem)
  next
    case True
    obtain b op' k1 where io: "perform_io K (kern w) op = Ok (b, op', k1)"
      "if b then finished (Some (IoOp op')) else pending (Some (IoOp op'))"
      "aio_f op' = aio_f op" "reg k1 = reg (kern w) \<and> F (kern w) \<subseteq> F k1"
      using perform_io_ok [of op K "kern w"] perform_io_registration [OF _ _ conjunct1 [OF c], of op "kern w"] g(1) op
      by force
    have at: "attempted K events (objs w g) (Some (IoOp op'))"
      using True op io(1) by (auto simp: attempted_def)
    show ?thesis
    proof (cases b)
      case False
      then show ?thesis
        using unfold True op io at l
        by (intro exI [of _ "links w"] exI [of _ k1] exI [of _ "IoOp op'"])
          (auto simp: store_aio_def world_update_order)
    next
      case b: True
      let ?w = "store_aio (w\<lparr>kern := k1\<rparr>) g op'"
      obtain h1 h2 k2 where e: "erase (links ?w) ?s g = Ok (hd (rest @ can @ [?s]), h1)"
        "post K (?w\<lparr>links := h1\<rparr>) g = Ok (?w\<lparr>links := h2, kern := k2\<rparr>)"
        "lists h2 ((?s, us @ rest @ can) # (completion_queue, cq @ [g]) # L)"
        "reg k2 = reg (kern ?w) \<and> F (kern ?w) \<subseteq> F k2"
        using erase_post_ok [of K efd ?w reg F us g "rest @ can" cq L] c l io(4)
        by (auto simp: store_aio_def world_update_order)
      have "\<not> pending (Some (IoOp op'))" using io(2) b by (simp add: finished_not_pending)
      then show ?thesis
        using unfold True b op io at e
        by (intro exI [of _ h2] exI [of _ k2] exI [of _ "IoOp op'"])
          (auto simp: store_aio_def world_update_order)
    qed
  qed
qed

text \<open>
  What polling makes of the world: the operations \<open>act\<close> in front of the cancelled ones are
  split into those that still wait, in their order, and the finished ones \<open>ds\<close>.
\<close>

definition keeps_world :: "addr set \<Rightarrow> 'k world \<Rightarrow> 'k world \<Rightarrow> bool" where
  "keeps_world A w w' \<longleftrightarrow> same_setup w w' \<and> begin_cancelled w' = begin_cancelled w
     \<and> poll_queue_length w' = poll_queue_length w \<and> (\<forall>a. a \<notin> A \<longrightarrow> objs w' a = objs w a)"

lemma keeps_world_refl [simp]: "keeps_world A w w"
  by (simp add: keeps_world_def)

lemma keeps_world_trans:
  "keeps_world A w w' \<Longrightarrow> keeps_world B w' w'' \<Longrightarrow> A \<subseteq> C \<Longrightarrow> B \<subseteq> C \<Longrightarrow> keeps_world C w w''"
  unfolding keeps_world_def using same_setup_trans [of w w' w'']
  by (auto; metis subsetD)

lemma keeps_world_kern [simp]: "keeps_world A w (w'\<lparr>kern := k\<rparr>) = keeps_world A w w'"
  by (simp add: keeps_world_def same_setup_def)

lemma keeps_world_step:
  assumes "objs w g \<noteq> None" and "op_completion x = op_completion (the (objs w g))"
    and "aio_fd (the_aio (Some x)) = fd_at w g"
  shows "keeps_world {g} w (w\<lparr>objs := (objs w)(g \<mapsto> x), links := h, kern := k\<rparr>)"
  using assms by (auto simp: keeps_world_def same_setup_def dom_def)

lemma keeps_world_setup:
  assumes "keeps_world A w w'"
  shows "wake_fd w' = wake_fd w" and "epoll_fd w' = epoll_fd w"
    and "begin_cancelled w' = begin_cancelled w" and "poll_queue_length w' = poll_queue_length w"
    and "a \<notin> A \<Longrightarrow> objs w' a = objs w a"
  using assms by (auto simp: keeps_world_def same_setup_def)

abbreviation still_waiting :: "'k world \<Rightarrow> addr list \<Rightarrow> addr list" where
  "still_waiting w \<equiv> filter (\<lambda>a. pending (objs w a))"

abbreviation done_now :: "'k world \<Rightarrow> addr list \<Rightarrow> addr list" where
  "done_now w \<equiv> filter (\<lambda>a. \<not> pending (objs w a))"

lemma interests_cong:
  "(\<And>a. a \<in> set xs \<Longrightarrow> objs w' a = objs w a) \<Longrightarrow> interests w' xs m = interests w xs m"
  unfolding interests_def by (rule fold_cong) auto

lemma notify_fd_run:
  assumes "waking K efd reg F w"
    and "lists (links w) ((operations_list, us @ gs @ vs @ can) # (completion_queue, cq) # L)"
    and "\<forall>a \<in> set gs. pending (objs w a) \<and> fd_at w a = fd"
    and "\<forall>a \<in> set vs. is_aio (objs w a) \<and> fd_at w a \<noteq> fd"
  shows "\<exists>w'. notify_fd K events fd (hd (can @ [operations_list])) w
        (hd (gs @ vs @ can @ [operations_list])) i p m
      = Ok (i + length gs, p + length (done_now w' gs), interests w (still_waiting w' gs) m, w')
    \<and> lists (links w') ((operations_list, us @ still_waiting w' gs @ vs @ can)
        # (completion_queue, cq @ done_now w' gs) # L)
    \<and> keeps_world (set gs) w w' \<and> reg (kern w') = reg (kern w) \<and> F (kern w) \<subseteq> F (kern w')
    \<and> (\<forall>a \<in> set gs. attempted K events (objs w a) (objs w' a))"
  using assms
proof (induction gs arbitrary: us w cq i p m)
  case Nil
  then have "notify_fd K events fd (hd (can @ [operations_list])) w
      (hd (vs @ can @ [operations_list])) i p m = Ok (i, p, m, w)"
    using hd_sentinel_eq [of "links w" operations_list us vs can] lists_head [OF Nil.prems(2)]
    by (cases vs; subst notify_fd.simps) (auto simp: deref_aio_is_aio)
  then show ?case using Nil.prems by auto
next
  case (Cons g gs)
  let ?s = operations_list and ?last = "hd (can @ [operations_list])"
  have gl: "lists (links w) ((?s, us @ g # (gs @ vs) @ can) # (completion_queue, cq) # L)"
    using Cons.prems(2) by simp
  have pg: "pending (objs w g)" "fd_at w g = fd" using Cons.prems(3) by auto
  have new: "g \<notin> set gs" "g \<notin> set vs" using lists_head [OF gl] by (auto simp: il_def)
  obtain h1 k1 x where step: "let w1 = w\<lparr>objs := (objs w)(g \<mapsto> x), links := h1, kern := k1\<rparr>
    in attempted K events (objs w g) (Some x) \<and> op_completion x = op_completion (the (objs w g))
     \<and> reg k1 = reg (kern w) \<and> F (kern w) \<subseteq> F k1
     \<and> (if pending (Some x)
        then lists h1 ((?s, (us @ [g]) @ (gs @ vs) @ can) # (completion_queue, cq) # L)
          \<and> notify_fd K events fd ?last w g i p m
            = notify_fd K events fd ?last w1 (hd ((gs @ vs) @ can @ [?s])) (Suc i) p
                (or m (interest (aio_at w g)))
        else lists h1 ((?s, us @ (gs @ vs) @ can) # (completion_queue, cq @ [g]) # L)
          \<and> notify_fd K events fd ?last w g i p m
            = notify_fd K events fd ?last w1 (hd ((gs @ vs) @ can @ [?s])) (Suc i) (Suc p) m)"
    using notify_fd_step [OF Cons.prems(1) gl pg, of events i p m] by blast
  define w1 where "w1 = w\<lparr>objs := (objs w)(g \<mapsto> x), links := h1, kern := k1\<rparr>"
  have k1: "keeps_world {g} w w1"
  proof -
    have "aio_fd (the_aio (Some x)) = fd_at w g"
      using step by (intro attempted_status(2) [OF pg(1), of K events]) (simp add: Let_def)
    then show ?thesis
      unfolding w1_def using step pg
      by (intro keeps_world_step) (auto simp: Let_def pending_def is_aio_iff)
  qed
  have w1: "links w1 = h1" "objs w1 = (objs w)(g \<mapsto> x)" "reg (kern w1) = reg (kern w) \<and> F (kern w) \<subseteq> F (kern w1)"
    "waking K efd reg F w1"
    using step Cons.prems(1) by (auto simp: w1_def Let_def)
  let ?us = "if pending (Some x) then us @ [g] else us" and ?cq = "if pending (Some x) then cq else cq @ [g]"
    and ?p = "if pending (Some x) then p else Suc p"
    and ?m = "if pending (Some x) then or m (interest (aio_at w g)) else m"
  have "lists (links w1) ((?s, ?us @ gs @ vs @ can) # (completion_queue, ?cq) # L)"
    using step w1(1) by (auto simp: Let_def split: if_splits)
  moreover have "\<forall>a \<in> set gs. pending (objs w1 a) \<and> fd_at w1 a = fd"
    and "\<forall>a \<in> set vs. is_aio (objs w1 a) \<and> fd_at w1 a \<noteq> fd"
    using Cons.prems(3,4) new w1(2) by auto
  ultimately obtain w' where w': "notify_fd K events fd ?last w1 (hd (gs @ vs @ can @ [?s])) (Suc i) ?p ?m
      = Ok (Suc i + length gs, ?p + length (done_now w' gs), interests w1 (still_waiting w' gs) ?m, w')"
    "lists (links w') ((?s, ?us @ still_waiting w' gs @ vs @ can)
        # (completion_queue, ?cq @ done_now w' gs) # L)"
    "keeps_world (set gs) w1 w'" "reg (kern w') = reg (kern w1) \<and> F (kern w1) \<subseteq> F (kern w')"
    "\<forall>a \<in> set gs. attempted K events (objs w1 a) (objs w' a)"
    using Cons.IH [of w1 ?us ?cq "Suc i" ?p ?m] w1(4) by blast
  have og: "objs w' g = Some x"
    using keeps_world_setup(5) [OF w'(3) new(1)] w1(2) by simp
  have "interests w1 (still_waiting w' gs) ?m = interests w (still_waiting w' gs) ?m"
    using new w1(2) by (intro interests_cong) auto
  moreover have "notify_fd K events fd ?last w g i p m
      = notify_fd K events fd ?last w1 (hd (gs @ vs @ can @ [?s])) (Suc i) ?p ?m"
    using step unfolding w1_def [symmetric] by (auto simp: Let_def split: if_splits)
  moreover have "keeps_world (set (g # gs)) w w'"
    by (rule keeps_world_trans [OF k1 w'(3)]) auto
  moreover have "\<forall>a \<in> set (g # gs). attempted K events (objs w a) (objs w' a)"
  proof -
    have "objs w1 a = objs w a" if "a \<in> set gs" for a using that new w1(2) by auto
    moreover have "attempted K events (objs w g) (Some x)" using step by (simp add: Let_def)
    ultimately show ?thesis using w'(5) og by simp
  qed
  ultimately show ?case
    using w' w1(3) og by (intro exI [of _ w']) auto
qed

end
