(* ===== verification/Poll_Once.thy ===== *)
theory Poll_Once
  imports Poll
begin

text \<open>
  The passes of \<^verbatim>\<open>poll_once\<close> put together: one event, all events of a call of
  \<^verbatim>\<open>epoll_pwait\<close>, the polling loop, and the whole function.
\<close>

section \<open>One event\<close>

lemma update_registration_ok:
  assumes c: "running K (epoll_fd w) reg F w" and fd: "fd \<in> F (kern w)" "fd \<noteq> epoll_fd w"
    and "items \<noteq> processed \<Longrightarrow> reg (kern w) fd \<noteq> None"
  shows "\<exists>k'. update_registration K w fd items processed ev m = Ok (w\<lparr>kern := k'\<rparr>)
    \<and> reg k' = (reg (kern w))(fd := if items = processed then None else Some m) \<and> F (kern w) \<subseteq> F k'"
proof (cases "items = processed")
  case True
  obtain r k1 where "K (kern w) (Sys_epoll_ctl (epoll_fd w) EPOLL_CTL_DEL fd ev) = (r, k1)"
    "sr_ret r = fst (ctl_answer EPOLL_CTL_DEL fd ev (reg (kern w)))"
    "sr_ret r < 0 \<longrightarrow> sr_errno r = fst (snd (ctl_answer EPOLL_CTL_DEL fd ev (reg (kern w))))"
    "reg k1 = snd (snd (ctl_answer EPOLL_CTL_DEL fd ev (reg (kern w))))" "F (kern w) \<subseteq> F k1"
    by (rule running_ctl [OF c fd])
  then show ?thesis
    using True by (cases "reg (kern w) fd")
      (auto simp: update_registration_def epoll_ctl_def ctl_answer_def fun_upd_idem)
next
  case False
  obtain r k1 where "K (kern w) (Sys_epoll_ctl (epoll_fd w) EPOLL_CTL_MOD fd m) = (r, k1)"
    "sr_ret r = fst (ctl_answer EPOLL_CTL_MOD fd m (reg (kern w)))"
    "reg k1 = snd (snd (ctl_answer EPOLL_CTL_MOD fd m (reg (kern w))))" "F (kern w) \<subseteq> F k1"
    by (rule running_ctl [OF c fd])
  then show ?thesis
    using False assms(4) by (auto simp: update_registration_def epoll_ctl_def ctl_answer_def)
qed

text \<open>The invariant without the queue length, which is brought up to date after a pass.\<close>

definition sched_core ::
  "'k world \<Rightarrow> addr list \<Rightarrow> addr list \<Rightarrow> addr list \<Rightarrow> owned \<Rightarrow> bool" where
  "sched_core w act can cq L \<longleftrightarrow>
     lists (links w) ((operations_list, act @ can) # (completion_queue, cq) # L)
     \<and> begin_cancelled w = hd (can @ [operations_list])
     \<and> (\<forall>a \<in> set act. pending (objs w a)) \<and> sorted (map (fd_at w) act)
     \<and> (\<forall>a \<in> set can. cancelled_op (objs w a)) \<and> (\<forall>a \<in> set cq. finished (objs w a))"

lemma sched_inv_core:
  "sched_inv w act can cq L \<longleftrightarrow> sched_core w act can cq L
     \<and> poll_queue_length w = of_nat (length act + length can) \<and> length act + length can < 2 ^ 64"
  by (auto simp: sched_inv_def sched_core_def)

text \<open>
  How polling splits the active operations \<open>act\<close>: those that still wait keep their order, the
  others are the finished ones \<open>ds\<close>; no other object changes.
\<close>

definition poll_effect :: "'k world \<Rightarrow> addr list \<Rightarrow> 'k world \<Rightarrow> addr list \<Rightarrow> addr list \<Rightarrow> bool" where
  "poll_effect w act w' act' ds \<longleftrightarrow>
     same_setup w w' \<and> (\<forall>a. a \<notin> set act \<longrightarrow> objs w' a = objs w a) \<and> act' = still_waiting w' act
     \<and> set ds = set (done_now w' act) \<and> length act = length act' + length ds"

lemma poll_effect_refl: "\<forall>a \<in> set act. pending (objs w a) \<Longrightarrow> poll_effect w act w act []"
  by (simp add: poll_effect_def filter_empty_conv)

lemma poll_effect_trans:
  assumes "poll_effect w act w1 act1 ds1" and "poll_effect w1 act1 w2 act2 ds2"
  shows "poll_effect w act w2 act2 (ds1 @ ds2)"
proof -
  have act1: "act1 = still_waiting w1 act" and act2: "act2 = still_waiting w2 act1"
    and ds: "set ds1 = set (done_now w1 act)" "set ds2 = set (done_now w2 act1)"
    and k: "\<And>a. a \<notin> set act1 \<Longrightarrow> objs w2 a = objs w1 a" "\<And>a. a \<notin> set act \<Longrightarrow> objs w1 a = objs w a"
    using assms by (auto simp: poll_effect_def)
  have stay: "objs w2 a = objs w1 a" if "\<not> pending (objs w1 a)" for a
    using k(1) [of a] act1 that by auto
  have "act2 = still_waiting w2 act"
    unfolding act2 act1 filter_filter using stay by (intro filter_cong refl) metis
  moreover have "set (ds1 @ ds2) = set (done_now w2 act)"
    using ds stay unfolding act1 by (auto; metis)
  moreover have "objs w2 a = objs w a" if "a \<notin> set act" for a using k that act1 by auto
  moreover have "same_setup w w2" "length act = length act2 + length (ds1 @ ds2)"
    using assms same_setup_trans [of w w1 w2] by (auto simp: poll_effect_def)
  ultimately show ?thesis unfolding poll_effect_def by blast
qed

definition polled ::
  "('k \<Rightarrow> fd \<rightharpoonup> u32) \<Rightarrow> ('k \<Rightarrow> fd set) \<Rightarrow> owned \<Rightarrow> addr list \<Rightarrow> 'k world \<Rightarrow> addr list \<Rightarrow> addr list
     \<Rightarrow> 'k world \<Rightarrow> addr list \<Rightarrow> addr list \<Rightarrow> bool" where
  "polled reg F L can w act cq w' act' ds \<longleftrightarrow>
     sched_core w' act' can (cq @ ds) L \<and> registered_inv reg F w' act'
     \<and> keeps_world (set act) w w' \<and> poll_effect w act w' act' ds \<and> F (kern w) \<subseteq> F (kern w')"

lemma polled_refl:
  assumes "sched_core w act can cq L" and "registered_inv reg F w act"
  shows "polled reg F L can w act cq w act []"
  using assms poll_effect_refl [of act w] by (simp add: polled_def sched_core_def)

lemma polled_trans:
  assumes "polled reg F L can w act cq w1 act1 ds1"
    and "polled reg F L can w1 act1 (cq @ ds1) w2 act2 ds2"
  shows "polled reg F L can w act cq w2 act2 (ds1 @ ds2)"
proof -
  have "set act1 \<subseteq> set act" using assms(1) by (auto simp: polled_def poll_effect_def)
  then have "keeps_world (set act) w w2"
    using assms keeps_world_trans [of "set act" w w1 "set act1" w2 "set act"] by (simp add: polled_def)
  then show ?thesis using assms poll_effect_trans [of w act w1 act1 ds1 w2] by (auto simp: polled_def)
qed

lemma length_done_waiting: "length (still_waiting w xs) + length (done_now w xs) = length xs"
  by (rule sum_length_filter_compl)

lemma registered_after_event:
  assumes reg: "registered_inv reg F w act"
    and same: "\<And>a. a \<in> set act \<Longrightarrow> fd_at w' a = fd_at w a"
    and sub: "set act' \<subseteq> set act" "\<And>a. a \<in> set act \<Longrightarrow> fd_at w a \<noteq> fd \<Longrightarrow> a \<in> set act'"
    and os: "wake_fd w' = wake_fd w" "epoll_fd w' = epoll_fd w" "F (kern w) \<subseteq> F (kern w')"
    and k: "reg (kern w') = (reg (kern w))(fd := x)" "x = None \<longleftrightarrow> (\<forall>a \<in> set act'. fd_at w a \<noteq> fd)"
  shows "registered_inv reg F w' act'"
  unfolding registered_inv_def
proof (intro conjI allI impI)
  have "fd_at w' ` set act' \<subseteq> fd_at w ` set act" using sub(1) same by (auto simp: image_iff subset_iff)
  then show "fd_at w' ` set act' \<subseteq> pollable F w'" using reg os by (auto simp: registered_inv_def)
  fix d assume d: "d \<noteq> wake_fd w'"
  show "reg (kern w') d \<noteq> None \<longleftrightarrow> d \<in> fd_at w' ` set act'"
  proof (cases "d = fd")
    case True
    have "d \<in> fd_at w' ` set act' \<longleftrightarrow> (\<exists>a \<in> set act'. fd_at w a = fd)"
      using True sub(1) same by (auto simp: image_iff subset_iff)
    then show ?thesis using k True by auto
  next
    case False
    have "d \<in> fd_at w' ` set act' \<longleftrightarrow> d \<in> fd_at w ` set act"
      using False sub same by (auto simp: image_iff subset_iff)
    then show ?thesis using k(1) reg d False os(1) by (auto simp: registered_inv_def)
  qed
qed

text \<open>What one event does to the active operations.\<close>

definition event_effect ::
  "'k kernel \<Rightarrow> epoll_event \<Rightarrow> 'k world \<Rightarrow> 'k world \<Rightarrow> addr list \<Rightarrow> bool" where
  "event_effect K e w w' act \<longleftrightarrow>
     (\<forall>a \<in> set act. if fd_at w a = ev_fd e then attempted K (ev_events e) (objs w a) (objs w' a)
                    else objs w' a = objs w a)"

lemma polled_event:
  assumes core: "sched_core w act can cq L" and reg: "registered_inv reg F w act"
    and l1: "lists (links w1) ((operations_list, below_fd w fd act @ still_waiting w1 (at_fd w fd act)
        @ above_fd w fd act @ can) # (completion_queue, cq @ done_now w1 (at_fd w fd act)) # L)"
    and kw: "keeps_world (set (at_fd w fd act)) w w1"
    and att: "\<forall>a \<in> set (at_fd w fd act). attempted K events (objs w a) (objs w1 a)"
    and k: "reg (kern w1) = (reg (kern w))
        (fd := if still_waiting w1 (at_fd w fd act) = [] then None else Some m)"
    and os: "F (kern w) \<subseteq> F (kern w1)"
  shows "polled reg F L can w act cq w1 (still_waiting w1 act) (done_now w1 (at_fd w fd act))"
proof -
  let ?us = "below_fd w fd act" and ?gs = "at_fd w fd act" and ?vs = "above_fd w fd act"
  have pe: "\<forall>a \<in> set act. pending (objs w a)" and so: "sorted (map (fd_at w) act)"
    and l: "lists (links w) ((operations_list, act @ can) # (completion_queue, cq) # L)"
    using core by (auto simp: sched_core_def)
  have bc: "begin_cancelled w1 = hd (can @ [operations_list])"
    using core keeps_world_setup(3) [OF kw] by (simp add: sched_core_def)
  have other: "objs w1 a = objs w a" if "a \<notin> set ?gs" for a
    by (rule keeps_world_setup(5) [OF kw that])
  have same: "fd_at w1 a = fd_at w a" if "a \<in> set act" for a
    using att other attempted_status(2) [of "objs w a" K events "objs w1 a"] pe that
    by (cases "a \<in> set ?gs") auto
  have fin: "finished (objs w1 a)" if "a \<in> set (done_now w1 ?gs)" for a
    using att attempted_status(3) [of "objs w a" K events "objs w1 a"] pe that by auto
  have waits: "pending (objs w1 a)" if "a \<in> set act" "fd_at w a \<noteq> fd" for a
    using that other pe by auto
  then have un: "still_waiting w1 ?us = ?us" "still_waiting w1 ?vs = ?vs"
    "done_now w1 ?us = []" "done_now w1 ?vs = []"
    by (auto simp del: filter_filter simp: filter_id_conv filter_empty_conv)
  have act': "still_waiting w1 act = ?us @ still_waiting w1 ?gs @ ?vs"
    using arg_cong [OF sorted_split [OF so, of fd], of "still_waiting w1"] un by (simp only: filter_append)
  have l1': "lists (links w1) ((operations_list, still_waiting w1 act @ can)
      # (completion_queue, cq @ done_now w1 ?gs) # L)"
    using l1 unfolding act' by simp
  have ds: "done_now w1 act = done_now w1 ?gs"
    using arg_cong [OF sorted_split [OF so, of fd], of "done_now w1"] un
    by (simp only: filter_append append_Nil append_Nil2)
  have dj: "a \<notin> set ?gs" if "a \<in> set can \<or> a \<in> set cq" for a
    using l that by (auto simp: lists_Cons il_def)
  have "sorted (map (fd_at w1) (still_waiting w1 act))"
  proof -
    have "map (fd_at w1) (still_waiting w1 act) = map (fd_at w) (still_waiting w1 act)"
      using same by auto
    then show ?thesis using sorted_filter [OF so, of "\<lambda>a. pending (objs w1 a)"] by metis
  qed
  moreover have "\<forall>a \<in> set (cq @ done_now w1 ?gs). finished (objs w1 a)"
    using core dj other fin by (auto simp: sched_core_def)
  moreover have "\<forall>a \<in> set can. cancelled_op (objs w1 a)"
    using core dj other by (simp add: sched_core_def)
  moreover have "\<forall>a \<in> set (still_waiting w1 act). pending (objs w1 a)" by simp
  ultimately have "sched_core w1 (still_waiting w1 act) can (cq @ done_now w1 ?gs) L"
    using l1' bc unfolding sched_core_def by blast
  moreover have "registered_inv reg F w1 (still_waiting w1 act)"
  proof (rule registered_after_event [OF reg same _ _ keeps_world_setup(1,2) [OF kw] os k])
    show "set (still_waiting w1 act) \<subseteq> set act" by simp
    show "a \<in> set (still_waiting w1 act)" if "a \<in> set act" "fd_at w a \<noteq> fd" for a
      using that waits by simp
    show "(if still_waiting w1 ?gs = [] then None else Some m) = None
        \<longleftrightarrow> (\<forall>a \<in> set (still_waiting w1 act). fd_at w a \<noteq> fd)"
      by (auto simp: filter_empty_conv)
  qed
  moreover have "keeps_world (set act) w w1"
    using keeps_world_trans [OF kw keeps_world_refl [of "{}"]] by auto
  ultimately show ?thesis
    using ds os length_done_waiting [of w1 act] by (simp add: polled_def poll_effect_def keeps_world_def)
qed

lemma notify_event_ok:
  assumes core: "sched_core w act can cq L" and reg: "registered_inv reg F w act"
    and c: "running K (epoll_fd w) reg F w" and e: "ev_fd e \<in> pollable F w"
  shows "\<exists>w'. process_event K (begin_cancelled w) w e = Ok (length (done_now w' (at_fd w (ev_fd e) act)), w')
    \<and> polled reg F L can w act cq w' (still_waiting w' act) (done_now w' (at_fd w (ev_fd e) act))
    \<and> event_effect K e w w' act
    \<and> reg (kern w') = (reg (kern w))(ev_fd e :=
        let ks = still_waiting w' (at_fd w (ev_fd e) act)
        in if ks = [] then None else Some (interests w ks 0))"
proof -
  let ?s = operations_list and ?fd = "ev_fd e"
  let ?us = "below_fd w ?fd act" and ?gs = "at_fd w ?fd act" and ?vs = "above_fd w ?fd act"
  have nw: "?fd \<noteq> wake_fd w" using e by simp
  have l: "lists (links w) ((?s, act @ can) # (completion_queue, cq) # L)"
    and bc: "begin_cancelled w = hd (can @ [?s])" and pe: "\<forall>a \<in> set act. pending (objs w a)"
    and so: "sorted (map (fd_at w) act)" and io: "\<forall>a \<in> set act. is_aio (objs w a)"
    using core by (auto simp: sched_core_def)
  note il = lists_head [OF l]
  have act: "act @ can = ?us @ ?gs @ ?vs @ can" using sorted_split [OF so] by (metis append_assoc)
  have l2: "lists (links w) ((?s, ?us @ ?gs @ ?vs @ can) # (completion_queue, cq) # L)"
    using l unfolding act .
  obtain w1 where n: "notify_fd K (ev_events e) ?fd (hd (can @ [?s])) w
        (hd (?gs @ ?vs @ can @ [?s])) 0 0 0
      = Ok (length ?gs, length (done_now w1 ?gs), interests w (still_waiting w1 ?gs) 0, w1)"
    "lists (links w1) ((?s, ?us @ still_waiting w1 ?gs @ ?vs @ can)
        # (completion_queue, cq @ done_now w1 ?gs) # L)"
    "keeps_world (set ?gs) w w1" "reg (kern w1) = reg (kern w) \<and> F (kern w) \<subseteq> F (kern w1)"
    "\<forall>a \<in> set ?gs. attempted K (ev_events e) (objs w a) (objs w1 a)"
    using notify_fd_run [OF conjunct1 [OF c] l2, of ?fd "ev_events e" 0 0 0] pe by auto
  let ?ks = "still_waiting w1 ?gs" and ?ds = "done_now w1 ?gs"
  have none: "length ?gs = length ?ds \<longleftrightarrow> ?ks = []"
    using length_done_waiting [of w1 ?gs] by auto
  have "reg (kern w1) ?fd \<noteq> None" if ks: "?ks \<noteq> []"
  proof -
    obtain a where "a \<in> set act" "fd_at w a = ?fd" using ks by (auto simp: filter_empty_conv)
    then have "?fd \<in> fd_at w ` set act" by (metis imageI)
    then show ?thesis using n(4) reg e by (simp add: registered_inv_def)
  qed
  then obtain k' where k': "update_registration K w1 ?fd (length ?gs) (length ?ds) (ev_events e)
      (interests w ?ks 0) = Ok (w1\<lparr>kern := k'\<rparr>)"
    "reg k' = (reg (kern w1))(?fd := if ?ks = [] then None else Some (interests w ?ks 0)) \<and> F (kern w1) \<subseteq> F k'"
    using update_registration_ok [of K w1 reg F ?fd "length ?gs" "length ?ds"
        "ev_events e" "interests w ?ks 0"] c keeps_world_setup(1,2) [OF n(3)] e n(4) none by auto
  have "process_event K (begin_cancelled w) w e = Ok (length ?ds, w1\<lparr>kern := k'\<rparr>)"
    using lower_bound_fd [OF il io so, of ?fd] il_begin_il [OF il] n(1) k'(1) nw bc
    by (simp add: process_event_def)
  moreover have "polled reg F L can w act cq (w1\<lparr>kern := k'\<rparr>) (still_waiting w1 act) ?ds"
    using polled_event [OF core reg, of "w1\<lparr>kern := k'\<rparr>" ?fd K "ev_events e"] n k'(2) by auto
  moreover have "event_effect K e w (w1\<lparr>kern := k'\<rparr>) act"
    using n(5) keeps_world_setup(5) [OF n(3)] by (auto simp: event_effect_def)
  ultimately show ?thesis using k'(2) n(4) by (intro exI [of _ "w1\<lparr>kern := k'\<rparr>"]) (simp add: Let_def)
qed

lemma wake_event_ok:
  assumes core: "sched_core w act can cq L" and reg: "registered_inv reg F w act"
    and c: "running K (epoll_fd w) reg F w" and e: "ev_fd e = wake_fd w"
  shows "\<exists>w'. process_event K (begin_cancelled w) w e = Ok (0, w')
    \<and> polled reg F L can w act cq w' act [] \<and> event_effect K e w w' act"
proof -
  have no: "fd_at w a \<noteq> wake_fd w" if "a \<in> set act" for a
    using that reg by (auto simp: registered_inv_def)
  obtain k' where k': "PollWakeEvent_reset K w = Ok (w\<lparr>kern := k'\<rparr>)" "reg k' = reg (kern w) \<and> F (kern w) \<subseteq> F k'"
    using reset_ok [OF conjunct1 [OF c]] by blast
  have "polled reg F L can w act cq (w\<lparr>kern := k'\<rparr>) act []"
    using polled_refl [OF core reg] k'(2)
    by (auto simp: polled_def sched_core_def registered_inv_def poll_effect_def same_setup_def)
  moreover have "event_effect K e w (w\<lparr>kern := k'\<rparr>) act"
    using no e by (auto simp: event_effect_def)
  ultimately show ?thesis
    using k'(1) e by (intro exI [of _ "w\<lparr>kern := k'\<rparr>"]) (simp add: process_event_def)
qed

lemma process_event_ok:
  assumes "sched_core w act can cq L" and "registered_inv reg F w act"
    and "running K (epoll_fd w) reg F w" and "ev_fd e \<in> F (kern w) - {epoll_fd w}"
  shows "\<exists>w' act' ds. process_event K (begin_cancelled w) w e = Ok (length ds, w')
    \<and> polled reg F L can w act cq w' act' ds \<and> event_effect K e w w' act"
proof (cases "ev_fd e = wake_fd w")
  case True
  then show ?thesis using wake_event_ok [OF assms(1-3) True] by fastforce
next
  case False
  then have "ev_fd e \<in> pollable F w" using assms(4) by simp
  then show ?thesis using notify_event_ok [OF assms(1-3)] by blast
qed

section \<open>All events, and the loop\<close>

lemma polled_setup:
  assumes "polled reg F L can w act cq w' act' ds"
  shows "sched_core w' act' can (cq @ ds) L" and "registered_inv reg F w' act'"
    and "wake_fd w' = wake_fd w" and "epoll_fd w' = epoll_fd w"
    and "begin_cancelled w' = begin_cancelled w" and "poll_queue_length w' = poll_queue_length w"
    and "F (kern w) \<subseteq> F (kern w')"
  using assms keeps_world_setup [of "set act" w w'] by (auto simp: polled_def)

lemma process_notifications_ok:
  assumes "sched_core w act can cq L" and "registered_inv reg F w act"
    and "running K (epoll_fd w) reg F w" and "ev_fd ` set es \<subseteq> F (kern w) - {epoll_fd w}"
  shows "\<exists>w' act' ds. process_notifications K (begin_cancelled w) w es n = Ok (n + length ds, w')
    \<and> polled reg F L can w act cq w' act' ds"
  using assms
proof (induction es arbitrary: w act cq n)
  case Nil
  then show ?case using polled_refl by fastforce
next
  case (Cons e es)
  obtain w1 act1 ds1 where 1: "process_event K (begin_cancelled w) w e = Ok (length ds1, w1)"
    "polled reg F L can w act cq w1 act1 ds1"
    using process_event_ok [OF Cons.prems(1-3), of e] Cons.prems(4) by auto
  note s = polled_setup [OF 1(2)]
  have os: "running K (epoll_fd w1) reg F w1" "ev_fd ` set es \<subseteq> F (kern w1) - {epoll_fd w1}"
    using Cons.prems(3,4) s(3,4,7) by auto
  obtain w2 act2 ds2 where 2: "process_notifications K (begin_cancelled w1) w1 es (n + length ds1)
      = Ok (n + length ds1 + length ds2, w2)" "polled reg F L can w1 act1 (cq @ ds1) w2 act2 ds2"
    using Cons.IH [OF s(1,2) os, of "n + length ds1"] by blast
  then show ?case
    using 1(1) s(5) polled_trans [OF 1(2) 2(2)]
    by (intro exI [of _ w2] exI [of _ act2] exI [of _ "ds1 @ ds2"]) (simp add: add.assoc)
qed

lemma decrement_count_ok:
  assumes "poll_queue_length w = of_nat n" and "n < 2 ^ 64" and "m \<le> n"
  shows "decrement_count w m = Ok (w\<lparr>poll_queue_length := of_nat (n - m)\<rparr>)"
proof -
  have "unat (of_nat n :: u64) = n" using assms(2) by (rule unat_u64)
  moreover have "(of_nat n :: u64) - of_nat m = of_nat (n - m)" using assms(3) by (simp add: of_nat_diff)
  ultimately show ?thesis using assms by (simp add: decrement_count_def)
qed

text \<open>The effect of a whole pass on a state that satisfies the invariant.\<close>

definition poll_inv ::
  "'k kernel \<Rightarrow> ('k \<Rightarrow> fd \<rightharpoonup> u32) \<Rightarrow> ('k \<Rightarrow> fd set) \<Rightarrow> 'k world \<Rightarrow> addr list \<Rightarrow> addr list \<Rightarrow> addr list \<Rightarrow> owned \<Rightarrow> bool" where
  "poll_inv K reg F w act can cq L \<longleftrightarrow> sched_inv w act can cq L \<and> registered_inv reg F w act
     \<and> running K (epoll_fd w) reg F w"

lemma poll_pass_ok:
  assumes inv: "poll_inv K reg F w act can cq L" and evs: "ev_fd ` set es \<subseteq> F (kern w) - {epoll_fd w}"
  shows "\<exists>w1 w' act' ds. process_notifications K (begin_cancelled w) w es 0 = Ok (length ds, w1)
    \<and> decrement_count w1 (length ds) = Ok w' \<and> poll_inv K reg F w' act' can (cq @ ds) L
    \<and> poll_effect w act w' act' ds \<and> F (kern w) \<subseteq> F (kern w')"
proof -
  have core: "sched_core w act can cq L" and n: "poll_queue_length w = of_nat (length act + length can)"
    "length act + length can < 2 ^ 64"
    and r: "registered_inv reg F w act" and c: "running K (epoll_fd w) reg F w"
    using inv by (auto simp: poll_inv_def sched_inv_core)
  obtain w1 act' ds where 1: "process_notifications K (begin_cancelled w) w es 0 = Ok (length ds, w1)"
    "polled reg F L can w act cq w1 act' ds"
    using process_notifications_ok [OF core r c evs, of 0] by auto
  note s = polled_setup [OF 1(2)]
  have len: "length act = length act' + length ds" using 1(2) by (simp add: polled_def poll_effect_def)
  let ?w = "w1\<lparr>poll_queue_length := of_nat (length act + length can - length ds)\<rparr>"
  have "decrement_count w1 (length ds) = Ok ?w"
    using n s(6) len by (intro decrement_count_ok) auto
  moreover have "poll_inv K reg F ?w act' can (cq @ ds) L"
    using s c len n(2) by (auto simp: poll_inv_def sched_inv_core sched_core_def registered_inv_def)
  moreover have "poll_effect w act ?w act' ds"
    using 1(2) by (simp add: polled_def poll_effect_def keeps_world_def same_setup_def)
  ultimately show ?thesis
    using 1(1) s(7) by (intro exI [of _ w1] exI [of _ ?w] exI [of _ act'] exI [of _ ds]) simp
qed

text \<open>One round of the polling loop, for any continuation in place of the next round.\<close>

definition poll_round ::
  "(int \<Rightarrow> nat \<Rightarrow> 'k world \<Rightarrow> ((exn + nat) \<times> 'k world) run) \<Rightarrow> 'k kernel \<Rightarrow> bool \<Rightarrow> int \<Rightarrow> nat
     \<Rightarrow> 'k world \<Rightarrow> ((exn + nat) \<times> 'k world) run" where
  "poll_round f K block timeout num_processed w =
     (let w = w\<lparr>threads_waiting := threads_waiting w + 1\<rparr>;
          (r, k') = K (kern w) (Sys_epoll_wait (epoll_fd w) kMaxEventsPerPoll timeout);
          w = w\<lparr>kern := k', threads_waiting := threads_waiting w - 1\<rparr>
      in if sr_ret r < 0 then Ok (Inl (SystemError (sr_errno r)), w)
         else run_bind (process_notifications K (begin_cancelled w) w (out_events r) 0) (\<lambda>(num, w).
              run_bind (decrement_count w num) (\<lambda>w.
              if nat (sr_ret r) = kMaxEventsPerPoll \<and> \<not> block
              then f 0 (num_processed + num) w
              else Ok (Inr (num_processed + num), w))))"

lemma poll_loop_round:
  "poll_loop K block timeout n w = poll_round (poll_loop K block) K block timeout n w"
  unfolding poll_round_def by (subst poll_loop.simps) simp

lemma poll_round_ok:
  assumes inv: "poll_inv K reg F w act can cq L"
    and wait: "K (kern w) (Sys_epoll_wait (epoll_fd w) kMaxEventsPerPoll t) = (r, k')"
  shows "if sr_ret r < 0
    then poll_inv K reg F (w\<lparr>kern := k'\<rparr>) act can cq L \<and> F (kern w) \<subseteq> F k'
      \<and> poll_round f K block t n w = Ok (Inl (SystemError (sr_errno r)), w\<lparr>kern := k'\<rparr>)
    else \<exists>w' act' ds. poll_inv K reg F w' act' can (cq @ ds) L \<and> poll_effect w act w' act' ds
      \<and> F (kern w) \<subseteq> F (kern w') \<and> poll_round f K block t n w =
          (if nat (sr_ret r) = kMaxEventsPerPoll \<and> \<not> block then f 0 (n + length ds) w'
           else Ok (Inr (n + length ds), w'))"
proof -
  let ?w = "w\<lparr>kern := k'\<rparr>"
  have c: "running K (epoll_fd w) reg F w" using inv by (simp add: poll_inv_def)
  have reg: "reg k' = reg (kern w) \<and> F (kern w) \<subseteq> F k'"
    by (rule os_contract_other [OF conjunct1 [OF conjunct1 [OF c]] _ wait]) simp
  then have inv': "poll_inv K reg F ?w act can cq L"
    using inv by (auto simp: poll_inv_def sched_inv_def registered_inv_def)
  show ?thesis
  proof (cases "sr_ret r < 0")
    case True
    then show ?thesis using inv' wait reg by (simp add: poll_round_def)
  next
    case False
    then obtain evs where evs: "sr_out r = OutEvents evs" "int (length evs) = sr_ret r"
      "ev_fd ` set evs \<subseteq> F k' - {epoll_fd w}"
      using os_contract_wait [OF conjunct1 [OF conjunct1 [OF c]] wait] c reg by fastforce
    then have out: "out_events r = evs" by (simp add: out_events_def flip: evs(2))
    obtain w1 w' act' ds where p: "process_notifications K (begin_cancelled ?w) ?w evs 0 = Ok (length ds, w1)"
      "decrement_count w1 (length ds) = Ok w'" "poll_inv K reg F w' act' can (cq @ ds) L"
      "poll_effect ?w act w' act' ds" "F k' \<subseteq> F (kern w')"
      using poll_pass_ok [OF inv', of evs] evs(3) by auto
    have "poll_effect w act w' act' ds"
      using p(4) by (simp add: poll_effect_def same_setup_def)
    moreover have "poll_round f K block t n w =
        (if nat (sr_ret r) = kMaxEventsPerPoll \<and> \<not> block then f 0 (n + length ds) w'
         else Ok (Inr (n + length ds), w'))"
      using False p(1,2) wait out by (simp add: poll_round_def)
    moreover have "F (kern w) \<subseteq> F (kern w')" using p(5) reg by blast
    ultimately show ?thesis using False p(3) by (auto simp only: if_False)
  qed
qed

text \<open>What is guaranteed of every call that returns.\<close>

definition poll_post ::
  "'k kernel \<Rightarrow> ('k \<Rightarrow> fd \<rightharpoonup> u32) \<Rightarrow> ('k \<Rightarrow> fd set) \<Rightarrow> owned \<Rightarrow> 'k world \<Rightarrow> addr list \<Rightarrow> addr list \<Rightarrow> addr list
     \<Rightarrow> nat \<Rightarrow> (fault + ((exn + nat) \<times> 'k world)) \<Rightarrow> bool" where
  "poll_post K reg F L w act can cq n y \<longleftrightarrow>
     (\<exists>r w' act' ds. y = Inr (r, w') \<and> poll_inv K reg F w' act' can (cq @ ds) L
        \<and> poll_effect w act w' act' ds \<and> F (kern w) \<subseteq> F (kern w')
        \<and> (case r of Inl e \<Rightarrow> \<exists>en. e = SystemError en | Inr m \<Rightarrow> m = n + length ds))"

lemma poll_post_later:
  assumes "poll_effect w act w1 act1 ds1" and "F (kern w) \<subseteq> F (kern w1)"
    and "poll_post K reg F L w1 act1 can (cq @ ds1) (n + length ds1) y"
  shows "poll_post K reg F L w act can cq n y"
proof -
  obtain r w' act' ds where y: "y = Inr (r, w')" "poll_inv K reg F w' act' can ((cq @ ds1) @ ds) L"
    "poll_effect w1 act1 w' act' ds" "F (kern w1) \<subseteq> F (kern w')"
    "case r of Inl e \<Rightarrow> \<exists>en. e = SystemError en | Inr m \<Rightarrow> m = n + length ds1 + length ds"
    using assms(3) unfolding poll_post_def by blast
  show ?thesis
    unfolding poll_post_def
    using y assms(2) poll_effect_trans [OF assms(1) y(3)]
    by (intro exI [of _ r] exI [of _ w'] exI [of _ act'] exI [of _ "ds1 @ ds"])
      (auto split: sum.splits)
qed

lemma poll_effect_kern [simp]:
  "poll_effect w act (w'\<lparr>kern := k\<rparr>) act' ds = poll_effect w act w' act' ds"
  by (simp add: poll_effect_def same_setup_def)

lemma poll_inv_effect_refl: "poll_inv K reg F w act can cq L \<Longrightarrow> poll_effect w act w act []"
  by (rule poll_effect_refl) (auto simp: poll_inv_def sched_inv_def)

lemma poll_round_post:
  assumes inv: "poll_inv K reg F w act can cq L" and run: "poll_round f K block t n w = Some y"
    and f: "\<And>t n w act cq y. poll_inv K reg F w act can cq L \<Longrightarrow> f t n w = Some y
      \<Longrightarrow> poll_post K reg F L w act can cq n y"
  shows "poll_post K reg F L w act can cq n y"
proof -
  obtain r k' where wait: "K (kern w) (Sys_epoll_wait (epoll_fd w) kMaxEventsPerPoll t) = (r, k')"
    by fastforce
  note ok = poll_round_ok [OF inv wait, of f block n]
  show ?thesis
  proof (cases "sr_ret r < 0")
    case True
    then show ?thesis
      using ok run poll_inv_effect_refl [OF inv]
      unfolding poll_post_def by (intro exI [of _ "Inl (SystemError (sr_errno r))"]
          exI [of _ "w\<lparr>kern := k'\<rparr>"] exI [of _ act] exI [of _ "[]"]) auto
  next
    case False
    then obtain w' act' ds where s: "poll_inv K reg F w' act' can (cq @ ds) L" "poll_effect w act w' act' ds"
      "F (kern w) \<subseteq> F (kern w')" "poll_round f K block t n w =
          (if nat (sr_ret r) = kMaxEventsPerPoll \<and> \<not> block then f 0 (n + length ds) w'
           else Ok (Inr (n + length ds), w'))"
      using ok by auto
    show ?thesis
    proof (cases "nat (sr_ret r) = kMaxEventsPerPoll \<and> \<not> block")
      case True
      then have "f 0 (n + length ds) w' = Some y" using s(4) run by simp
      then show ?thesis by (rule poll_post_later [OF s(2,3) f [OF s(1)]])
    next
      case False
      then have "y = Inr (Inr (n + length ds), w')" using s(4) run by auto
      then show ?thesis using s(1-3) unfolding poll_post_def by auto
    qed
  qed
qed

lemma poll_loop_post:
  assumes "poll_loop K block t n w = Some y" and "poll_inv K reg F w act can cq L"
  shows "poll_post K reg F L w act can cq n y"
proof -
  let ?P = "\<lambda>K' (block :: bool) (t :: int) n w y.
    K' = K \<longrightarrow> (\<forall>act cq. poll_inv K reg F w act can cq L \<longrightarrow> poll_post K reg F L w act can cq n y)"
  have "?P K block t n w y"
  proof (rule poll_loop.raw_induct [where P = ?P, rotated])
    show "poll_loop K block t n w = Some y" by (rule assms(1))
  next
    fix f and K' :: "'a kernel" and block t n w y
    assume IH: "\<And>K' block t n w y. f K' block t n w = Some y \<Longrightarrow> ?P K' block t n w y"
      and eq: "(let w = w\<lparr>threads_waiting := threads_waiting w + 1\<rparr>;
          (r, k') = K' (kern w) (Sys_epoll_wait (epoll_fd w) kMaxEventsPerPoll t);
          w = w\<lparr>kern := k', threads_waiting := threads_waiting w - 1\<rparr>
      in if sr_ret r < 0 then Ok (Inl (SystemError (sr_errno r)), w)
         else run_bind (process_notifications K' (begin_cancelled w) w (out_events r) 0) (\<lambda>(num, w).
              run_bind (decrement_count w num) (\<lambda>w.
              if nat (sr_ret r) = kMaxEventsPerPoll \<and> \<not> block
              then f K' block 0 (n + num) w
              else Ok (Inr (n + num), w)))) = Some y"
    show "?P K' block t n w y"
    proof (intro impI allI)
      fix act cq assume K: "K' = K" and inv: "poll_inv K reg F w act can cq L"
      have "poll_round (f K block) K block t n w = Some y"
        using eq unfolding K poll_round_def .
      then show "poll_post K reg F L w act can cq n y"
        using IH by (intro poll_round_post [OF inv]) blast+
    qed
  qed
  then show ?thesis using assms(2) by blast
qed

lemma poll_loop_returns:
  assumes inv: "poll_inv K reg F w act can cq L"
    and few: "block \<or> (\<forall>k. sr_ret (fst (K k (Sys_epoll_wait (epoll_fd w) kMaxEventsPerPoll t)))
      \<noteq> int kMaxEventsPerPoll)"
  shows "\<exists>y. poll_loop K block t n w = Some y"
proof -
  obtain r k' where wait: "K (kern w) (Sys_epoll_wait (epoll_fd w) kMaxEventsPerPoll t) = (r, k')"
    by fastforce
  have "block \<or> sr_ret r \<noteq> int kMaxEventsPerPoll" using few wait by (metis fst_conv)
  then have "\<not> (nat (sr_ret r) = kMaxEventsPerPoll \<and> \<not> block)" by (auto simp: kMaxEventsPerPoll_def)
  then show ?thesis
    using poll_round_ok [OF inv wait, of "poll_loop K block" block n]
    by (subst poll_loop_round) (auto split: if_splits)
qed

section \<open>The whole function\<close>

lemma poll_cancelled_ok:
  assumes inv: "poll_inv K reg F w act can cq L"
  shows "\<exists>w1 w2. process_cancellations K w (begin_cancelled w) operations_list 0
      = Ok (operations_list, length can, w1)
    \<and> decrement_count (w1\<lparr>begin_cancelled := operations_list\<rparr>) (length can) = Ok w2
    \<and> poll_inv K reg F w2 act [] (cq @ can) L \<and> objs w2 = objs w \<and> same_setup w w2
    \<and> F (kern w) \<subseteq> F (kern w2)"
proof -
  have l: "lists (links w) ((operations_list, act @ can) # (completion_queue, cq) # L)"
    and bc: "begin_cancelled w = hd (can @ [operations_list])"
    and c: "running K (epoll_fd w) reg F w"
    using inv by (auto simp: poll_inv_def sched_inv_def)
  obtain h' k' where p: "process_cancellations K w (hd (can @ [operations_list])) operations_list 0
      = Ok (operations_list, length can, w\<lparr>links := h', kern := k'\<rparr>)"
    "lists h' ((operations_list, act) # (completion_queue, cq @ can) # L)" "reg k' = reg (kern w) \<and> F (kern w) \<subseteq> F k'"
    using process_cancellations_run [OF conjunct1 [OF c] l, of 0] by auto
  let ?w1 = "w\<lparr>links := h', kern := k', begin_cancelled := operations_list\<rparr>"
  let ?w2 = "?w1\<lparr>poll_queue_length := of_nat (length act + length can - length can)\<rparr>"
  have "decrement_count ?w1 (length can) = Ok ?w2"
    using inv by (intro decrement_count_ok) (auto simp: poll_inv_def sched_inv_def)
  moreover have "poll_inv K reg F ?w2 act [] (cq @ can) L"
    using inv p(2,3) by (auto simp: poll_inv_def sched_inv_def registered_inv_def)
  ultimately show ?thesis
    using p(1,3) bc by (auto simp: same_setup_def)
qed

lemma poll_once_cases:
  assumes inv: "poll_inv K reg F w act can cq L"
  shows "\<exists>w1. poll_inv K reg F w1 act [] (cq @ can) L \<and> objs w1 = objs w \<and> same_setup w w1
    \<and> F (kern w) \<subseteq> F (kern w1)
    \<and> poll_once K block w =
        (if act = [] then Ok (Inr 0, w1)
         else poll_loop K block (if block \<and> can = [] then -1 else 0) 0 w1)"
proof -
  obtain w1 w2 where p: "process_cancellations K w (begin_cancelled w) operations_list 0
      = Ok (operations_list, length can, w1)"
    "decrement_count (w1\<lparr>begin_cancelled := operations_list\<rparr>) (length can) = Ok w2"
    and inv2: "poll_inv K reg F w2 act [] (cq @ can) L" and s: "objs w2 = objs w" "same_setup w w2" "F (kern w) \<subseteq> F (kern w2)"
    using poll_cancelled_ok [OF inv] by blast
  have il: "il (links w2) operations_list act" and bc: "begin_cancelled w2 = operations_list"
    and n: "act = [] \<Longrightarrow> poll_queue_length w2 = 0"
    using inv2 by (auto simp: poll_inv_def sched_inv_def lists_Cons)
  have "hd (act @ [operations_list]) = operations_list \<longleftrightarrow> act = []"
    using il by (cases act) (auto simp: il_def)
  then have "poll_once K block w =
        (if act = [] then Ok (Inr 0, w2)
         else poll_loop K block (if block \<and> can = [] then -1 else 0) 0 w2)"
    using p n bc il_begin_il [OF il] by (simp add: poll_once_def il_end_def)
  then show ?thesis using inv2 s by blast
qed

lemma poll_once_outcome:
  assumes "poll_inv K reg F w act can cq L" and "poll_once K block w = Some y"
  shows "\<exists>r w' act' ds. y = Inr (r, w')
        \<and> poll_inv K reg F w' act' [] (cq @ can @ ds) L \<and> poll_effect w act w' act' ds
        \<and> F (kern w) \<subseteq> F (kern w')
        \<and> (case r of Inl e \<Rightarrow> \<exists>en. e = SystemError en | Inr m \<Rightarrow> m = length ds)"
proof -
  obtain w1 where w1: "poll_inv K reg F w1 act [] (cq @ can) L" "objs w1 = objs w" "same_setup w w1"
    "F (kern w) \<subseteq> F (kern w1)" "poll_once K block w = (if act = [] then Ok (Inr 0, w1)
       else poll_loop K block (if block \<and> can = [] then -1 else 0) 0 w1)"
    using poll_once_cases [OF assms(1)] by blast
  have "poll_post K reg F L w1 act [] (cq @ can) 0 y"
  proof (cases "act = []")
    case True
    then show ?thesis
      using w1(1,5) assms(2) poll_inv_effect_refl [OF w1(1)] unfolding poll_post_def
      by (intro exI [of _ "Inr 0"] exI [of _ w1] exI [of _ act] exI [of _ "[]"]) auto
  next
    case False
    then show ?thesis using w1(1,5) assms(2) by (auto intro: poll_loop_post)
  qed
  then obtain r w' act' ds where p: "y = Inr (r, w')" "poll_inv K reg F w' act' [] ((cq @ can) @ ds) L"
    "poll_effect w1 act w' act' ds" "F (kern w1) \<subseteq> F (kern w')"
    "case r of Inl e \<Rightarrow> \<exists>en. e = SystemError en | Inr m \<Rightarrow> m = 0 + length ds"
    unfolding poll_post_def by blast
  moreover have "poll_effect w act w' act' ds"
    using p(3) w1(2) same_setup_trans [OF w1(3)] by (auto simp: poll_effect_def)
  ultimately show ?thesis using w1(4) unfolding append_assoc add_0 by blast
qed

lemma poll_once_returns_if_few:
  assumes "poll_inv K reg F w act can cq L"
    and few: "block \<or> (\<forall>k t. sr_ret (fst (K k (Sys_epoll_wait (epoll_fd w) kMaxEventsPerPoll t)))
      \<noteq> int kMaxEventsPerPoll)"
  shows "\<exists>y. poll_once K block w = Some y"
proof -
  obtain w1 where w1: "poll_inv K reg F w1 act [] (cq @ can) L" "same_setup w w1"
    "poll_once K block w = (if act = [] then Ok (Inr 0, w1)
       else poll_loop K block (if block \<and> can = [] then -1 else 0) 0 w1)"
    using poll_once_cases [OF assms(1)] by blast
  have "epoll_fd w1 = epoll_fd w" using w1(2) by (simp add: same_setup_def)
  then have "\<exists>y. poll_loop K block t 0 w1 = Some y" for t
    using few by (intro poll_loop_returns [OF w1(1)]) auto
  then show ?thesis using w1(3) by auto
qed

section \<open>The other operations keep the invariant\<close>

lemma registered_schedule:
  assumes "registered_inv reg F w act" and "fd_at w a \<in> pollable F w"
    and "reg k' = (reg (kern w))(fd_at w a \<mapsto> m) \<and> F (kern w) \<subseteq> F k'"
    and "objs w' = objs w" and "kern w' = k'" and "wake_fd w' = wake_fd w" and "epoll_fd w' = epoll_fd w"
  shows "registered_inv reg F w' (insert_sorted w a act)"
  using assms by (auto simp: registered_inv_def)

lemma schedule_keeps:
  assumes "poll_inv K reg F w act can cq L"
    and "a \<notin> set (owned_items ((operations_list, act @ can) # (completion_queue, cq) # L))"
    and "allocated (links w) a" and "pending (objs w a)" and "fd_at w a \<in> pollable F w"
    and "Suc (length act + length can) < 2 ^ 64"
  shows "\<exists>w'. schedule K w a = Ok w' \<and> same_setup w w' \<and> objs w' = objs w \<and> F (kern w) \<subseteq> F (kern w')
    \<and> poll_inv K reg F w'
        (filter (\<lambda>b. fd_at w b \<le> fd_at w a) act @ a # filter (\<lambda>b. fd_at w a < fd_at w b) act) can cq L"
proof -
  have inv: "sched_inv w act can cq L" "registered_inv reg F w act"
    "running K (epoll_fd w) reg F w"
    using assms(1) by (auto simp: poll_inv_def)
  obtain h' k' where s: "schedule K w a
      = Ok (w\<lparr>kern := k', links := h', poll_queue_length := poll_queue_length w + 1\<rparr>)"
    "sched_inv (w\<lparr>kern := k', links := h', poll_queue_length := poll_queue_length w + 1\<rparr>)
        (insert_sorted w a act) can cq L"
    "reg k' = (reg (kern w))(fd_at w a \<mapsto> schedule_mask w act a) \<and> F (kern w) \<subseteq> F k'"
    using schedule_ok [OF inv(1,3) assms(2-6)] by blast
  then show ?thesis
    using registered_schedule [OF inv(2) assms(5) s(3)] inv(3)
    by (auto simp: poll_inv_def same_setup_def insert_sorted_def)
qed

lemma cancel_cases:
  assumes "poll_inv K reg F w act can cq L" and "fd \<in> pollable F w"
    and gs: "gs = filter (\<lambda>a. fd_at w a = fd) act"
  shows "if gs = [] then cancel K w fd = Ok w
    else if 2 \<le> length gs \<and> (\<forall>a \<in> set act. fd_at w a \<le> fd) \<and> (length gs < length act \<or> can \<noteq> [])
    then cancel K w fd = Diverges
    else \<exists>w'. cancel K w fd = Ok w'
      \<and> poll_inv K reg F w' (filter (\<lambda>a. fd_at w a \<noteq> fd) act) (gs @ can) cq L
      \<and> same_setup w w' \<and> F (kern w) \<subseteq> F (kern w') \<and> (\<forall>a. a \<notin> set gs \<longrightarrow> objs w' a = objs w a)"
proof -
  let ?us = "below_fd w fd act" and ?vs = "above_fd w fd act"
  have inv: "sched_inv w act can cq L" "registered_inv reg F w act"
    "running K (epoll_fd w) reg F w"
    using assms(1) by (auto simp: poll_inv_def)
  have il: "il (links w) operations_list (act @ can)" and io: "\<forall>a \<in> set act. is_aio (objs w a)"
    and so: "sorted (map (fd_at w) act)" and bc: "begin_cancelled w = hd (can @ [operations_list])"
    using inv(1) by (auto simp: sched_inv_def dest: lists_head)
  have len: "length act = length ?us + length gs + length ?vs"
    using arg_cong [OF sorted_split [OF so, of fd], of length] gs by simp
  have vs: "?vs = [] \<longleftrightarrow> (\<forall>a \<in> set act. fd_at w a \<le> fd)"
    by (auto simp: filter_empty_conv not_less)
  have stuck: "cancel_stuck ?us gs ?vs can \<longleftrightarrow>
      2 \<le> length gs \<and> (\<forall>a \<in> set act. fd_at w a \<le> fd) \<and> (length gs < length act \<or> can \<noteq> [])"
    using len unfolding cancel_stuck_def vs [symmetric] by auto
  consider "gs = []" | "gs \<noteq> []" "cancel_stuck ?us gs ?vs can" | "gs \<noteq> []" "\<not> cancel_stuck ?us gs ?vs can"
    by blast
  then show ?thesis
  proof cases
    case 1
    then have "cancel K w fd = Ok w"
      using lower_bound_fd [OF il io so, of fd] cancel_range [OF il io so, of fd]
        il_begin_il [OF il] bc gs by (simp add: cancel_def)
    then show ?thesis using 1 by simp
  next
    case 2
    have "il (links w) operations_list (?us @ gs @ ?vs @ can)"
      using il sorted_split [OF so, of fd] gs by (metis append_assoc)
    then have "cancel K w fd = Diverges"
      using cancel_unfold [OF il io so bc, of fd K] splice_cancelled_stuck [OF _ 2(2)] 2(1) gs by simp
    then show ?thesis using 2 stuck by simp
  next
    case 3
    obtain h' k' where c: "let w' = w\<lparr>objs := mark_cancelled gs (objs w), links := h',
        begin_cancelled := hd gs, kern := k'\<rparr>
      in cancel K w fd = Ok w' \<and> sched_inv w' (filter (\<lambda>a. fd_at w a \<noteq> fd) act) (gs @ can) cq L
       \<and> reg k' = (reg (kern w))(fd := None) \<and> F (kern w) \<subseteq> F k'"
      using cancel_ok [OF inv(1,3) assms(2)] 3 gs by auto
    let ?w = "w\<lparr>objs := mark_cancelled gs (objs w), links := h', begin_cancelled := hd gs, kern := k'\<rparr>"
    have "registered_inv reg F ?w (filter (\<lambda>a. fd_at w a \<noteq> fd) act)"
      by (rule registered_after_event [OF inv(2), where x = None])
        (use c in \<open>auto simp: Let_def mark_cancelled_fd\<close>)
    moreover have "same_setup w ?w"
      using io gs by (intro mark_cancelled_setup) auto
    ultimately show ?thesis
      using 3 stuck c inv(3) by (auto simp: Let_def poll_inv_def mark_cancelled_other)
  qed
qed

end
