(* ===== verification/Context_Invariant.thy ===== *)
theory Context_Invariant
  imports Context_Thread Poll_Once "HOL-Library.Multiset"
begin

text \<open>
  The invariant of a whole context and that everything a completion handler can call keeps it.

  On top of the scheduler's invariant: the live objects are exactly the items of the lists, so
  nothing leaks and nothing in a list has been freed; the items of the temporary lists \<open>L\<close> are
  ready to be dispatched; every object owns at least one active \<^verbatim>\<open>Work\<close>, because every way
  to start an operation wraps its handler; \<^verbatim>\<open>remaining_count_\<close> is the number of active
  \<^verbatim>\<open>Work\<close> objects, those of the live objects plus \<open>ext\<close> that live elsewhere (in a handler that
  is running, or held by the user).

  Descriptors: \<open>U\<close> are the open descriptors of the user's objects, and a closure may own the
  descriptor of a detached object, which its destructor closes. Every such descriptor has one
  owner, a live object or a closure that lives elsewhere (\<open>D\<close>), and none of them is the user's.
  An active operation waits for a descriptor of the user or for one that its own closure owns, so
  closing the latter never takes a descriptor away from the scheduler. Closures of detached
  acceptors, which assign to an I/O object, are left to the theorems on \<^verbatim>\<open>accept\<close>.
\<close>

section \<open>Invariant\<close>

abbreviation closure_at :: "'k world \<Rightarrow> addr \<Rightarrow> completion" where
  "closure_at w a \<equiv> op_completion (the (objs w a))"

text \<open>What the closures of the live objects hold together: their work and their descriptors.\<close>

definition closure_sum :: "(completion \<Rightarrow> 'a :: comm_monoid_add) \<Rightarrow> 'k world \<Rightarrow> 'a" where
  "closure_sum g w = (\<Sum>a \<in> dom (objs w). g (closure_at w a))"

definition own_fds :: "completion \<Rightarrow> fd multiset" where
  "own_fds f = mset (owned_fds f)"

lemma own_fds_simps [simp]:
  "own_fds (Fn n) = {#}" "own_fds (WrapWork b f) = own_fds f" "own_fds (BindResult r f) = own_fds f"
  "own_fds (OwnFd fd f) = add_mset fd (own_fds f)" "own_fds (AcceptInto t f) = own_fds f"
  by (simp_all add: own_fds_def)

abbreviation obj_work :: "'k world \<Rightarrow> addr \<Rightarrow> nat" where
  "obj_work w a \<equiv> active_work (closure_at w a)"

abbreviation works :: "'k world \<Rightarrow> nat" where
  "works w \<equiv> closure_sum active_work w"

abbreviation obj_fds :: "'k world \<Rightarrow> addr \<Rightarrow> fd multiset" where
  "obj_fds w a \<equiv> own_fds (closure_at w a)"

abbreviation fds_owned :: "'k world \<Rightarrow> fd multiset" where
  "fds_owned w \<equiv> closure_sum own_fds w"

text \<open>At least one active \<^verbatim>\<open>Work\<close>, and no assignment to an I/O object.\<close>

primrec plain_closure :: "completion \<Rightarrow> bool" where
  "plain_closure (Fn _) = True"
| "plain_closure (WrapWork _ f) = plain_closure f"
| "plain_closure (BindResult _ f) = plain_closure f"
| "plain_closure (OwnFd _ f) = plain_closure f"
| "plain_closure (AcceptInto _ f) = False"

definition well_wrapped :: "completion \<Rightarrow> bool" where
  "well_wrapped f \<longleftrightarrow> 0 < active_work f \<and> plain_closure f"

definition items_of :: "owned \<Rightarrow> addr list" where
  "items_of L = concat (map snd L)"

text \<open>Every descriptor has one owner.\<close>

definition fds_inv ::
  "('k \<Rightarrow> fd set) \<Rightarrow> fd set \<Rightarrow> 'k world \<Rightarrow> addr list \<Rightarrow> fd multiset \<Rightarrow> bool" where
  "fds_inv F U w act D \<longleftrightarrow> U \<subseteq> pollable F w
     \<and> set_mset (D + fds_owned w) \<subseteq> pollable F w - U
     \<and> (\<forall>fd. count (D + fds_owned w) fd \<le> 1)
     \<and> (\<forall>a \<in> set act. fd_at w a \<in> U \<or> fd_at w a \<in># obj_fds w a)"

definition ctx_inv ::
  "'k kernel \<Rightarrow> ('k \<Rightarrow> fd \<rightharpoonup> u32) \<Rightarrow> ('k \<Rightarrow> fd set) \<Rightarrow> fd set \<Rightarrow> 'k world \<Rightarrow> addr list \<Rightarrow> addr list
     \<Rightarrow> addr list \<Rightarrow> owned \<Rightarrow> nat \<Rightarrow> fd multiset \<Rightarrow> bool" where
  "ctx_inv K reg F U w act can cq L ext D \<longleftrightarrow>
     poll_inv K reg F w act can cq L \<and> fds_inv F U w act D
     \<and> dom (objs w) = set act \<union> set can \<union> set cq \<union> set (items_of L)
     \<and> (\<forall>a \<in> set (items_of L). finished (objs w a))
     \<and> (\<forall>a \<in> dom (objs w). well_wrapped (closure_at w a))
     \<and> (\<forall>a \<in> set (owned_items ((operations_list, act @ can) # (completion_queue, cq) # L)).
          a < next_addr w)
     \<and> remaining_count w = of_nat (works w + ext) \<and> works w + ext < 2 ^ 64"

text \<open>The scheduler's part depends on the objects of its own lists and the queue only.\<close>

definition same_scheduler ::
  "('k \<Rightarrow> fd \<rightharpoonup> u32) \<Rightarrow> ('k \<Rightarrow> fd set) \<Rightarrow> 'k world \<Rightarrow> 'k world \<Rightarrow> bool" where
  "same_scheduler reg F w w' \<longleftrightarrow> begin_cancelled w' = begin_cancelled w
     \<and> poll_queue_length w' = poll_queue_length w \<and> epoll_fd w' = epoll_fd w
     \<and> wake_fd w' = wake_fd w \<and> reg (kern w') = reg (kern w) \<and> F (kern w) \<subseteq> F (kern w')"

lemma poll_inv_cong:
  assumes p: "poll_inv K reg F w act can cq L" and s: "same_scheduler reg F w w'"
    and l: "lists (links w') ((operations_list, act @ can) # (completion_queue, cq') # L')"
    and o: "\<And>a. a \<in> set act \<or> a \<in> set can \<or> a \<in> set cq' \<Longrightarrow> objs w' a = objs w a"
    and sub: "set cq' \<subseteq> set cq"
  shows "poll_inv K reg F w' act can cq' L'"
proof -
  have fds: "map (fd_at w') act = map (fd_at w) act" and img: "fd_at w' ` set act = fd_at w ` set act"
    using o by (auto intro!: image_cong)
  have "sorted (map (fd_at w') act)" using p unfolding fds poll_inv_def sched_inv_def by blast
  moreover have "\<forall>a \<in> set act. pending (objs w' a)" "\<forall>a \<in> set can. cancelled_op (objs w' a)"
    "\<forall>a \<in> set cq'. finished (objs w' a)"
    using p o sub by (auto simp: poll_inv_def sched_inv_def)
  ultimately have "sched_inv w' act can cq' L'"
    using p s l unfolding poll_inv_def sched_inv_def same_scheduler_def by metis
  moreover have "registered_inv reg F w' act"
    using p s unfolding poll_inv_def registered_inv_def same_scheduler_def img by auto
  moreover have "running K (epoll_fd w') reg F w'"
    using p s unfolding poll_inv_def same_scheduler_def by auto
  ultimately show ?thesis unfolding poll_inv_def by blast
qed

lemma poll_inv_kern:
  assumes "poll_inv K reg F w act can cq L" and "reg k' = reg (kern w)"
    and "{epoll_fd w, wake_fd w} \<union> fd_at w ` set act \<subseteq> F k'"
  shows "poll_inv K reg F (w\<lparr>remaining_count := n, kern := k'\<rparr>) act can cq L"
  using assms by (auto simp: poll_inv_def sched_inv_def registered_inv_def)

section \<open>Owned descriptors\<close>

lemma fds_inv_mono:
  assumes inv: "fds_inv F U w act D" and sub: "D' + fds_owned w' \<subseteq># D + fds_owned w"
    and "U \<union> set_mset (D' + fds_owned w') \<subseteq> F (kern w')"
    and "epoll_fd w' = epoll_fd w" and "wake_fd w' = wake_fd w"
    and "\<forall>a \<in> set act'. fd_at w' a \<in> U \<or> fd_at w' a \<in># obj_fds w' a"
  shows "fds_inv F U w' act' D'"
proof -
  have "set_mset (D' + fds_owned w') \<subseteq> set_mset (D + fds_owned w)" by (rule set_mset_mono [OF sub])
  moreover have "count (D' + fds_owned w') fd \<le> count (D + fds_owned w) fd" for fd
    using sub by (rule mset_subset_eq_count)
  then have "count (D' + fds_owned w') fd \<le> 1" for fd
    using inv order_trans unfolding fds_inv_def by blast
  ultimately show ?thesis using inv assms(3-6) unfolding fds_inv_def by auto
qed

text \<open>A change that leaves the closures and the active operations as they are.\<close>

lemma fds_inv_cong:
  assumes inv: "fds_inv F U w act D" and sub: "D' + fds_owned w' = D + fds_owned w"
    and F: "F (kern w) \<subseteq> F (kern w')" and "epoll_fd w' = epoll_fd w" and "wake_fd w' = wake_fd w"
    and "\<forall>a \<in> set act'. fd_at w' a \<in> U \<or> fd_at w' a \<in># obj_fds w' a"
  shows "fds_inv F U w' act' D'"
proof -
  have "U \<union> set_mset (D' + fds_owned w') \<subseteq> F (kern w')"
    using inv F unfolding sub fds_inv_def by auto
  then show ?thesis by (intro fds_inv_mono [OF inv _ _ assms(4-6)]) (simp_all only: sub subset_mset.order_refl)
qed

text \<open>No active operation waits for a descriptor that is owned elsewhere.\<close>

lemma fds_inv_not_active:
  assumes "fds_inv F U w act D" and "fd \<in># D" and "finite (dom (objs w))" and "set act \<subseteq> dom (objs w)"
  shows "fd \<notin> fd_at w ` set act"
proof
  assume "fd \<in> fd_at w ` set act"
  then obtain a where a: "a \<in> set act" "fd = fd_at w a" by blast
  have "fd \<notin> U" using assms(1,2) by (auto simp: fds_inv_def)
  then have "fd \<in># obj_fds w a" using assms(1) a by (auto simp: fds_inv_def)
  moreover have "obj_fds w a \<subseteq># fds_owned w"
  proof -
    have "a \<in> dom (objs w)" using assms(4) a(1) by blast
    then show ?thesis unfolding closure_sum_def by (simp add: sum.remove [OF assms(3)])
  qed
  ultimately have "1 \<le> count D fd" "1 \<le> count (fds_owned w) fd"
    using assms(2) mset_subset_eqD [of "obj_fds w a" "fds_owned w" fd]
    by (simp_all only: Suc_le_eq One_nat_def count_greater_zero_iff)
  then have "2 \<le> count (D + fds_owned w) fd" by (simp only: count_union)
  then show False using assms(1) unfolding fds_inv_def by (metis Suc_1 not_less_eq_eq)
qed

lemma closure_sum_objs: "objs w' = objs w \<Longrightarrow> closure_sum g w' = closure_sum g w"
  by (simp add: closure_sum_def)

lemma closure_sum_simps [simp]:
  "closure_sum g (w\<lparr>kern := k\<rparr>) = closure_sum g w"
  "closure_sum g (w\<lparr>links := h\<rparr>) = closure_sum g w"
  "closure_sum g (w\<lparr>remaining_count := n\<rparr>) = closure_sum g w"
  "closure_sum g (w\<lparr>next_addr := a\<rparr>) = closure_sum g w"
  "closure_sum g (w\<lparr>io_fds := fds\<rparr>) = closure_sum g w"
  by (simp_all add: closure_sum_def)

lemma items_of_simps [simp]: "items_of [] = []" "items_of ((s, xs) # L) = xs @ items_of L"
  by (simp_all add: items_of_def)

lemma items_of_owned: "set (items_of L) \<subseteq> set (owned_items L)"
  by (auto simp: items_of_def owned_items_def)

lemma ctx_inv_finite: "ctx_inv K reg F U w act can cq L ext D \<Longrightarrow> finite (dom (objs w))"
  by (simp add: ctx_inv_def)

text \<open>The length of the scheduler's list is bounded by the number of active \<^verbatim>\<open>Work\<close> objects.\<close>

lemma ctx_inv_length:
  assumes "ctx_inv K reg F U w act can cq L ext D"
  shows "length act + length can \<le> works w"
proof -
  have "lists (links w) ((operations_list, act @ can) # (completion_queue, cq) # L)"
    using assms by (simp add: ctx_inv_def poll_inv_def sched_inv_def)
  then have d: "distinct (act @ can)" using lists_head by (fastforce simp: il_def)
  have sub: "set (act @ can) \<subseteq> dom (objs w)" and fin: "finite (dom (objs w))"
    and pos: "\<forall>a \<in> dom (objs w). 1 \<le> obj_work w a"
    using assms by (auto simp: ctx_inv_def well_wrapped_def Suc_le_eq)
  have "length act + length can = card (set (act @ can))" using distinct_card [OF d] by simp
  also have "\<dots> \<le> card (dom (objs w))" by (rule card_mono [OF fin sub])
  also have "\<dots> \<le> works w"
    unfolding closure_sum_def using sum_mono [of "dom (objs w)" "\<lambda>_. 1" "obj_work w"] pos by simp
  finally show ?thesis .
qed

section \<open>Work\<close>

lemma closure_sum_same_setup:
  assumes "same_setup w w'"
  shows "closure_sum g w' = closure_sum g w" and "a \<in> dom (objs w) \<Longrightarrow> closure_at w' a = closure_at w a"
proof -
  have e: "closure_at w' a = closure_at w a" if "a \<in> dom (objs w)" for a
    using assms that by (auto simp: same_setup_def)
  then show "a \<in> dom (objs w) \<Longrightarrow> closure_at w' a = closure_at w a" by blast
  show "closure_sum g w' = closure_sum g w" using assms e by (simp add: closure_sum_def same_setup_def)
qed

lemma fds_inv_same_setup:
  assumes inv: "fds_inv F U w act D" and s: "same_setup w w'" and F: "F (kern w) \<subseteq> F (kern w')"
    and sub: "set act' \<subseteq> set act" and dom: "set act \<subseteq> dom (objs w)"
  shows "fds_inv F U w' act' D"
proof (rule fds_inv_cong [OF inv _ F])
  show "D + fds_owned w' = D + fds_owned w" by (simp add: closure_sum_same_setup(1) [OF s])
  show "epoll_fd w' = epoll_fd w" "wake_fd w' = wake_fd w" using s by (auto simp: same_setup_def)
  show "\<forall>a \<in> set act'. fd_at w' a \<in> U \<or> fd_at w' a \<in># obj_fds w' a"
  proof
    fix a assume "a \<in> set act'"
    then have a: "a \<in> set act" "a \<in> dom (objs w)" using sub dom by auto
    have "fd_at w' a = fd_at w a" using s by (simp add: same_setup_def)
    then show "fd_at w' a \<in> U \<or> fd_at w' a \<in># obj_fds w' a"
      using inv a(1) closure_sum_same_setup(2) [OF s a(2)] by (simp add: fds_inv_def)
  qed
qed

lemma latch_work_ok:
  assumes "remaining_count w = of_nat n" and "Suc n < 2 ^ 64"
  shows "latch_work w = Ok (w\<lparr>remaining_count := of_nat (Suc n)\<rparr>)"
proof -
  show ?thesis using assms(1) u64_less_max [OF assms(2)] by (simp add: latch_work_def)
qed

lemma release_work_ok:
  assumes "remaining_count w = of_nat (Suc n)" and "Suc n < 2 ^ 64" and "waking K efd reg F w"
  shows "\<exists>k'. release_work True K w = Ok (w\<lparr>remaining_count := of_nat n, kern := k'\<rparr>)
    \<and> reg k' = reg (kern w) \<and> F (kern w) \<subseteq> F k'"
proof -
  have "(of_nat (Suc n) :: u64) \<noteq> 0"
    by (rule u64_pos [OF assms(2)])
  moreover have "(of_nat (Suc n) :: u64) - 1 = of_nat n" by simp
  ultimately show ?thesis
    using wake_ok [of K efd "w\<lparr>remaining_count := of_nat n\<rparr>" reg F] assms
    by (auto simp: release_work_def word_neq_0_conv [symmetric] simp del: of_nat_Suc)
qed

lemma FileDescriptor_destroy_open:
  assumes "os_contract K efd wfd reg F"
  shows "F k - {fd} \<subseteq> F (FileDescriptor_destroy K k fd)"
  using os_contract_close [OF assms surjective_pairing, of k fd] by (auto simp: FileDescriptor_destroy_def)

lemma FileDescriptor_destroy_unregistered:
  assumes "os_contract K efd wfd reg F" and "fd \<noteq> efd" and "reg k fd = None"
    and "FileDescriptor_destroy K k fd = k'"
  shows "reg k' = reg k \<and> F k - {fd} \<subseteq> F k'"
proof (cases "0 \<le> fd")
  case True
  then obtain r where "K k (Sys_close fd) = (r, k')"
    using assms(4) by (metis FileDescriptor_destroy_def surjective_pairing)
  then show ?thesis using os_contract_close [OF assms(1)] assms(2,3) by (metis fun_upd_idem)
qed (use assms(4) in \<open>auto simp: FileDescriptor_destroy_def\<close>)

text \<open>
  Destroying a closure releases its work and closes its descriptors; the interest list is the
  same afterwards when no operation waits for them.
\<close>

lemma destroy_closure_ok:
  assumes "remaining_count w = of_nat (n + active_work f)" and "n + active_work f < 2 ^ 64"
    and "waking K efd reg F w" and "plain_closure f"
    and "\<forall>fd \<in># own_fds f. reg (kern w) fd = None \<and> fd \<noteq> efd \<and> fd \<noteq> wake_fd w"
  shows "\<exists>k'. destroy_closure True K f w = Ok (w\<lparr>remaining_count := of_nat n, kern := k'\<rparr>)
    \<and> reg k' = reg (kern w) \<and> F (kern w) - set_mset (own_fds f) \<subseteq> F k'"
  using assms
proof (induction f arbitrary: n w)
  case (Fn x)
  then show ?case by (intro exI [of _ "kern w"]) simp
next
  case (WrapWork b f)
  let ?n = "if b then Suc n else n"
  obtain k1 where k1: "destroy_closure True K f w = Ok (w\<lparr>remaining_count := of_nat ?n, kern := k1\<rparr>)"
    "reg k1 = reg (kern w) \<and> F (kern w) - set_mset (own_fds f) \<subseteq> F k1"
    using WrapWork.IH [of w ?n] WrapWork.prems by (cases b) auto
  show ?case
  proof (cases b)
    case True
    have "wake_fd w \<in> F k1" using k1(2) WrapWork.prems(3,5) by auto
    then show ?thesis
      using release_work_ok [of "w\<lparr>remaining_count := of_nat ?n, kern := k1\<rparr>" n K efd reg F] k1
        WrapWork.prems True by fastforce
  next
    case False
    then show ?thesis using k1 by auto
  qed
next
  case (OwnFd fd f)
  obtain k1 where k1: "destroy_closure True K f w = Ok (w\<lparr>remaining_count := of_nat n, kern := k1\<rparr>)"
    "reg k1 = reg (kern w) \<and> F (kern w) - set_mset (own_fds f) \<subseteq> F k1"
    using OwnFd.IH [of w n] OwnFd.prems by auto
  have "reg k1 fd = None" "fd \<noteq> efd" using k1(2) OwnFd.prems(5) by auto
  then have "reg (FileDescriptor_destroy K k1 fd) = reg k1 \<and> F k1 - {fd} \<subseteq> F (FileDescriptor_destroy K k1 fd)"
    using FileDescriptor_destroy_unregistered [OF conjunct1 [OF OwnFd.prems(3)] _ _ refl] by blast
  then show ?case using k1 by (auto intro!: exI [of _ "FileDescriptor_destroy K k1 fd"])
qed auto

lemma ctx_inv_kern:
  assumes "ctx_inv K reg F U w act can cq L (ext + n) D" and "reg k' = reg (kern w) \<and> F (kern w) \<subseteq> F k'"
  shows "ctx_inv K reg F U (w\<lparr>remaining_count := of_nat (works w + ext), kern := k'\<rparr>) act can cq L ext D"
proof -
  let ?w = "w\<lparr>remaining_count := of_nat (works w + ext), kern := k'\<rparr>"
  have p: "poll_inv K reg F w act can cq L" using assms(1) by (simp add: ctx_inv_def)
  have "poll_inv K reg F ?w act can cq L"
    by (rule poll_inv_kern [OF p]) (use p assms(2) in \<open>auto simp: poll_inv_def registered_inv_def\<close>)
  moreover have "fds_inv F U ?w act D"
    by (rule fds_inv_cong [of F U w act D]) (use assms in \<open>auto simp: ctx_inv_def fds_inv_def\<close>)
  ultimately show ?thesis using assms(1) by (simp add: ctx_inv_def)
qed

lemma ctx_inv_same_registration:
  assumes "ctx_inv K reg F U w act can cq L ext D" and "reg k' = reg (kern w) \<and> F (kern w) \<subseteq> F k'"
  shows "ctx_inv K reg F U (w\<lparr>kern := k'\<rparr>) act can cq L ext D"
proof -
  have "w\<lparr>remaining_count := of_nat (works w + ext), kern := k'\<rparr> = w\<lparr>kern := k'\<rparr>"
    using assms(1) by (simp add: ctx_inv_def)
  then show ?thesis using ctx_inv_kern [of K reg F U w act can cq L ext 0 D k'] assms by simp
qed

text \<open>A descriptor that is owned elsewhere is not registered, and it may be closed.\<close>

lemma ctx_inv_owned_elsewhere:
  assumes inv: "ctx_inv K reg F U w act can cq L ext (D + N)" and "fd \<in># N"
  shows "reg (kern w) fd = None" and "fd \<noteq> epoll_fd w" and "fd \<noteq> wake_fd w"
proof -
  have "fds_inv F U w act (D + N)" "set act \<subseteq> dom (objs w)" using inv by (auto simp: ctx_inv_def)
  then have "fd \<notin> fd_at w ` set act"
    using fds_inv_not_active ctx_inv_finite [OF inv] assms(2) by (metis union_iff)
  moreover show "fd \<noteq> epoll_fd w" "fd \<noteq> wake_fd w"
    using inv assms(2) by (auto simp: ctx_inv_def fds_inv_def)
  ultimately show "reg (kern w) fd = None"
    using inv by (auto simp: ctx_inv_def poll_inv_def registered_inv_def)
qed

lemma ctx_inv_closed:
  assumes inv: "ctx_inv K reg F U w act can cq L (ext + n) (D + N)"
    and k': "reg k' = reg (kern w)" "F (kern w) - set_mset N \<subseteq> F k'"
  shows "ctx_inv K reg F U (w\<lparr>remaining_count := of_nat (works w + ext), kern := k'\<rparr>) act can cq L ext D"
proof -
  let ?w = "w\<lparr>remaining_count := of_nat (works w + ext), kern := k'\<rparr>"
  have p: "poll_inv K reg F w act can cq L" and i: "fds_inv F U w act (D + N)"
    and dom: "set act \<subseteq> dom (objs w)"
    using inv by (auto simp: ctx_inv_def)
  have na: "fd_at w ` set act \<inter> set_mset N = {}"
    using fds_inv_not_active [OF i _ ctx_inv_finite [OF inv] dom] by auto
  have "poll_inv K reg F ?w act can cq L"
  proof (rule poll_inv_kern [OF p k'(1)])
    have "{epoll_fd w, wake_fd w} \<union> fd_at w ` set act \<subseteq> F (kern w)" "{epoll_fd w, wake_fd w} \<inter> set_mset N = {}"
      using p i by (auto simp: poll_inv_def registered_inv_def fds_inv_def)
    then show "{epoll_fd w, wake_fd w} \<union> fd_at w ` set act \<subseteq> F k'" using na k'(2) by blast
  qed
  moreover have "fds_inv F U ?w act D"
  proof (rule fds_inv_mono [OF i])
    have "fd \<notin># D + fds_owned w" if "fd \<in># N" for fd
    proof
      assume "fd \<in># D + fds_owned w"
      then have "1 \<le> count (D + fds_owned w) fd" "1 \<le> count N fd"
        using that by (simp_all only: Suc_le_eq One_nat_def count_greater_zero_iff)
      then have "2 \<le> count (D + N + fds_owned w) fd" by (simp only: count_union)
      then show False using i unfolding fds_inv_def by (metis Suc_1 not_less_eq_eq)
    qed
    then show "U \<union> set_mset (D + fds_owned ?w) \<subseteq> F (kern ?w)"
      using i k'(2) unfolding fds_inv_def by auto
  qed (use i in \<open>auto simp: fds_inv_def\<close>)
  ultimately show ?thesis using inv by (simp add: ctx_inv_def)
qed

lemma ctx_inv_destroy_closure:
  assumes inv: "ctx_inv K reg F U w act can cq L (ext + active_work f) (D + own_fds f)"
    and f: "plain_closure f"
  shows "\<exists>w'. destroy_closure True K f w = Ok w' \<and> ctx_inv K reg F U w' act can cq L ext D
    \<and> objs w' = objs w"
proof -
  have rc: "remaining_count w = of_nat (works w + ext + active_work f)"
    "works w + ext + active_work f < 2 ^ 64" and os: "waking K (epoll_fd w) reg F w"
    using inv by (auto simp: ctx_inv_def poll_inv_def add.assoc)
  obtain k' where "destroy_closure True K f w
      = Ok (w\<lparr>remaining_count := of_nat (works w + ext), kern := k'\<rparr>)" "reg k' = reg (kern w)"
    "F (kern w) - set_mset (own_fds f) \<subseteq> F k'"
    using destroy_closure_ok [OF rc os f] ctx_inv_owned_elsewhere [OF inv] by blast
  then show ?thesis using ctx_inv_closed [OF inv] by auto
qed

text \<open>
  A descriptor that has just been opened is owned by whoever opened it; an object of the user may
  take it, and give it up when no operation waits for it.
\<close>

lemma ctx_inv_opened:
  assumes inv: "ctx_inv K reg F U w act can cq L ext D"
    and k': "reg k' = reg (kern w) \<and> F (kern w) \<subseteq> F k'" and fd: "fd \<notin> F (kern w)" "fd \<in> F k'"
  shows "ctx_inv K reg F U (w\<lparr>kern := k'\<rparr>) act can cq L ext (D + {#fd#})"
proof -
  have i: "ctx_inv K reg F U (w\<lparr>kern := k'\<rparr>) act can cq L ext D"
    by (rule ctx_inv_same_registration [OF inv k'])
  have f: "fds_inv F U w act D" "{epoll_fd w, wake_fd w} \<subseteq> F (kern w)"
    using inv by (auto simp: ctx_inv_def poll_inv_def)
  then have "fd \<notin># D + fds_owned w" "fd \<notin> U" "fd \<notin> {epoll_fd w, wake_fd w}"
    using fd(1) by (auto simp: fds_inv_def)
  then have "fds_inv F U (w\<lparr>kern := k'\<rparr>) act (D + {#fd#})"
    using f(1) fd(2) k' by (auto simp: fds_inv_def count_eq_zero_iff)
  then show ?thesis using i by (simp add: ctx_inv_def)
qed

lemma ctx_inv_take:
  assumes "ctx_inv K reg F U w act can cq L ext (D + {#fd#})"
  shows "ctx_inv K reg F (insert fd U) w act can cq L ext D"
proof -
  have i: "fds_inv F U w act (D + {#fd#})" using assms by (simp add: ctx_inv_def)
  then have "count (D + {#fd#} + fds_owned w) fd \<le> 1" unfolding fds_inv_def by blast
  then have "fd \<notin># D + fds_owned w" by (simp add: not_in_iff)
  moreover have "count (D + fds_owned w) x \<le> 1" for x
    using i unfolding fds_inv_def by (metis add.assoc add.commute mset_subset_eq_add_right mset_subset_eq_count order_trans)
  ultimately have "fds_inv F (insert fd U) w act D"
    using i unfolding fds_inv_def by auto
  then show ?thesis using assms by (simp add: ctx_inv_def)
qed

lemma ctx_inv_give:
  assumes inv: "ctx_inv K reg F U w act can cq L ext D" and fd: "fd \<in> U" "fd \<notin> fd_at w ` set act"
  shows "ctx_inv K reg F (U - {fd}) w act can cq L ext (D + {#fd#})"
proof -
  have i: "fds_inv F U w act D" using inv by (simp add: ctx_inv_def)
  then have "fd \<notin># D + fds_owned w" using fd(1) by (auto simp: fds_inv_def)
  then have "fds_inv F (U - {fd}) w act (D + {#fd#})"
    using i fd unfolding fds_inv_def by (auto simp: count_eq_zero_iff)
  then show ?thesis using inv by (simp add: ctx_inv_def)
qed

section \<open>New objects\<close>

text \<open>A wrapped handler in a new object at a fresh address.\<close>

definition with_object :: "'k world \<Rightarrow> async_op \<Rightarrow> 'k world" where
  "with_object w x =
     w\<lparr>remaining_count := remaining_count w + 1, next_addr := Suc (next_addr w),
       links := new_item (links w) (next_addr w), objs := (objs w)(next_addr w \<mapsto> x)\<rparr>"

lemma ctx_inv_fresh:
  assumes "ctx_inv K reg F U w act can cq L ext D"
  shows "next_addr w \<notin> set (owned_items ((operations_list, act @ can) # (completion_queue, cq) # L))"
    and "next_addr w \<notin> dom (objs w)" and "next_addr w \<noteq> nullptr"
proof -
  let ?O = "set (owned_items ((operations_list, act @ can) # (completion_queue, cq) # L))"
  have less: "\<forall>a \<in> ?O. a < next_addr w" and d: "dom (objs w) \<subseteq> ?O"
    using assms items_of_owned [of L] by (auto simp: ctx_inv_def)
  show 1: "next_addr w \<notin> ?O" using less by blast
  show "next_addr w \<notin> dom (objs w)" using 1 d by blast
  have "operations_list < next_addr w" using less by simp
  then show "next_addr w \<noteq> nullptr" by simp
qed

lemma with_object_poll_inv:
  assumes "ctx_inv K reg F U w act can cq L ext D"
  shows "poll_inv K reg F (with_object w x) act can cq L"
    and "allocated (links (with_object w x)) (next_addr w)"
proof -
  note fresh = ctx_inv_fresh [OF assms]
  have p: "poll_inv K reg F w act can cq L" using assms by (simp add: ctx_inv_def)
  show "poll_inv K reg F (with_object w x) act can cq L"
  proof (rule poll_inv_cong [OF p])
    show "same_scheduler reg F w (with_object w x)" by (simp add: same_scheduler_def with_object_def)
    show "lists (links (with_object w x)) ((operations_list, act @ can) # (completion_queue, cq) # L)"
      using p lists_new_item [OF fresh(1)] by (simp add: poll_inv_def sched_inv_def with_object_def)
    show "objs (with_object w x) a = objs w a" if "a \<in> set act \<or> a \<in> set can \<or> a \<in> set cq" for a
      using that fresh(1) by (auto simp: with_object_def)
  qed simp
  show "allocated (links (with_object w x)) (next_addr w)"
    using fresh(3) by (simp add: with_object_def allocated_new_item)
qed

lemma closure_sum_with_object:
  assumes "finite (dom (objs w))" and "next_addr w \<notin> dom (objs w)"
    and "same_setup (with_object w x) w'"
  shows "closure_sum g w' = g (op_completion x) + closure_sum g w"
    and "a \<in> dom (objs w) \<Longrightarrow> closure_at w' a = closure_at w a"
    and "closure_at w' (next_addr w) = op_completion x"
proof -
  have o: "objs (with_object w x) = (objs w)(next_addr w \<mapsto> x)" by (simp add: with_object_def)
  have "(\<Sum>a \<in> dom (objs w). g (closure_at (with_object w x) a)) = closure_sum g w"
    unfolding closure_sum_def using assms(2) by (intro sum.cong) (auto simp: o)
  then have "closure_sum g (with_object w x) = g (op_completion x) + closure_sum g w"
    using assms(1,2) by (simp add: closure_sum_def o)
  then show "closure_sum g w' = g (op_completion x) + closure_sum g w"
    using closure_sum_same_setup(1) [OF assms(3), of g] by simp
  show "closure_at w' (next_addr w) = op_completion x"
    using closure_sum_same_setup(2) [OF assms(3), of "next_addr w"] o by simp
  show "closure_at w' a = closure_at w a" if "a \<in> dom (objs w)"
    using closure_sum_same_setup(2) [OF assms(3), of a] o that assms(2) by auto
qed

text \<open>
  After the new object has been put into one of the lists the invariant holds again; what the
  closure of the new object owns was owned elsewhere before.
\<close>

lemma ctx_inv_extend:
  assumes inv: "ctx_inv K reg F U w act can cq L (ext + m) (D + N)"
    and room: "Suc (works w + ext + m) < 2 ^ 64"
    and x: "active_work (op_completion x) = Suc m" "plain_closure (op_completion x)"
      "own_fds (op_completion x) = N"
    and s: "same_setup (with_object w x) w'" and F: "F (kern w) \<subseteq> F (kern w')"
    and p: "poll_inv K reg F w' act' can cq' L"
    and new: "set act' \<union> set cq' = insert (next_addr w) (set act \<union> set cq)"
      "set act' \<subseteq> insert (next_addr w) (set act)"
    and fd: "next_addr w \<in> set act' \<Longrightarrow> fd_at w' (next_addr w) \<in> U \<or> fd_at w' (next_addr w) \<in># N"
    and keep: "\<forall>a \<in> set (items_of L). objs w' a = objs w a"
  shows "ctx_inv K reg F U w' act' can cq' L ext D" and "works w' = Suc (works w + m)"
proof -
  note fresh = ctx_inv_fresh [OF inv]
  note ws = closure_sum_with_object [OF ctx_inv_finite [OF inv] fresh(2) s]
  show wk: "works w' = Suc (works w + m)" using ws(1) [of active_work] x(1) by simp
  have d: "dom (objs w') = insert (next_addr w) (dom (objs w))" "next_addr w' = Suc (next_addr w)"
    "remaining_count w' = remaining_count w + 1" "epoll_fd w' = epoll_fd w" "wake_fd w' = wake_fd w"
    using s by (auto simp: same_setup_def with_object_def)
  have i: "fds_inv F U w act (D + N)" and dom: "set act \<subseteq> dom (objs w)" using inv by (auto simp: ctx_inv_def)
  have "fds_inv F U w' act' D"
  proof (rule fds_inv_cong [OF i _ F d(4,5)])
    show "D + fds_owned w' = D + N + fds_owned w" using ws(1) [of own_fds] x(3) by simp
    show "\<forall>a \<in> set act'. fd_at w' a \<in> U \<or> fd_at w' a \<in># obj_fds w' a"
    proof
      fix a assume a: "a \<in> set act'"
      show "fd_at w' a \<in> U \<or> fd_at w' a \<in># obj_fds w' a"
      proof (cases "a = next_addr w")
        case True
        then show ?thesis using fd a ws(3) x(3) by simp
      next
        case False
        then have "a \<in> set act" "fd_at w' a = fd_at w a"
          using a new(2) s by (auto simp: same_setup_def with_object_def)
        moreover from this have "obj_fds w' a = obj_fds w a" using ws(2) [of a] dom by (simp add: subsetD)
        ultimately show ?thesis using i by (simp add: fds_inv_def)
      qed
    qed
  qed
  moreover have "dom (objs w') = set act' \<union> set can \<union> set cq' \<union> set (items_of L)"
    using d(1) inv new(1) by (auto simp: ctx_inv_def)
  moreover have "\<forall>a \<in> dom (objs w'). well_wrapped (closure_at w' a)"
    using inv ws(2,3) d(1) x by (auto simp: ctx_inv_def well_wrapped_def)
  moreover have "\<forall>a \<in> set (owned_items ((operations_list, act' @ can) # (completion_queue, cq') # L)).
      a < next_addr w'"
    using inv new(1) d(2) unfolding ctx_inv_def by (auto simp: less_Suc_eq)
  moreover have "remaining_count w' = of_nat (works w' + ext)"
    using inv d(3) wk by (simp add: ctx_inv_def add.commute add.left_commute)
  ultimately show "ctx_inv K reg F U w' act' can cq' L ext D"
    using inv p room wk keep by (simp add: ctx_inv_def add.commute add.left_commute)
qed

lemma wrap_allocate_ok:
  assumes "ctx_inv K reg F U w act can cq L ext D" and "Suc (works w + ext) < 2 ^ 64"
  shows "wrap_work w f = Ok (WrapWork True f, w\<lparr>remaining_count := remaining_count w + 1\<rparr>)"
    and "allocate (w\<lparr>remaining_count := remaining_count w + 1\<rparr>) x = (next_addr w, with_object w x)"
proof -
  have "remaining_count w = of_nat (works w + ext)" using assms(1) by (simp add: ctx_inv_def)
  then show "wrap_work w f = Ok (WrapWork True f, w\<lparr>remaining_count := remaining_count w + 1\<rparr>)"
    using latch_work_ok [of w "works w + ext"] assms(2) by (simp add: wrap_work_latches)
qed (simp add: allocate_def with_object_def Let_def)

section \<open>What a handler can call\<close>

lemma post_completion_ok:
  assumes inv: "ctx_inv K reg F U w act can cq L (ext + active_work f) (D + own_fds f)"
    and room: "Suc (works w + ext + active_work f) < 2 ^ 64" and f: "plain_closure f"
  shows "\<exists>w'. post_completion K w f = Ok w'
    \<and> ctx_inv K reg F U w' act can (cq @ [next_addr w]) L ext D \<and> works w' = Suc (works w + active_work f)
    \<and> objs w' (next_addr w) = Some (PlainOp (WrapWork True f))
    \<and> (\<forall>a \<in> set (items_of L). objs w' a = objs w a)"
proof -
  let ?x = "PlainOp (WrapWork True f)" and ?a = "next_addr w"
  let ?w = "with_object w ?x"
  note fresh = ctx_inv_fresh [OF inv] and wo = with_object_poll_inv [OF inv, of ?x]
  have s: "sched_inv ?w act can cq L" "registered_inv reg F ?w act"
    "waking K (epoll_fd ?w) reg F ?w"
    using wo(1) by (auto simp: poll_inv_def)
  have "lists (links ?w) ((completion_queue, cq) # (operations_list, act @ can) # L)"
    using s(1) by (simp add: sched_inv_def lists_swap)
  then obtain h' k' where p: "post K ?w ?a = Ok (?w\<lparr>links := h', kern := k'\<rparr>)"
    "lists h' ((completion_queue, cq @ [?a]) # (operations_list, act @ can) # L)" "reg k' = reg (kern ?w) \<and> F (kern ?w) \<subseteq> F k'"
    using post_ok [OF s(3)] fresh(1) wo(2) by fastforce
  let ?w' = "?w\<lparr>links := h', kern := k'\<rparr>"
  have "finished (objs ?w ?a)" by (simp add: with_object_def finished_def)
  then have "poll_inv K reg F ?w' act can (cq @ [?a]) L"
    using wo(1) p(2,3) by (auto simp: poll_inv_def sched_inv_def registered_inv_def lists_swap)
  moreover have keep: "\<forall>a \<in> set (items_of L). objs ?w' a = objs w a"
    using fresh(1) items_of_owned [of L] by (auto simp: with_object_def)
  moreover have "F (kern w) \<subseteq> F (kern ?w')" using p(3) by (simp add: with_object_def)
  ultimately have "ctx_inv K reg F U ?w' act can (cq @ [?a]) L ext D" "works ?w' = Suc (works w + active_work f)"
    by (intro ctx_inv_extend [OF inv room, where x = ?x and act' = act and cq' = "cq @ [?a]"];
        use fresh(1) in \<open>auto simp: same_setup_def f\<close>)+
  moreover have "post_completion K w f = Ok ?w'"
    using wrap_allocate_ok [OF inv] room p(1)
    by (simp add: post_completion_def make_async_operation_def add.assoc)
  moreover have "objs ?w' ?a = Some ?x" by (simp add: with_object_def)
  ultimately show ?thesis using keep by blast
qed

lemma start_io_ok:
  assumes inv: "ctx_inv K reg F U w act can cq L (ext + active_work f) (D + own_fds f)"
    and room: "Suc (works w + ext + active_work f) < 2 ^ 64" and f: "plain_closure f"
    and fd: "fd \<in> U \<or> fd \<in># own_fds f" and op: "op_result op = None"
  shows "\<exists>w' act'. start_io K w f fd op = Ok w' \<and> ctx_inv K reg F U w' act' can cq L ext D
    \<and> works w' = Suc (works w + active_work f) \<and> set act' = insert (next_addr w) (set act)
    \<and> objs w' = (objs w)(next_addr w \<mapsto> IoOp (AsyncIoOperation_construct (WrapWork True f) fd op))
    \<and> (\<forall>a \<in> set (items_of L). objs w' a = objs w a)"
proof -
  let ?x = "IoOp (AsyncIoOperation_construct (WrapWork True f) fd op)" and ?a = "next_addr w"
  let ?w = "with_object w ?x"
  note fresh = ctx_inv_fresh [OF inv] and wo = with_object_poll_inv [OF inv, of ?x]
  have o: "objs ?w ?a = Some ?x" by (simp add: with_object_def)
  have "fd \<in> pollable F w" using inv fd by (auto simp: ctx_inv_def fds_inv_def)
  then have "pending (objs ?w ?a)" "fd_at ?w ?a \<in> pollable F ?w"
    using o op by (simp_all add: pending_def AsyncIoOperation_construct_def with_object_def)
  moreover have "Suc (length act + length can) < 2 ^ 64"
    using ctx_inv_length [OF inv] room by simp
  ultimately obtain w' where w': "schedule K ?w ?a = Ok w'" "same_setup ?w w'" "objs w' = objs ?w"
    "F (kern ?w) \<subseteq> F (kern w')"
    "poll_inv K reg F w' (filter (\<lambda>b. fd_at ?w b \<le> fd_at ?w ?a) act @ ?a
       # filter (\<lambda>b. fd_at ?w ?a < fd_at ?w b) act) can cq L"
    using schedule_keeps [OF wo(1) fresh(1) wo(2)] by blast
  let ?act = "filter (\<lambda>b. fd_at ?w b \<le> fd_at ?w ?a) act @ ?a # filter (\<lambda>b. fd_at ?w ?a < fd_at ?w b) act"
  have keep: "\<forall>a \<in> set (items_of L). objs w' a = objs w a"
    using fresh(1) items_of_owned [of L] w'(3) by (auto simp: with_object_def)
  have F: "F (kern w) \<subseteq> F (kern w')" using w'(4) by (simp add: with_object_def)
  have "fd_at w' ?a \<in> U \<or> fd_at w' ?a \<in># own_fds f"
    using fd w'(3) o by (simp add: AsyncIoOperation_construct_def)
  then have "ctx_inv K reg F U w' ?act can cq L ext D" "works w' = Suc (works w + active_work f)"
    by (intro ctx_inv_extend [OF inv room _ _ _ w'(2) F w'(5) _ _ _ keep];
        auto simp: AsyncIoOperation_construct_def f)+
  moreover have "start_io K w f fd op = Ok w'"
    using wrap_allocate_ok [OF inv] room w'(1)
    by (simp add: start_io_def make_async_io_operation_def add.assoc)
  moreover have "set ?act = insert ?a (set act)" by auto
  moreover have "objs w' = (objs w)(?a \<mapsto> ?x)" using w'(3) by (simp add: with_object_def)
  ultimately show ?thesis using keep by blast
qed

text \<open>Cancelling and polling move objects between the lists and keep their closures.\<close>

lemma ctx_inv_rearrange:
  assumes inv: "ctx_inv K reg F U w act can cq L ext D" and s: "same_setup w w'"
    and F: "F (kern w) \<subseteq> F (kern w')" and p: "poll_inv K reg F w' act' can' cq' L"
    and sub: "set act' \<subseteq> set act"
    and sets: "set act' \<union> set can' \<union> set cq' = set act \<union> set can \<union> set cq"
    and keep: "\<forall>a \<in> set (items_of L). objs w' a = objs w a"
  shows "ctx_inv K reg F U w' act' can' cq' L ext D"
proof -
  note ws = closure_sum_same_setup [OF s]
  have d: "dom (objs w') = dom (objs w)" "next_addr w' = next_addr w"
    "remaining_count w' = remaining_count w"
    using s by (auto simp: same_setup_def)
  have "fds_inv F U w' act' D"
    by (rule fds_inv_same_setup [OF _ s F sub]) (use inv in \<open>auto simp: ctx_inv_def\<close>)
  moreover have "dom (objs w') = set act' \<union> set can' \<union> set cq' \<union> set (items_of L)"
    using inv d(1) sets by (simp add: ctx_inv_def)
  moreover have "\<forall>a \<in> set (items_of L). finished (objs w' a)" using inv keep by (simp add: ctx_inv_def)
  moreover have "\<forall>a \<in> dom (objs w'). well_wrapped (closure_at w' a)"
    using inv ws(2) d(1) by (auto simp: ctx_inv_def)
  moreover have "\<forall>a \<in> set (owned_items ((operations_list, act' @ can') # (completion_queue, cq') # L)).
      a < next_addr w'"
    using inv sets d(2) by (auto simp: ctx_inv_def)
  moreover have "remaining_count w' = of_nat (works w' + ext)" "works w' + ext < 2 ^ 64"
    using inv d(3) ws(1) [of active_work] by (simp_all add: ctx_inv_def)
  ultimately show ?thesis using p unfolding ctx_inv_def by blast
qed

lemma cancel_ctx_ok:
  assumes inv: "ctx_inv K reg F U w act can cq L ext D" and fd: "fd \<in> U"
  shows "cancel K w fd = Diverges
    \<or> (\<exists>w' act' can'. cancel K w fd = Ok w' \<and> ctx_inv K reg F U w' act' can' cq L ext D
        \<and> works w' = works w \<and> io_fds w' = io_fds w \<and> fd \<notin> fd_at w' ` set act'
        \<and> (\<forall>a \<in> set (items_of L). objs w' a = objs w a))"
proof -
  let ?gs = "at_fd w fd act"
  have p: "poll_inv K reg F w act can cq L" using inv by (simp add: ctx_inv_def)
  have pf: "fd \<in> pollable F w" using inv fd by (auto simp: ctx_inv_def fds_inv_def)
  consider "cancel K w fd = Ok w" "?gs = []" | "cancel K w fd = Diverges"
    | w' where "cancel K w fd = Ok w'"
      "poll_inv K reg F w' (filter (\<lambda>a. fd_at w a \<noteq> fd) act) (?gs @ can) cq L"
      "same_setup w w'" "F (kern w) \<subseteq> F (kern w')"
      "\<forall>a. a \<notin> set ?gs \<longrightarrow> objs w' a = objs w a"
    using cancel_cases [OF p pf refl] by (auto split: if_splits)
  then show ?thesis
  proof cases
    case 1
    then have "fd \<notin> fd_at w ` set act" by (auto simp: filter_empty_conv)
    then show ?thesis using inv 1(1) by blast
  next
    case (3 w')
    have sets: "set (filter (\<lambda>a. fd_at w a \<noteq> fd) act) \<union> set (?gs @ can) = set act \<union> set can" by auto
    have dj: "set act \<inter> set (items_of L) = {}"
      using p items_of_owned [of L] by (auto simp: poll_inv_def sched_inv_def lists_Cons)
    then have keep: "\<forall>a \<in> set (items_of L). objs w' a = objs w a" using 3(5) by auto
    have "ctx_inv K reg F U w' (filter (\<lambda>a. fd_at w a \<noteq> fd) act) (?gs @ can) cq L ext D"
      by (rule ctx_inv_rearrange [OF inv 3(3,4,2) _ _ keep]) (use sets in auto)
    moreover have "io_fds w' = io_fds w" "fd \<notin> fd_at w' ` set (filter (\<lambda>a. fd_at w a \<noteq> fd) act)"
      using 3(3) by (auto simp: same_setup_def)
    ultimately show ?thesis using 3(1) closure_sum_same_setup(1) [OF 3(3)] keep by blast
  qed blast
qed

end
