(* ===== verification/Run_Once.thy ===== *)
theory Run_Once
  imports Context_Invariant
begin

text \<open>
  \<^verbatim>\<open>run_once\<close>: handlers are called in the order of the queue, and what they do keeps the
  invariant of the context. A computation can stop in two ways only, and the statements say when:
  it may run for ever if a handler cancels a descriptor, and it may terminate the process by a
  failed contract if the counter of active \<^verbatim>\<open>Work\<close> objects overflows.
\<close>

section \<open>What is assumed of handlers\<close>

text \<open>
  Operations are started on descriptors of the user's objects and as their constructors leave
  them. Handlers that only post start and cancel no operation.
\<close>

fun api_ok :: "fd set \<Rightarrow> api \<Rightarrow> bool" where
  "api_ok U (ApiPost n) = True"
| "api_ok U (ApiStart fd op n) = (fd \<in> U \<and> op_result op = None)"
| "api_ok U (ApiCancel fd) = (fd \<in> U)"

definition handlers_ok :: "fd set \<Rightarrow> 'u handlers \<Rightarrow> bool" where
  "handlers_ok U H \<longleftrightarrow> (\<forall>n arg u. \<forall>c \<in> set (fst (H n arg u)). api_ok U c)"

fun is_post :: "api \<Rightarrow> bool" where
  "is_post (ApiPost _) = True"
| "is_post _ = False"

definition handlers_post :: "'u handlers \<Rightarrow> bool" where
  "handlers_post H \<longleftrightarrow> (\<forall>n arg u. \<forall>c \<in> set (fst (H n arg u)). is_post c)"

definition handlers_cancel :: "'u handlers \<Rightarrow> bool" where
  "handlers_cancel H \<longleftrightarrow> (\<exists>n arg u fd. ApiCancel fd \<in> set (fst (H n arg u)))"

text \<open>How a computation may stop: \<open>C\<close> if it may hang in a cancel, \<open>R\<close> if there is room for work.\<close>

definition may_stop :: "bool \<Rightarrow> bool \<Rightarrow> fault option \<Rightarrow> bool" where
  "may_stop C R z \<longleftrightarrow> z = None \<and> C \<or> z = Some ContractViolation \<and> \<not> R"

lemma may_stop_mono: "may_stop C R z \<Longrightarrow> (C \<Longrightarrow> C') \<Longrightarrow> (R' \<Longrightarrow> R) \<Longrightarrow> may_stop C' R' z"
  by (auto simp: may_stop_def)

section \<open>The calls of a handler\<close>

lemma latch_work_full:
  assumes "ctx_inv K reg F U w act can cq L ext D" and "\<not> Suc (works w + ext) < 2 ^ 64"
  shows "wrap_work w f = Fault ContractViolation"
proof -
  have n: "remaining_count w = of_nat (works w + ext)" "works w + ext < 2 ^ 64"
    using assms(1) by (auto simp: ctx_inv_def)
  have "works w + ext = 2 ^ 64 - 1" using n(2) assms(2) by simp
  then have "remaining_count w = -1" using n(1) by simp
  then show ?thesis by (simp add: wrap_work_latches latch_work_def)
qed

lemma run_api_ok:
  assumes inv: "ctx_inv K reg F U w act can cq L ext D" and c: "api_ok U c"
  shows "(\<exists>z. may_stop (\<exists>fd. c = ApiCancel fd) (Suc (works w + ext) < 2 ^ 64) z \<and> run_api K w c = stop z)
    \<or> (\<exists>w' act' can' new. run_api K w c = Ok w' \<and> ctx_inv K reg F U w' act' can' (cq @ new) L ext D
        \<and> works w' \<le> Suc (works w) \<and> (\<forall>a \<in> set (items_of L). objs w' a = objs w a)
        \<and> (is_post c \<longrightarrow> act' = act \<and> can' = can))"
proof (cases "\<exists>fd. c = ApiCancel fd")
  case True
  then obtain fd where fd: "c = ApiCancel fd" "fd \<in> U" using c by auto
  show ?thesis
  proof (cases "cancel K w fd = Diverges")
    case True
    then have "run_api K w c = stop None" using fd by (simp add: stop_simps)
    then show ?thesis using fd(1) by (auto simp: may_stop_def)
  next
    case False
    then obtain w' act' can' where "cancel K w fd = Ok w'" "ctx_inv K reg F U w' act' can' cq L ext D"
      "works w' = works w" "\<forall>a \<in> set (items_of L). objs w' a = objs w a"
      using cancel_ctx_ok [OF inv fd(2)] by auto
    then have "run_api K w c = Ok w' \<and> ctx_inv K reg F U w' act' can' (cq @ []) L ext D
        \<and> works w' \<le> Suc (works w) \<and> (\<forall>a \<in> set (items_of L). objs w' a = objs w a) \<and> \<not> is_post c"
      using fd by simp
    then show ?thesis by blast
  qed
next
  case nc: False
  show ?thesis
  proof (cases "Suc (works w + ext) < 2 ^ 64")
    case room: True
    show ?thesis
    proof (cases c)
      case (ApiPost n)
      then show ?thesis using post_completion_ok [of K reg F U w act can cq L ext "Fn n" D] inv room by fastforce
    next
      case (ApiStart fd op n)
      then have "fd \<in> U" "op_result op = None" using c by auto
      then obtain w' act' where "start_io K w (Fn n) fd op = Ok w'" "ctx_inv K reg F U w' act' can cq L ext D"
        "works w' = Suc (works w)" "\<forall>a \<in> set (items_of L). objs w' a = objs w a"
        using start_io_ok [of K reg F U w act can cq L ext "Fn n" D fd op] inv room by auto
      then have "run_api K w c = Ok w' \<and> ctx_inv K reg F U w' act' can (cq @ []) L ext D
          \<and> works w' \<le> Suc (works w) \<and> (\<forall>a \<in> set (items_of L). objs w' a = objs w a) \<and> \<not> is_post c"
        using ApiStart by simp
      then show ?thesis by blast
    qed (use nc in blast)
  next
    case full: False
    then have "run_api K w c = stop (Some ContractViolation)"
      using latch_work_full [OF inv full] nc
      by (cases c) (simp_all add: post_completion_def start_io_def stop_simps)
    then show ?thesis using full by (auto simp: may_stop_def)
  qed
qed

lemma run_apis_ok:
  assumes "ctx_inv K reg F U w act can cq L ext D" and "\<forall>c \<in> set cs. api_ok U c"
  shows "(\<exists>z. may_stop (\<exists>fd. ApiCancel fd \<in> set cs) (works w + ext + length cs < 2 ^ 64) z
        \<and> run_apis K cs w = stop z)
    \<or> (\<exists>w' act' can' new. run_apis K cs w = Ok w' \<and> ctx_inv K reg F U w' act' can' (cq @ new) L ext D
        \<and> works w' \<le> works w + length cs \<and> (\<forall>a \<in> set (items_of L). objs w' a = objs w a)
        \<and> ((\<forall>c \<in> set cs. is_post c) \<longrightarrow> act' = act \<and> can' = can))"
  using assms
proof (induction cs arbitrary: w act can cq)
  case Nil
  then have "run_apis K [] w = Ok w \<and> ctx_inv K reg F U w act can (cq @ []) L ext D" by simp
  then show ?case by fastforce
next
  case (Cons c cs)
  have "api_ok U c" using Cons.prems(2) by simp
  from run_api_ok [OF Cons.prems(1) this] show ?case
  proof (elim disjE exE conjE)
    fix z assume z: "may_stop (\<exists>fd. c = ApiCancel fd) (Suc (works w + ext) < 2 ^ 64) z"
      and r: "run_api K w c = stop z"
    have "run_apis K (c # cs) w = stop z" using r by simp
    moreover have "may_stop (\<exists>fd. ApiCancel fd \<in> set (c # cs)) (works w + ext + length (c # cs) < 2 ^ 64) z"
      by (rule may_stop_mono [OF z]) auto
    ultimately show ?thesis by blast
  next
    fix w1 act1 can1 new1
    assume r: "run_api K w c = Ok w1" and inv: "ctx_inv K reg F U w1 act1 can1 (cq @ new1) L ext D"
      and wk: "works w1 \<le> Suc (works w)" and k: "\<forall>a \<in> set (items_of L). objs w1 a = objs w a"
      and p: "is_post c \<longrightarrow> act1 = act \<and> can1 = can"
    have e: "run_apis K (c # cs) w = run_apis K cs w1" using r by simp
    have ok: "\<forall>c \<in> set cs. api_ok U c" using Cons.prems(2) by simp
    from Cons.IH [OF inv ok] show ?thesis
    proof (elim disjE exE conjE)
      fix z assume z: "may_stop (\<exists>fd. ApiCancel fd \<in> set cs) (works w1 + ext + length cs < 2 ^ 64) z"
        and r: "run_apis K cs w1 = stop z"
      have "may_stop (\<exists>fd. ApiCancel fd \<in> set (c # cs)) (works w + ext + length (c # cs) < 2 ^ 64) z"
        by (rule may_stop_mono [OF z]) (use wk in auto)
      then show ?thesis using r e by auto
    next
      fix w2 act2 can2 new2
      assume "run_apis K cs w1 = Ok w2" "ctx_inv K reg F U w2 act2 can2 ((cq @ new1) @ new2) L ext D"
        "works w2 \<le> works w1 + length cs" "\<forall>a \<in> set (items_of L). objs w2 a = objs w1 a"
        "(\<forall>c \<in> set cs. is_post c) \<longrightarrow> act2 = act1 \<and> can2 = can1"
      then have "run_apis K (c # cs) w = Ok w2 \<and> ctx_inv K reg F U w2 act2 can2 (cq @ (new1 @ new2)) L ext D
          \<and> works w2 \<le> works w + length (c # cs) \<and> (\<forall>a \<in> set (items_of L). objs w2 a = objs w a)
          \<and> ((\<forall>c \<in> set (c # cs). is_post c) \<longrightarrow> act2 = act \<and> can2 = can)"
        using e wk k p by simp
      then show ?thesis by blast
    qed
  qed
qed

section \<open>Dispatching one item\<close>

text \<open>The argument of an operation's handler, whether the handler throws, and what it leaves.\<close>

primrec passed_arg :: "completion \<Rightarrow> io_arg option \<Rightarrow> io_arg option" where
  "passed_arg (Fn _) arg = arg"
| "passed_arg (WrapWork _ f) arg = passed_arg f arg"
| "passed_arg (BindResult result f) arg = passed_arg f (Some result)"
| "passed_arg (OwnFd _ f) arg = passed_arg f arg"
| "passed_arg (AcceptInto _ f) arg =
     passed_arg f (case arg of Some (ArgAccept r) \<Rightarrow> Some (ArgConnect (convert_result id to_void r))
                   | _ \<Rightarrow> None)"

fun dispatch_arg :: "async_op \<Rightarrow> io_arg option" where
  "dispatch_arg (PlainOp f) = passed_arg f None"
| "dispatch_arg (IoOp op) = passed_arg (aio_f op) (op_result (aio_operation op))"

lemma enter_plain: "plain_closure f \<Longrightarrow> enter_closure K f arg w = Ok (passed_arg f arg, w)"
  by (induction f arbitrary: arg) auto

definition handler_call :: "'u handlers \<Rightarrow> async_op \<Rightarrow> 'u \<Rightarrow> api list \<times> nat option \<times> 'u" where
  "handler_call H x u = H (handler_of (op_completion x)) (dispatch_arg x) u"

abbreviation handler_calls :: "'u handlers \<Rightarrow> async_op \<Rightarrow> 'u \<Rightarrow> nat" where
  "handler_calls H x u \<equiv> length (fst (handler_call H x u))"

abbreviation handler_throws :: "'u handlers \<Rightarrow> async_op \<Rightarrow> 'u \<Rightarrow> nat option" where
  "handler_throws H x u \<equiv> fst (snd (handler_call H x u))"

abbreviation user_after :: "'u handlers \<Rightarrow> async_op \<Rightarrow> 'u \<Rightarrow> 'u" where
  "user_after H x u \<equiv> snd (snd (handler_call H x u))"

lemma lists_rotate3: "lists h (A # B # C # L) \<longleftrightarrow> lists h (C # A # B # L)"
  by (cases A; cases B; cases C) (auto simp: lists_Cons)

text \<open>An object that has left the lists is freed, while its closure still exists.\<close>

lemma ctx_inv_deallocate:
  assumes inv: "ctx_inv K reg F U w act can cq L ext D"
    and l: "lists h ((operations_list, act @ can) # (completion_queue, cq') # L')"
    and dis: "x \<notin> set (owned_items ((operations_list, act @ can) # (completion_queue, cq') # L'))"
    and sets: "set cq \<union> set (items_of L) = insert x (set cq' \<union> set (items_of L'))"
    and sub: "set cq' \<subseteq> set cq" "set (items_of L') \<subseteq> set (items_of L)"
      "set (owned_items L') \<subseteq> set (owned_items L)"
  shows "ctx_inv K reg F U (deallocate (w\<lparr>links := h\<rparr>) x) act can cq' L' (ext + obj_work w x) (D + obj_fds w x)"
    and "works (deallocate (w\<lparr>links := h\<rparr>) x) + obj_work w x = works w"
proof -
  let ?w = "deallocate (w\<lparr>links := h\<rparr>) x"
  have p: "poll_inv K reg F w act can cq L"
    and d: "dom (objs w) = set act \<union> set can \<union> insert x (set cq' \<union> set (items_of L'))"
    using inv sets by (auto simp: ctx_inv_def)
  have x: "x \<notin> set act" "x \<notin> set can" "x \<notin> set cq'" "x \<notin> set (items_of L')"
    using dis items_of_owned [of L'] by auto
  have o: "objs ?w a = objs w a" if "a \<noteq> x" for a using that by (simp add: deallocate_def)
  have sp: "poll_inv K reg F ?w act can cq' L'"
  proof (rule poll_inv_cong [OF p])
    show "same_scheduler reg F w ?w" by (simp add: same_scheduler_def deallocate_def)
    show "lists (links ?w) ((operations_list, act @ can) # (completion_queue, cq') # L')"
      using lists_free_item [OF dis] l by (simp add: deallocate_def)
    show "objs ?w a = objs w a" if "a \<in> set act \<or> a \<in> set can \<or> a \<in> set cq'" for a
      using that x by (intro o) auto
  qed (rule sub(1))
  have dom: "dom (objs ?w) = dom (objs w) - {x}" "x \<in> dom (objs w)" using d by (auto simp: deallocate_def)
  have cs: "closure_sum g ?w + g (closure_at w x) = closure_sum g w" for g :: "completion \<Rightarrow> 'z :: comm_monoid_add"
  proof -
    have "closure_sum g ?w = (\<Sum>a \<in> dom (objs w) - {x}. g (closure_at w a))"
      unfolding closure_sum_def dom using o by (intro sum.cong) auto
    then show ?thesis
      using sum.remove [OF ctx_inv_finite [OF inv] dom(2), of "\<lambda>a. g (closure_at w a)"]
      by (simp add: closure_sum_def add.commute)
  qed
  show wk: "works ?w + obj_work w x = works w" by (rule cs)
  have "fds_inv F U ?w act (D + obj_fds w x)"
  proof (rule fds_inv_cong [of F U w act D])
    show "D + obj_fds w x + fds_owned ?w = D + fds_owned w"
      unfolding cs [of own_fds, symmetric] by (simp add: ac_simps)
    show "\<forall>a \<in> set act. fd_at ?w a \<in> U \<or> fd_at ?w a \<in># obj_fds ?w a"
      using inv x(1) by (auto simp: ctx_inv_def fds_inv_def deallocate_def)
  qed (use inv in \<open>auto simp: ctx_inv_def deallocate_def\<close>)
  moreover
  have "dom (objs ?w) = set act \<union> set can \<union> set cq' \<union> set (items_of L')"
    using dom d x by auto
  moreover have "\<forall>a \<in> set (items_of L'). finished (objs ?w a)"
  proof
    fix a assume "a \<in> set (items_of L')"
    then show "finished (objs ?w a)" using inv x o [of a] sub(2) by (cases "a = x") (auto simp: ctx_inv_def)
  qed
  moreover have "\<forall>a \<in> dom (objs ?w). well_wrapped (closure_at ?w a)"
    using inv dom o by (auto simp: ctx_inv_def)
  moreover have "\<forall>a \<in> set (owned_items ((operations_list, act @ can) # (completion_queue, cq') # L')).
      a < next_addr ?w"
    using inv sub(1,3) by (auto simp: ctx_inv_def deallocate_def)
  moreover have "remaining_count ?w = of_nat (works ?w + (ext + obj_work w x))"
  proof -
    have "remaining_count ?w = of_nat (works w + ext)" using inv by (simp add: ctx_inv_def deallocate_def)
    then show ?thesis unfolding wk [symmetric] by (simp add: add.assoc add.commute)
  qed
  ultimately show "ctx_inv K reg F U ?w act can cq' L' (ext + obj_work w x) (D + obj_fds w x)"
    using inv sp wk unfolding ctx_inv_def by simp
qed

lemma ctx_inv_pop:
  assumes inv: "ctx_inv K reg F U w act can cq ((t, x # xs) # L) ext D"
    and pop: "pop_front (links w) t = Ok h"
  shows "ctx_inv K reg F U (deallocate (w\<lparr>links := h\<rparr>) x) act can cq ((t, xs) # L) (ext + obj_work w x) (D + obj_fds w x)"
    and "works (deallocate (w\<lparr>links := h\<rparr>) x) + obj_work w x = works w"
proof -
  let ?A = "(operations_list, act @ can)" and ?B = "(completion_queue, cq)"
  have l: "lists (links w) ((t, x # xs) # ?A # ?B # L)"
    using inv lists_rotate3 unfolding ctx_inv_def poll_inv_def sched_inv_def by blast
  have "lists h ((t, xs) # ?A # ?B # L)" using owned_pop_front [OF l] pop by auto
  then have l1: "lists h (?A # ?B # (t, xs) # L)" using lists_rotate3 by blast
  have dis: "x \<notin> set (owned_items (?A # ?B # (t, xs) # L))" using l by (auto simp: lists_Cons il_def)
  note goal = ctx_inv_deallocate [OF inv l1 dis]
  show "ctx_inv K reg F U (deallocate (w\<lparr>links := h\<rparr>) x) act can cq ((t, xs) # L) (ext + obj_work w x) (D + obj_fds w x)"
    and "works (deallocate (w\<lparr>links := h\<rparr>) x) + obj_work w x = works w"
    by (rule goal; auto)+
qed

lemma ctx_inv_pop_queue:
  assumes inv: "ctx_inv K reg F U w act can (x # xs) L ext D"
    and pop: "pop_front (links w) completion_queue = Ok h"
  shows "ctx_inv K reg F U (deallocate (w\<lparr>links := h\<rparr>) x) act can xs L (ext + obj_work w x) (D + obj_fds w x)"
    and "works (deallocate (w\<lparr>links := h\<rparr>) x) + obj_work w x = works w"
proof -
  let ?A = "(operations_list, act @ can)"
  have l: "lists (links w) ((completion_queue, x # xs) # ?A # L)"
    using inv lists_swap unfolding ctx_inv_def poll_inv_def sched_inv_def by blast
  have "lists h ((completion_queue, xs) # ?A # L)" using owned_pop_front [OF l] pop by auto
  then have l1: "lists h (?A # (completion_queue, xs) # L)" using lists_swap by blast
  have dis: "x \<notin> set (owned_items (?A # (completion_queue, xs) # L))" using l by (auto simp: lists_Cons il_def)
  note goal = ctx_inv_deallocate [OF inv l1 dis]
  show "ctx_inv K reg F U (deallocate (w\<lparr>links := h\<rparr>) x) act can xs L (ext + obj_work w x) (D + obj_fds w x)"
    and "works (deallocate (w\<lparr>links := h\<rparr>) x) + obj_work w x = works w"
    by (rule goal; auto)+
qed

lemma dispatch_unfold:
  assumes "objs w x = Some op" and "finished (Some op)" and "plain_closure (op_completion op)"
  shows "dispatch K H x u w =
    (let (calls, ex, u') = handler_call H op u
     in run_bind (run_apis K calls (deallocate w x)) (\<lambda>w.
        run_bind (destroy_closure True K (op_completion op) w) (\<lambda>w.
        Ok (map_option UserException ex, u', w))))"
  using assms
  by (cases op)
    (auto simp: dispatch_def handler_call_def call_handler_def op_dispatch_def finished_def enter_plain)

lemma dispatch_ok:
  assumes inv: "ctx_inv K reg F U w act can cq ((t, x # xs) # L) ext D"
    and pop: "pop_front (links w) t = Ok h" and H: "handlers_ok U H" and x: "objs w x = Some op"
  shows "(\<exists>z. may_stop (handlers_cancel H) (works w + ext + handler_calls H op u < 2 ^ 64) z
        \<and> dispatch K H x u (w\<lparr>links := h\<rparr>) = stop z)
    \<or> (\<exists>w' act' can' new. dispatch K H x u (w\<lparr>links := h\<rparr>)
          = Ok (map_option UserException (handler_throws H op u), user_after H op u, w')
        \<and> ctx_inv K reg F U w' act' can' (cq @ new) ((t, xs) # L) ext D
        \<and> works w' + obj_work w x \<le> works w + handler_calls H op u
        \<and> (\<forall>a \<in> set xs \<union> set (items_of L). objs w' a = objs w a)
        \<and> (handlers_post H \<longrightarrow> act' = act \<and> can' = can))"
proof -
  obtain calls ex u' where call: "handler_call H op u = (calls, ex, u')" by (metis prod_cases3)
  have calls: "calls = fst (H (handler_of (op_completion op)) (dispatch_arg op) u)"
    using call by (simp add: handler_call_def)
  have ok: "\<forall>c \<in> set calls. api_ok U c" and n: "handler_calls H op u = length calls"
    and posts: "handlers_post H \<Longrightarrow> \<forall>c \<in> set calls. is_post c" and cancels: "\<exists>fd. ApiCancel fd \<in> set calls \<Longrightarrow> handlers_cancel H"
    using H call by (auto simp: handlers_ok_def handlers_cancel_def handlers_post_def calls)
  let ?w = "deallocate (w\<lparr>links := h\<rparr>) x"
  have wx: "obj_work w x = active_work (op_completion op)" "obj_fds w x = own_fds (op_completion op)"
    using x by simp_all
  note pop1 = ctx_inv_pop(1) [OF inv pop] and pop2 = ctx_inv_pop(2) [OF inv pop]
  have "x \<notin> set xs \<union> set (items_of L)"
    using inv items_of_owned [of L]
    by (auto simp: ctx_inv_def poll_inv_def sched_inv_def lists_Cons il_def)
  then have kept: "objs ?w a = objs w a" if "a \<in> set xs \<union> set (items_of L)" for a
    using that by (auto simp: deallocate_def)
  have plain: "plain_closure (op_completion op)" and "finished (Some op)"
    using inv x by (auto simp: ctx_inv_def well_wrapped_def dom_def)
  then have run: "dispatch K H x u (w\<lparr>links := h\<rparr>) = run_bind (run_apis K calls ?w) (\<lambda>w.
      run_bind (destroy_closure True K (op_completion op) w) (\<lambda>w.
      Ok (map_option UserException ex, u', w)))"
    using dispatch_unfold [of "w\<lparr>links := h\<rparr>" x op K H u] x call by simp
  from run_apis_ok [OF pop1 ok] show ?thesis
  proof (elim disjE exE conjE)
    fix z assume z: "may_stop (\<exists>fd. ApiCancel fd \<in> set calls)
        (works ?w + (ext + obj_work w x) + length calls < 2 ^ 64) z" and r: "run_apis K calls ?w = stop z"
    have "may_stop (handlers_cancel H) (works w + ext + handler_calls H op u < 2 ^ 64) z"
      by (rule may_stop_mono [OF z cancels]) (use pop2 n in auto)
    then show ?thesis using r run by auto
  next
    fix w1 act1 can1 new1
    assume r: "run_apis K calls ?w = Ok w1"
      and i1: "ctx_inv K reg F U w1 act1 can1 (cq @ new1) ((t, xs) # L) (ext + obj_work w x) (D + obj_fds w x)"
      and wk: "works w1 \<le> works ?w + length calls"
      and k1: "\<forall>a \<in> set (items_of ((t, xs) # L)). objs w1 a = objs ?w a"
      and p1: "(\<forall>c \<in> set calls. is_post c) \<longrightarrow> act1 = act \<and> can1 = can"
    obtain w2 where w2: "destroy_closure True K (op_completion op) w1 = Ok w2"
      "ctx_inv K reg F U w2 act1 can1 (cq @ new1) ((t, xs) # L) ext D" "objs w2 = objs w1"
      using ctx_inv_destroy_closure [OF i1 [unfolded wx] plain] by blast
    have "works w2 = works w1" using w2(3) by (rule closure_sum_objs)
    then have "works w2 + obj_work w x \<le> works w + handler_calls H op u" using wk pop2 n by simp
    moreover have "\<forall>a \<in> set xs \<union> set (items_of L). objs w2 a = objs w a"
      using k1 kept w2(3) by simp
    moreover have "dispatch K H x u (w\<lparr>links := h\<rparr>)
        = Ok (map_option UserException (handler_throws H op u), user_after H op u, w2)"
      using run r w2(1) call by simp
    ultimately show ?thesis using w2(2) p1 posts by blast
  qed
qed

section \<open>Dispatching the whole queue\<close>

text \<open>The active \<^verbatim>\<open>Work\<close> objects of a list of operations.\<close>

definition work_of :: "async_op list \<Rightarrow> nat" where
  "work_of xs = sum_list (map (\<lambda>x. active_work (op_completion x)) xs)"

lemma work_of_simps [simp]:
  "work_of [] = 0" "work_of (x # xs) = active_work (op_completion x) + work_of xs"
  "work_of (xs @ ys) = work_of xs + work_of ys"
  by (simp_all add: work_of_def)

text \<open>
  The user's state after the handlers of a list of operations, that none of them throws, and the
  number of calls into the library they make.
\<close>

fun run_handlers :: "'u handlers \<Rightarrow> async_op list \<Rightarrow> 'u \<Rightarrow> 'u" where
  "run_handlers H [] u = u"
| "run_handlers H (x # xs) u = run_handlers H xs (user_after H x u)"

fun handlers_return :: "'u handlers \<Rightarrow> async_op list \<Rightarrow> 'u \<Rightarrow> bool" where
  "handlers_return H [] u = True"
| "handlers_return H (x # xs) u \<longleftrightarrow> handler_throws H x u = None \<and> handlers_return H xs (user_after H x u)"

fun calls_of :: "'u handlers \<Rightarrow> async_op list \<Rightarrow> 'u \<Rightarrow> nat" where
  "calls_of H [] u = 0"
| "calls_of H (x # xs) u = handler_calls H x u + calls_of H xs (user_after H x u)"

lemma calls_of_snoc: "calls_of H (xs @ [x]) u = calls_of H xs u + handler_calls H x (run_handlers H xs u)"
  by (induction xs arbitrary: u) auto

lemma run_handlers_snoc: "run_handlers H (xs @ [x]) u = user_after H x (run_handlers H xs u)"
  by (induction xs arbitrary: u) auto

lemma run_handlers_append: "run_handlers H (xs @ ys) u = run_handlers H ys (run_handlers H xs u)"
  by (induction xs arbitrary: u) auto

lemma handlers_return_snoc:
  "handlers_return H (xs @ [x]) u \<longleftrightarrow>
     handlers_return H xs u \<and> handler_throws H x (run_handlers H xs u) = None"
  by (induction xs arbitrary: u) auto

lemma handlers_return_append:
  "handlers_return H (xs @ ys) u \<longleftrightarrow> handlers_return H xs u \<and> handlers_return H ys (run_handlers H xs u)"
  by (induction xs arbitrary: u) auto

text \<open>
  The states between two items: \<open>ops\<close> are the operations of the queue when \<^verbatim>\<open>run_once\<close> was
  called; a first part \<open>ds\<close> has been dispatched, the items \<open>xs\<close> are still in the list.
\<close>

record ('u, 'k) drain_params =
  dp_kernel :: "'k kernel"
  dp_handlers :: "'u handlers"
  dp_reg :: "'k \<Rightarrow> fd \<rightharpoonup> u32"
  dp_fds :: "'k \<Rightarrow> fd set"
  dp_user_fds :: "fd set"
  dp_start :: "addr list \<times> addr list"
  dp_tmp :: addr
  dp_lists :: owned
  dp_ext :: nat
  dp_held :: "fd multiset"
  dp_ops :: "async_op list"
  dp_user :: 'u
  dp_room :: bool
  dp_works :: nat
  dp_outer :: "addr \<rightharpoonup> async_op"

definition drain_ctx :: "('u, 'k) drain_params \<Rightarrow> addr list \<Rightarrow> 'k world \<Rightarrow> bool" where
  "drain_ctx p xs w \<longleftrightarrow>
     handlers_ok (dp_user_fds p) (dp_handlers p)
     \<and> (\<exists>act can cq. ctx_inv (dp_kernel p) (dp_reg p) (dp_fds p) (dp_user_fds p) w act can cq
          ((dp_tmp p, xs) # dp_lists p) (dp_ext p) (dp_held p)
          \<and> (handlers_post (dp_handlers p) \<longrightarrow> (act, can) = dp_start p))
     \<and> (\<forall>a \<in> set (items_of (dp_lists p)). objs w a = dp_outer p a)"

definition drain_inv :: "('u, 'k) drain_params \<Rightarrow> addr list \<Rightarrow> ('u, 'k) drain_state \<Rightarrow> bool" where
  "drain_inv p xs st = (case st of (n, u, w) \<Rightarrow>
     drain_ctx p xs w
     \<and> (\<exists>ds rest. dp_ops p = ds @ rest \<and> n = length ds \<and> map (objs w) xs = map Some rest
          \<and> works w + work_of ds \<le> dp_works p + calls_of (dp_handlers p) ds (dp_user p)
          \<and> (dp_room p \<longrightarrow> works w + dp_ext p + calls_of (dp_handlers p) rest u < 2 ^ 64)
          \<and> u = run_handlers (dp_handlers p) ds (dp_user p)
          \<and> handlers_return (dp_handlers p) ds (dp_user p)))"

definition drain_exn :: "('u, 'k) drain_params \<Rightarrow> exn \<Rightarrow> addr list \<Rightarrow> ('u, 'k) drain_state \<Rightarrow> bool" where
  "drain_exn p e xs st = (case st of (n, u, w) \<Rightarrow>
     drain_ctx p xs w
     \<and> (\<exists>ds x rest ex. dp_ops p = ds @ x # rest \<and> n = length ds \<and> map (objs w) xs = map Some rest
          \<and> e = UserException ex
          \<and> handlers_return (dp_handlers p) ds (dp_user p)
          \<and> handler_throws (dp_handlers p) x (run_handlers (dp_handlers p) ds (dp_user p)) = Some ex
          \<and> u = run_handlers (dp_handlers p) (ds @ [x]) (dp_user p)))"

lemma drain_inv_il: "drain_inv p xs st \<Longrightarrow> il (drain_links st) (dp_tmp p) xs"
  by (auto simp: drain_inv_def drain_ctx_def drain_links_def ctx_inv_def poll_inv_def sched_inv_def
      lists_Cons)

lemma drain_dispatch:
  assumes inv: "drain_inv p (x # xs) st" and pop: "pop_front (drain_links st) (dp_tmp p) = Ok h"
  shows "(\<exists>z. may_stop (handlers_cancel (dp_handlers p)) (dp_room p) z
        \<and> dispatch_item (dp_kernel p) (dp_handlers p) x (put_drain_links h st) = stop z)
    \<or> (\<exists>ex st'. dispatch_item (dp_kernel p) (dp_handlers p) x (put_drain_links h st) = Ok (ex, st')
        \<and> (case ex of None \<Rightarrow> drain_inv p xs st' | Some e \<Rightarrow> drain_exn p e xs st'))"
proof -
  let ?H = "dp_handlers p" and ?K = "dp_kernel p" and ?calls = "calls_of (dp_handlers p)"
  obtain n u w where st: "st = (n, u, w)" by (metis prod_cases3)
  obtain act can cq where H: "handlers_ok (dp_user_fds p) ?H"
    and ctx: "ctx_inv ?K (dp_reg p) (dp_fds p) (dp_user_fds p) w act can cq ((dp_tmp p, x # xs) # dp_lists p) (dp_ext p) (dp_held p)"
    and start: "handlers_post ?H \<longrightarrow> (act, can) = dp_start p"
    and outer: "\<forall>a \<in> set (items_of (dp_lists p)). objs w a = dp_outer p a"
    using inv st by (auto simp: drain_inv_def drain_ctx_def)
  obtain ds op rest where ops: "dp_ops p = ds @ op # rest" "n = length ds" "objs w x = Some op"
    "map (objs w) xs = map Some rest" "u = run_handlers ?H ds (dp_user p)"
    "handlers_return ?H ds (dp_user p)" "works w + work_of ds \<le> dp_works p + ?calls ds (dp_user p)"
    and room: "dp_room p \<longrightarrow> works w + dp_ext p + ?calls (op # rest) u < 2 ^ 64"
    using inv st by (auto simp: drain_inv_def Cons_eq_map_conv)
  have pop': "pop_front (links w) (dp_tmp p) = Ok h" using pop st by (simp add: drain_links_def)
  from dispatch_ok [OF ctx pop' H ops(3), of u] show ?thesis
  proof (elim disjE exE conjE)
    fix z assume z: "may_stop (handlers_cancel ?H) (works w + dp_ext p + handler_calls ?H op u < 2 ^ 64) z"
      and d: "dispatch ?K ?H x u (w\<lparr>links := h\<rparr>) = stop z"
    have "may_stop (handlers_cancel ?H) (dp_room p) z"
      by (rule may_stop_mono [OF z]) (use room in auto)
    then show ?thesis using d st by (auto simp: dispatch_item_def put_drain_links_def)
  next
    fix w' act' can' new
    assume d: "dispatch ?K ?H x u (w\<lparr>links := h\<rparr>)
        = Ok (map_option UserException (handler_throws ?H op u), user_after ?H op u, w')"
      and c': "ctx_inv ?K (dp_reg p) (dp_fds p) (dp_user_fds p) w' act' can' (cq @ new) ((dp_tmp p, xs) # dp_lists p) (dp_ext p) (dp_held p)"
      and wk: "works w' + obj_work w x \<le> works w + handler_calls ?H op u"
      and st': "handlers_post ?H \<longrightarrow> act' = act \<and> can' = can"
      and k: "\<forall>a \<in> set xs \<union> set (items_of (dp_lists p)). objs w' a = objs w a"
    have ctx': "drain_ctx p xs w'"
      using H c' k outer start st' unfolding drain_ctx_def by auto
    have m: "map (objs w') xs = map Some rest" using ops(4) k by (metis (no_types, lifting) UnI1 map_eq_conv)
    let ?ex = "map_option UserException (handler_throws ?H op u)"
    let ?st = "(if ?ex = None then n + 1 else n, user_after ?H op u, w')"
    have run: "dispatch_item ?K ?H x (put_drain_links h st) = Ok (?ex, ?st)"
      using d st by (simp add: dispatch_item_def put_drain_links_def)
    have "case ?ex of None \<Rightarrow> drain_inv p xs ?st | Some e \<Rightarrow> drain_exn p e xs ?st"
    proof (cases "handler_throws ?H op u")
      case None
      have "works w' + work_of (ds @ [op]) \<le> dp_works p + ?calls (ds @ [op]) (dp_user p)"
        "dp_room p \<longrightarrow> works w' + dp_ext p + ?calls rest (user_after ?H op u) < 2 ^ 64"
        using ops(3,5,7) wk room by (auto simp: calls_of_snoc)
      then have "drain_inv p xs (n + 1, user_after ?H op u, w')"
        using ctx' m ops None unfolding drain_inv_def
        by (auto intro!: exI [of _ "ds @ [op]"] simp: run_handlers_snoc handlers_return_snoc)
      then show ?thesis using None by simp
    next
      case (Some e)
      then have "drain_exn p (UserException e) xs (n, user_after ?H op u, w')"
        using ctx' m ops unfolding drain_exn_def
        by (auto intro!: exI [of _ ds] exI [of _ op] simp: run_handlers_snoc)
      then show ?thesis using Some by simp
    qed
    then show ?thesis using run by blast
  qed
qed

interpretation queue_drain: drain_callback drain_links put_drain_links "dp_tmp p"
  "dispatch_item (dp_kernel p) (dp_handlers p)" "drain_inv p" "drain_exn p"
  "may_stop (handlers_cancel (dp_handlers p)) (dp_room p)"
  for p :: "('u, 'k) drain_params"
  by unfold_locales (fact drain_inv_il, fact drain_dispatch)

section \<open>Polling and leaving\<close>

lemma poll_once_ctx:
  assumes inv: "ctx_inv K reg F U w act can cq L ext D" and run: "poll_once K block w = Some y"
  shows "\<exists>r w' act' cq'. y = Inr (r, w') \<and> ctx_inv K reg F U w' act' [] (cq @ cq') L ext D
    \<and> works w' = works w \<and> (\<forall>a \<in> set cq \<union> set (items_of L). objs w' a = objs w a)
    \<and> (\<forall>e. r = Inl e \<longrightarrow> (\<exists>en. e = SystemError en))"
proof -
  have p: "poll_inv K reg F w act can cq L" using inv by (simp add: ctx_inv_def)
  obtain r w' act' ds where o: "y = Inr (r, w')" "poll_inv K reg F w' act' [] (cq @ can @ ds) L"
    "poll_effect w act w' act' ds" "F (kern w) \<subseteq> F (kern w')"
    "case r of Inl e \<Rightarrow> \<exists>en. e = SystemError en | Inr m \<Rightarrow> m = length ds"
    using poll_once_outcome [OF p run] by blast
  have s: "same_setup w w'" and sets: "set act = set act' \<union> set ds"
    and keep: "\<forall>a. a \<notin> set act \<longrightarrow> objs w' a = objs w a"
    using o(3) by (auto simp: poll_effect_def)
  have l: "lists (links w) ((operations_list, act @ can) # (completion_queue, cq) # L)"
    using p by (simp add: poll_inv_def sched_inv_def)
  then have kept: "\<forall>a \<in> set cq \<union> set (items_of L). objs w' a = objs w a"
    using keep items_of_owned [of L] by (auto simp: lists_Cons)
  have "ctx_inv K reg F U w' act' [] (cq @ can @ ds) L ext D"
    by (rule ctx_inv_rearrange [OF inv s o(4,2)]) (use sets kept in auto)
  then show ?thesis
    using o(1,5) closure_sum_same_setup(1) [OF s] kept
    by (intro exI [of _ r] exI [of _ w'] exI [of _ act'] exI [of _ "can @ ds"]) auto
qed

lemma leave_run_once_ok:
  assumes inv: "ctx_inv K reg F U w act can cq ((t, xs) # L) ext D"
  shows "\<exists>w'. leave_run_once w t = Ok w' \<and> ctx_inv K reg F U w' act can (xs @ cq) L ext D
    \<and> objs w' = objs w \<and> works w' = works w"
proof -
  let ?A = "(operations_list, act @ can)"
  have p: "poll_inv K reg F w act can cq ((t, xs) # L)"
    and l: "lists (links w) (?A # (completion_queue, cq) # (t, xs) # L)"
    using inv by (auto simp: ctx_inv_def poll_inv_def sched_inv_def)
  have l': "lists (links w) ((completion_queue, [] @ cq) # (t, xs) # ?A # L)"
    using l lists_rotate3 lists_swap by (metis append_Nil)
  have il: "il (links w) t xs" "il (links w) completion_queue cq" using l by (auto simp: lists_Cons)
  obtain r h where h: "splice_all (links w) completion_queue (hd (cq @ [completion_queue])) t = Ok (r, h)"
    "lists h ((completion_queue, xs @ cq) # (t, []) # ?A # L)"
    using owned_splice_all [OF l'] by auto
  let ?h = "if xs = [] then links w else h"
  have h': "lists ?h ((completion_queue, xs @ cq) # (t, []) # ?A # L)"
    using h(2) l' by auto
  let ?w = "w\<lparr>links := free_item ?h t\<rparr>"
  have run: "leave_run_once w t = Ok ?w"
    using h(1) il_empty_il [OF il(1)] il_begin_il [OF il(2)] by (auto simp: leave_run_once_def put_back_def)
  have h3: "lists ?h (?A # (completion_queue, xs @ cq) # L)" and t: "t \<notin> set (owned_items (?A # (completion_queue, xs @ cq) # L))"
    using h' by (auto simp: lists_Cons)
  then have lf: "lists (links ?w) (?A # (completion_queue, xs @ cq) # L)"
    by (simp add: lists_free_item)
  have fin: "\<forall>a \<in> set xs. finished (objs w a)" using inv by (auto simp: ctx_inv_def)
  have "poll_inv K reg F ?w act can (xs @ cq) L"
    using p lf fin unfolding poll_inv_def sched_inv_def registered_inv_def by auto
  moreover have "fds_inv F U ?w act D"
    by (rule fds_inv_cong [of F U w act D]) (use inv in \<open>auto simp: ctx_inv_def fds_inv_def\<close>)
  ultimately have "ctx_inv K reg F U ?w act can (xs @ cq) L ext D"
    using inv unfolding ctx_inv_def by auto
  then show ?thesis using run by auto
qed

section \<open>The whole function\<close>

lemma run_once_start:
  assumes inv: "ctx_inv K reg F U w act can cq L ext D"
  shows "\<exists>h1 r h2. il_construct (links w) (next_addr w) = Ok h1
    \<and> splice_all h1 (next_addr w) (next_addr w) completion_queue = Ok (r, h2)
    \<and> il_empty h2 completion_queue = Ok True
    \<and> ctx_inv K reg F U (w\<lparr>next_addr := Suc (next_addr w), links := h2\<rparr>) act can []
        ((next_addr w, cq) # L) ext D"
proof -
  let ?A = "(operations_list, act @ can)" and ?t = "next_addr w"
  note fresh = ctx_inv_fresh [OF inv]
  have p: "poll_inv K reg F w act can cq L" and l: "lists (links w) (?A # (completion_queue, cq) # L)"
    using inv by (auto simp: ctx_inv_def poll_inv_def sched_inv_def)
  obtain h1 where h1: "il_construct (links w) ?t = Ok h1" "lists h1 ((?t, []) # ?A # (completion_queue, cq) # L)"
    using owned_construct [OF l fresh(1,3)] by blast
  have l1: "lists h1 ((?t, [] @ []) # (completion_queue, cq) # ?A # L)"
    using h1(2) by (auto simp: lists_Cons)
  obtain r h2 where h2: "splice_all h1 ?t ?t completion_queue = Ok (r, h2)"
    "lists h2 ((?t, cq) # (completion_queue, []) # ?A # L)"
    using owned_splice_all [OF l1] by auto
  have l2: "lists h2 (?A # (completion_queue, []) # (?t, cq) # L)"
    using h2(2) by (auto simp: lists_Cons)
  let ?w = "w\<lparr>next_addr := Suc ?t, links := h2\<rparr>"
  have "poll_inv K reg F ?w act can [] ((?t, cq) # L)"
    using p l2 unfolding poll_inv_def sched_inv_def registered_inv_def by simp
  moreover have "fds_inv F U ?w act D"
    by (rule fds_inv_cong [of F U w act D]) (use inv in \<open>auto simp: ctx_inv_def fds_inv_def\<close>)
  moreover have "\<forall>a \<in> set cq. finished (objs w a)" using p by (simp add: poll_inv_def sched_inv_def)
  ultimately have "ctx_inv K reg F U ?w act can [] ((?t, cq) # L) ext D"
    using inv unfolding ctx_inv_def by (auto simp: less_Suc_eq)
  moreover have "il_empty h2 completion_queue = Ok True"
    using l2 by (auto simp: lists_Cons il_empty_il)
  ultimately show ?thesis using h1(1) h2(1) by blast
qed

text \<open>A poll that is not to block may go on for ever only if the kernel fills the event buffer.\<close>

definition kernel_fills_buffer :: "'k kernel \<Rightarrow> fd \<Rightarrow> bool" where
  "kernel_fills_buffer K efd \<longleftrightarrow>
     (\<exists>k t. sr_ret (fst (K k (Sys_epoll_wait efd kMaxEventsPerPoll t))) = int kMaxEventsPerPoll)"

text \<open>
  What is guaranteed when \<^verbatim>\<open>run_once\<close> returns or throws: \<open>cq\<close> is the queue at the call,
  \<open>cq'\<close> the one afterwards, \<open>ob\<close> gives the operation objects at the call.
\<close>

definition run_once_post ::
  "'u handlers \<Rightarrow> (addr \<Rightarrow> async_op) \<Rightarrow> addr list \<Rightarrow> 'u \<Rightarrow> exn + nat \<Rightarrow> 'u \<Rightarrow> 'k world \<Rightarrow> addr list \<Rightarrow> bool" where
  "run_once_post H ob cq u r u' w' cq' \<longleftrightarrow>
     (case r of
        Inr n \<Rightarrow> n = length cq \<and> handlers_return H (map ob cq) u \<and> u' = run_handlers H (map ob cq) u
      | Inl (SystemError en) \<Rightarrow> handlers_return H (map ob cq) u \<and> u' = run_handlers H (map ob cq) u
      | Inl (UserException e) \<Rightarrow>
          (\<exists>us a xs new. cq = us @ a # xs \<and> handlers_return H (map ob us) u
            \<and> handler_throws H (ob a) (run_handlers H (map ob us) u) = Some e
            \<and> u' = run_handlers H (map ob (us @ [a])) u
            \<and> cq' = xs @ new \<and> (\<forall>x \<in> set xs. objs w' x = Some (ob x)))
      | Inl (RuntimeErrorPtr s) \<Rightarrow> False)"

lemma poll_after_completions_ok:
  assumes c: "ctx_inv K reg F U w act can cq ((t, []) # L) ext D"
  shows "(\<exists>z. may_stop (kernel_fills_buffer K (epoll_fd w) \<and> act @ can \<noteq> []) R z
        \<and> poll_after_completions K t n u w = stop z)
    \<or> (\<exists>r w' act' can' cq'. poll_after_completions K t n u w = Ok (r, u, w')
        \<and> works w' = works w \<and> ctx_inv K reg F U w' act' can' cq' L ext D
        \<and> (r = Inr n \<or> (\<exists>en. r = Inl (SystemError en)) \<and> act @ can \<noteq> [])
        \<and> (act @ can = [] \<longrightarrow> act' @ can' = []))"
proof -
  have p: "poll_inv K reg F w act can cq ((t, []) # L)" using c by (simp add: ctx_inv_def)
  have e: "il_empty (links w) completion_queue = Ok (cq = [])"
    using p by (auto simp: poll_inv_def sched_inv_def lists_Cons il_empty_il)
  show ?thesis
  proof (cases "io_empty w")
    case True
    obtain w2 where w2: "leave_run_once w t = Ok w2" "ctx_inv K reg F U w2 act can ([] @ cq) L ext D"
      "works w2 = works w"
      using leave_run_once_ok [OF c] by blast
    have "poll_after_completions K t n u w = Ok (Inr n, u, w2)"
      using True e w2(1) by (simp add: poll_after_completions_def)
    then show ?thesis using w2(2,3) by blast
  next
    case io: False
    have "poll_queue_length w = of_nat (length act + length can)"
      using p by (simp add: poll_inv_def sched_inv_def)
    then have pos: "act @ can \<noteq> []" using io by (auto simp: io_empty_def)
    show ?thesis
    proof (cases "poll_once K (cq = []) w")
      case None
      then have "kernel_fills_buffer K (epoll_fd w)"
        using poll_once_returns_if_few [OF p, of "cq = []"] by (auto simp: kernel_fills_buffer_def)
      moreover have "poll_after_completions K t n u w = stop None"
        using None io e by (simp add: poll_after_completions_def stop_simps)
      ultimately show ?thesis using pos by (auto simp: may_stop_def)
    next
      case (Some y)
      obtain r w1 act' cq' where y: "y = Inr (r, w1)"
        "ctx_inv K reg F U w1 act' [] (cq @ cq') ((t, []) # L) ext D"
        "\<forall>e. r = Inl e \<longrightarrow> (\<exists>en. e = SystemError en)" "works w1 = works w"
        using poll_once_ctx [OF c Some] by blast
      obtain w2 where w2: "leave_run_once w1 t = Ok w2" "ctx_inv K reg F U w2 act' [] ([] @ cq @ cq') L ext D"
        "works w2 = works w1"
        using leave_run_once_ok [OF y(2)] by blast
      have "poll_after_completions K t n u w = Ok (case r of Inl e \<Rightarrow> Inl e | Inr _ \<Rightarrow> Inr n, u, w2)"
        using io e Some y(1) w2(1) by (simp add: poll_after_completions_def split: sum.splits)
      moreover have "(case r of Inl e \<Rightarrow> Inl e | Inr _ \<Rightarrow> Inr n) = Inr n
          \<or> (\<exists>en. (case r of Inl e \<Rightarrow> Inl e | Inr _ \<Rightarrow> Inr n) = Inl (SystemError en))"
        using y(3) by (cases r) auto
      ultimately show ?thesis using w2(2,3) y(4) pos by metis
    qed
  qed
qed

lemma run_once_unfold:
  assumes "il_construct (links w) (next_addr w) = Ok h1"
    and "splice_all h1 (next_addr w) (next_addr w) completion_queue = Ok (r, h2)"
    and "il_empty h2 completion_queue = Ok True"
  shows "run_once K H u w =
    run_bind (drain_list drain_links put_drain_links (next_addr w) (dispatch_item K H)
        (0, u, w\<lparr>next_addr := Suc (next_addr w), links := h2\<rparr>)) (\<lambda>(ex, n, u, w').
    case ex of
      Some e \<Rightarrow> run_bind (leave_run_once w' (next_addr w)) (\<lambda>w. Ok (Inl e, u, w))
    | None \<Rightarrow> poll_after_completions K (next_addr w) n u w')"
  using assms by (simp add: run_once_def il_end_def Let_def)

lemma run_once_ok:
  assumes inv: "ctx_inv K reg F U w act can cq L ext D" and H: "handlers_ok U H"
    and idle: "idle \<longleftrightarrow> handlers_post H \<and> act @ can = []" and ops: "ops = map (\<lambda>a. the (objs w a)) cq"
  shows "(\<exists>z. may_stop (handlers_cancel H \<or> (\<exists>efd. kernel_fills_buffer K efd) \<and> \<not> idle)
          (works w + ext + calls_of H ops u < 2 ^ 64) z \<and> run_once K H u w = stop z)
    \<or> (\<exists>r u' w' act' can' cq'. run_once K H u w = Ok (r, u', w')
        \<and> ctx_inv K reg F U w' act' can' cq' L ext D
        \<and> (\<forall>n. r = Inr n \<longrightarrow> works w' + work_of ops \<le> works w + calls_of H ops u)
        \<and> (idle \<longrightarrow> act' @ can' = [] \<and> (\<forall>en. r \<noteq> Inl (SystemError en)))
        \<and> run_once_post H (\<lambda>a. the (objs w a)) cq u r u' w' cq')"
proof -
  let ?t = "next_addr w" and ?R = "works w + ext + calls_of H ops u < 2 ^ 64"
  let ?C = "handlers_cancel H \<or> (\<exists>efd. kernel_fills_buffer K efd) \<and> \<not> idle"
  obtain h1 r h2 where st: "il_construct (links w) ?t = Ok h1"
    "splice_all h1 ?t ?t completion_queue = Ok (r, h2)" "il_empty h2 completion_queue = Ok True"
    and c0: "ctx_inv K reg F U (w\<lparr>next_addr := Suc ?t, links := h2\<rparr>) act can [] ((?t, cq) # L) ext D"
    using run_once_start [OF inv] by blast
  let ?w0 = "w\<lparr>next_addr := Suc ?t, links := h2\<rparr>"
  define p where "p = \<lparr>dp_kernel = K, dp_handlers = H, dp_reg = reg, dp_fds = F, dp_user_fds = U, dp_start = (act, can),
    dp_tmp = ?t, dp_lists = L, dp_ext = ext, dp_held = D, dp_ops = ops, dp_user = u, dp_room = ?R,
    dp_works = works w, dp_outer = objs w\<rparr>"
  have "set cq \<subseteq> dom (objs w)" using inv by (auto simp: ctx_inv_def)
  then have "map (objs w) cq = map Some ops" using ops by auto
  then have "drain_inv p cq (0, u, ?w0)"
    using c0 H unfolding drain_inv_def drain_ctx_def p_def by auto
  then consider z where "may_stop (handlers_cancel H) ?R z"
      "drain_list drain_links put_drain_links ?t (dispatch_item K H) (0, u, ?w0) = stop z"
    | n u' w' where "drain_list drain_links put_drain_links ?t (dispatch_item K H) (0, u, ?w0)
        = Ok (None, n, u', w')" "drain_inv p [] (n, u', w')"
    | e us a xs n u' w' where "drain_list drain_links put_drain_links ?t (dispatch_item K H) (0, u, ?w0)
        = Ok (Some e, n, u', w')" "cq = us @ a # xs" "drain_exn p e xs (n, u', w')"
    using queue_drain.drains [of p cq "(0, u, ?w0)"] unfolding p_def
    by (fastforce split: option.splits)
  then show ?thesis
  proof cases
    case (1 z)
    then have "run_once K H u w = stop z" using run_once_unfold [OF st, of K H u] by simp
    moreover have "may_stop ?C ?R z" by (rule may_stop_mono [OF 1(1)]) auto
    ultimately show ?thesis by blast
  next
    case (2 n u' w')
    obtain act' can' cq' where c: "ctx_inv K reg F U w' act' can' cq' ((?t, []) # L) ext D"
      and i: "handlers_post H \<longrightarrow> act' = act \<and> can' = can"
      using 2(2) by (auto simp: drain_inv_def drain_ctx_def p_def)
    have post: "n = length cq" "handlers_return H ops u" "u' = run_handlers H ops u"
      "works w' + work_of ops \<le> works w + calls_of H ops u"
      using 2(2) ops by (auto simp: drain_inv_def p_def)
    have run: "run_once K H u w = poll_after_completions K ?t n u' w'"
      using run_once_unfold [OF st, of K H u] 2(1) by simp
    from poll_after_completions_ok [OF c, of ?R n u'] show ?thesis
    proof (rule disjE; elim exE conjE)
      fix z assume z: "may_stop (kernel_fills_buffer K (epoll_fd w') \<and> act' @ can' \<noteq> []) ?R z"
        and r: "poll_after_completions K ?t n u' w' = stop z"
      have "may_stop ?C ?R z" by (rule may_stop_mono [OF z]) (use i idle in auto)
      then show ?thesis using r run by auto
    next
      fix r w2 act2 can2 cq2
      assume "poll_after_completions K ?t n u' w' = Ok (r, u', w2)" "works w2 = works w'"
        and c2: "ctx_inv K reg F U w2 act2 can2 cq2 L ext D"
        and r: "r = Inr n \<or> (\<exists>en. r = Inl (SystemError en)) \<and> act' @ can' \<noteq> []"
          "act' @ can' = [] \<longrightarrow> act2 @ can2 = []"
      then have "run_once K H u w = Ok (r, u', w2)" "works w2 + work_of ops \<le> works w + calls_of H ops u"
        using run post(4) by simp_all
      moreover have "idle \<longrightarrow> act2 @ can2 = [] \<and> (\<forall>en. r \<noteq> Inl (SystemError en))" using r i idle by auto
      moreover have "run_once_post H (\<lambda>a. the (objs w a)) cq u r u' w2 cq2"
        using r(1) post(1-3) ops by (auto simp: run_once_post_def)
      ultimately show ?thesis using c2 by blast
    qed
  next
    case (3 e us a xs n u' w')
    obtain act' can' cq' where c: "ctx_inv K reg F U w' act' can' cq' ((?t, xs) # L) ext D"
      and i: "handlers_post H \<longrightarrow> act' = act \<and> can' = can"
      using 3(3) by (auto simp: drain_exn_def drain_ctx_def p_def)
    obtain ds x rest ex where e: "ops = ds @ x # rest" "map (objs w') xs = map Some rest"
      "e = UserException ex" "handlers_return H ds u"
      "handler_throws H x (run_handlers H ds u) = Some ex" "u' = run_handlers H (ds @ [x]) u"
      using 3(3) by (auto simp: drain_exn_def p_def)
    obtain w2 where w2: "leave_run_once w' ?t = Ok w2" "ctx_inv K reg F U w2 act' can' (xs @ cq') L ext D"
      "objs w2 = objs w'"
      using leave_run_once_ok [OF c] by blast
    have "run_once K H u w = Ok (Inl e, u', w2)"
      using run_once_unfold [OF st, of K H u] 3(1) w2(1) by simp
    moreover have "run_once_post H (\<lambda>a. the (objs w a)) cq u (Inl e) u' w2 (xs @ cq')"
    proof -
      have len: "length xs = length rest" using arg_cong [OF e(2), of length] by simp
      then have es: "ds = map (\<lambda>a. the (objs w a)) us" "x = the (objs w a)"
        "rest = map (\<lambda>a. the (objs w a)) xs"
        using e(1) 3(2) ops by (simp_all add: append_eq_append_conv)
      then have "\<forall>x \<in> set xs. objs w2 x = Some (the (objs w x))" using e(2) w2(3) by simp
      then show ?thesis unfolding run_once_post_def e(3) using e(4-6) 3(2) es by auto
    qed
    moreover have "idle \<longrightarrow> act' @ can' = []" using i idle by simp
    ultimately show ?thesis using w2(2) e(3) by blast
  qed
qed

end
