(* ===== verification/Run.thy ===== *)
theory Run
  imports Run_Once
begin

text \<open>
  \<^verbatim>\<open>ContextThread::run\<close>, and the construction and destruction of a context.
\<close>

section \<open>Running\<close>

text \<open>
  What holds whenever \<^verbatim>\<open>run\<close> ends: the only fault is the overflow of the work counter; the
  invariant holds, also after an exception; and a normal return means that no work is left.
\<close>

definition run_post ::
  "'k kernel \<Rightarrow> ('k \<Rightarrow> fd \<rightharpoonup> u32) \<Rightarrow> ('k \<Rightarrow> fd set) \<Rightarrow> fd set \<Rightarrow> nat \<Rightarrow> fd multiset
     \<Rightarrow> fault + ((exn + nat) \<times> 'u \<times> 'k world) \<Rightarrow> bool" where
  "run_post K reg F U ext D y \<longleftrightarrow>
     (case y of
        Inl f \<Rightarrow> f = ContractViolation
      | Inr (r, u', w') \<Rightarrow>
          \<exists>act can cq. ctx_inv K reg F U w' act can cq [] ext D
            \<and> (\<forall>m. r = Inr m \<longrightarrow> remaining_count w' = 0))"

lemma ctx_inv_queue_empty:
  "ctx_inv K reg F U w act can cq L ext D \<Longrightarrow> il_empty (links w) completion_queue = Ok (cq = [])"
  by (auto simp: ctx_inv_def poll_inv_def sched_inv_def lists_Cons il_empty_il)

lemma wake_ctx_ok:
  assumes "ctx_inv K reg F U w act can cq L ext D"
  shows "\<exists>w'. wake K w = Ok w' \<and> ctx_inv K reg F U w' act can cq L ext D
    \<and> remaining_count w' = remaining_count w \<and> objs w' = objs w"
proof -
  obtain k' where k': "wake K w = Ok (w\<lparr>kern := k'\<rparr>)" "reg k' = reg (kern w) \<and> F (kern w) \<subseteq> F k'"
    using wake_ok [of K "epoll_fd w" w reg F] assms by (auto simp: ctx_inv_def poll_inv_def)
  then show ?thesis using ctx_inv_same_registration [OF assms k'(2)] by auto
qed

text \<open>One round of the loop, for any continuation in place of the next round.\<close>

definition run_round ::
  "('u \<Rightarrow> 'k world \<Rightarrow> nat \<Rightarrow> ((exn + nat) \<times> 'u \<times> 'k world) run) \<Rightarrow> 'k kernel \<Rightarrow> 'u handlers \<Rightarrow> 'u
     \<Rightarrow> 'k world \<Rightarrow> nat \<Rightarrow> ((exn + nat) \<times> 'u \<times> 'k world) run" where
  "run_round f K H u w num_processed =
     (if remaining_count w > 0
      then run_bind (il_empty (links w) completion_queue) (\<lambda>e.
           if e \<and> io_empty w \<and> remaining_count w > 0 then Diverges
           else run_bind (run_once K H u w) (\<lambda>(r, u, w).
                case r of Inl ex \<Rightarrow> Ok (Inl ex, u, w)
                        | Inr n \<Rightarrow> f u w (num_processed + n)))
      else run_bind (wake K w) (\<lambda>w. Ok (Inr num_processed, u, w)))"

lemma run_is_round: "run K H u w n = run_round (run K H) K H u w n"
  unfolding run_round_def by (subst run.simps) simp

lemma run_round_post:
  assumes inv: "ctx_inv K reg F U w act can cq [] ext D" and H: "handlers_ok U H"
    and run: "run_round f K H u w n = Some y"
    and f: "\<And>u w n act can cq y. ctx_inv K reg F U w act can cq [] ext D \<Longrightarrow> f u w n = Some y
      \<Longrightarrow> run_post K reg F U ext D y"
  shows "run_post K reg F U ext D y"
proof (cases "remaining_count w > 0")
  case False
  then have z: "remaining_count w = 0" by (simp add: word_neq_0_conv [symmetric])
  obtain w' where "wake K w = Ok w'" "ctx_inv K reg F U w' act can cq [] ext D"
    "remaining_count w' = remaining_count w"
    using wake_ctx_ok [OF inv] by blast
  then show ?thesis using run z by (auto simp: run_round_def run_post_def intro!: exI)
next
  case True
  have e: "il_empty (links w) completion_queue = Ok (cq = [])" by (rule ctx_inv_queue_empty [OF inv])
  have nd: "\<not> (cq = [] \<and> io_empty w)" using run True e by (auto simp: run_round_def)
  then have r: "run_bind (run_once K H u w) (\<lambda>(r, u, w).
      case r of Inl ex \<Rightarrow> Ok (Inl ex, u, w) | Inr m \<Rightarrow> f u w (n + m)) = Some y"
    using run True unfolding run_round_def e by (simp only: if_True if_False run_bind_simps simp_thms)
  let ?C = "handlers_cancel H \<or> (\<exists>efd. kernel_fills_buffer K efd) \<and> \<not> (handlers_post H \<and> act @ can = [])"
  let ?R = "works w + ext + calls_of H (map (\<lambda>a. the (objs w a)) cq) u < 2 ^ 64"
  from run_once_ok [OF inv H refl refl, of u] show ?thesis
  proof (elim disjE exE conjE)
    fix z assume "may_stop ?C ?R z" and "run_once K H u w = stop z"
    then show ?thesis
      using r by (cases z) (auto simp: stop_simps run_post_def may_stop_def)
  next
    fix r' u' w' act' can' cq'
    assume ok: "run_once K H u w = Ok (r', u', w')" and inv': "ctx_inv K reg F U w' act' can' cq' [] ext D"
    show ?thesis
    proof (cases r')
      case (Inl ex)
      then have "y = Inr (Inl ex, u', w')" using r ok by simp
      then show ?thesis using inv' by (auto simp: run_post_def)
    next
      case (Inr m)
      then have "f u' w' (n + m) = Some y" using r ok by simp
      then show ?thesis by (rule f [OF inv'])
    qed
  qed
qed

lemma run_ok:
  assumes "run K H u w n = Some y" and "ctx_inv K reg F U w act can cq [] ext D" and "handlers_ok U H"
  shows "run_post K reg F U ext D y"
proof -
  let ?P = "\<lambda>K' H' (u :: 'a) w (n :: nat) y. K' = K \<and> H' = H \<longrightarrow>
    (\<forall>act can cq. ctx_inv K reg F U w act can cq [] ext D \<longrightarrow> run_post K reg F U ext D y)"
  have "?P K H u w n y"
  proof (rule run.raw_induct [where P = ?P, rotated])
    show "run K H u w n = Some y" by (rule assms(1))
  next
    fix f and K' :: "'b kernel" and H' :: "'a handlers" and u w n y
    assume IH: "\<And>K' H' u w n y. f K' H' u w n = Some y \<Longrightarrow> ?P K' H' u w n y"
      and eq: "(if remaining_count w > 0
      then run_bind (il_empty (links w) completion_queue) (\<lambda>e.
           if e \<and> io_empty w \<and> remaining_count w > 0 then Diverges
           else run_bind (run_once K' H' u w) (\<lambda>(r, u, w).
                case r of Inl ex \<Rightarrow> Ok (Inl ex, u, w)
                        | Inr m \<Rightarrow> f K' H' u w (n + m)))
      else run_bind (wake K' w) (\<lambda>w. Ok (Inr n, u, w))) = Some y"
    show "?P K' H' u w n y"
    proof (intro impI allI)
      fix act can cq assume K: "K' = K \<and> H' = H" and inv: "ctx_inv K reg F U w act can cq [] ext D"
      have "run_round (f K H) K H u w n = Some y"
        using eq unfolding conjunct1 [OF K] conjunct2 [OF K] run_round_def .
      then show "run_post K reg F U ext D y"
      proof (rule run_round_post [OF inv assms(3)])
        fix u w n act can cq y
        assume i: "ctx_inv K reg F U w act can cq [] ext D" and s: "f K H u w n = Some y"
        show "run_post K reg F U ext D y" using IH [OF s] i by blast
      qed
    qed
  qed
  then show ?thesis using assms(2) by blast
qed

text \<open>No work left means that nothing is left at all.\<close>

lemma ctx_inv_no_work:
  assumes "ctx_inv K reg F U w act can cq [] ext D" and "remaining_count w = 0"
  shows "ext = 0" and "objs w = Map.empty" and "act = []" and "can = []" and "cq = []"
proof -
  have n: "works w + ext = 0"
    using assms u64_eq_0 [of "works w + ext"] by (simp add: ctx_inv_def)
  then show "ext = 0" by simp
  have "\<forall>a \<in> dom (objs w). obj_work w a = 0"
    using n ctx_inv_finite [OF assms(1)] by (simp add: closure_sum_def)
  moreover have pos: "\<forall>a \<in> dom (objs w). 0 < obj_work w a"
    and d: "dom (objs w) = set act \<union> set can \<union> set cq"
    using assms(1) by (auto simp: ctx_inv_def well_wrapped_def)
  ultimately have "dom (objs w) = {}" by fastforce
  then show "objs w = Map.empty" "act = []" "can = []" "cq = []" using d by auto
qed

section \<open>Posted completions only\<close>

text \<open>
  Without operations at the scheduler and with handlers that only post, every round dispatches
  the completions in the queue and leaves the posted ones.
\<close>

lemma handlers_post_ok: "handlers_post H \<Longrightarrow> handlers_ok U H"
  unfolding handlers_post_def handlers_ok_def by (metis api_ok.simps(1) is_post.elims(2))

lemma handlers_post_no_cancel: "handlers_post H \<Longrightarrow> \<not> handlers_cancel H"
  by (fastforce simp: handlers_post_def handlers_cancel_def)

lemma run_once_posted:
  assumes inv: "ctx_inv K reg F U w [] [] cq [] ext D" and H: "handlers_post H"
    and ops: "ops = map (\<lambda>a. the (objs w a)) cq" and ret: "handlers_return H ops u"
    and room: "works w + ext + calls_of H ops u < 2 ^ 64"
  shows "\<exists>w' cq'. run_once K H u w = Ok (Inr (length cq), run_handlers H ops u, w')
    \<and> ctx_inv K reg F U w' [] [] cq' [] ext D \<and> works w' + work_of ops \<le> works w + calls_of H ops u"
proof -
  have idle: "True \<longleftrightarrow> handlers_post H \<and> [] @ [] = ([] :: addr list)" using H by simp
  from run_once_ok [OF inv handlers_post_ok [OF H] idle ops, of u] show ?thesis
  proof (rule disjE; elim exE conjE)
    fix z assume "may_stop (handlers_cancel H \<or> (\<exists>efd. kernel_fills_buffer K efd) \<and> \<not> True)
      (works w + ext + calls_of H ops u < 2 ^ 64) z"
    then show ?thesis using handlers_post_no_cancel [OF H] room by (simp add: may_stop_def)
  next
    fix r u' w' act' can' cq'
    assume ok: "run_once K H u w = Ok (r, u', w')" and inv': "ctx_inv K reg F U w' act' can' cq' [] ext D"
      and wk: "\<forall>n. r = Inr n \<longrightarrow> works w' + work_of ops \<le> works w + calls_of H ops u"
      and se: "True \<longrightarrow> act' @ can' = [] \<and> (\<forall>en. r \<noteq> Inl (SystemError en))"
      and post: "run_once_post H (\<lambda>a. the (objs w a)) cq u r u' w' cq'"
    have "r = Inr (length cq) \<and> u' = run_handlers H ops u"
    proof (cases r)
      case (Inl e)
      then show ?thesis
        using post ret se ops by (cases e) (auto simp: run_once_post_def handlers_return_append)
    qed (use post ops in \<open>simp add: run_once_post_def\<close>)
    then show ?thesis using ok inv' wk se by auto
  qed
qed

text \<open>A context with no completion and no operation has no work but the one held elsewhere.\<close>

lemma run_nothing:
  assumes "ctx_inv K reg F U w [] [] [] [] 0 D"
  shows "\<exists>w'. run K H u w n = Ok (Inr n, u, w')"
proof -
  have "remaining_count w = 0" using assms by (simp add: ctx_inv_def closure_sum_def)
  then show ?thesis using wake_ctx_ok [OF assms] by (subst run.simps) auto
qed

lemma work_of_queue:
  assumes "ctx_inv K reg F U w act can cq L ext D"
  shows "length cq \<le> work_of (map (\<lambda>a. the (objs w a)) cq)"
proof -
  have "\<forall>a \<in> set cq. 1 \<le> obj_work w a"
    using assms by (auto simp: ctx_inv_def well_wrapped_def Suc_le_eq)
  then show ?thesis by (induction cq) auto
qed

text \<open>
  Each call of a handler is paid for out of a budget that the user's state holds: then \<^verbatim>\<open>run\<close>
  returns, after a number of handler calls that the work and the budget bound.
\<close>

lemma calls_within_budget:
  assumes "\<forall>h arg v. length (fst (H h arg v)) + budget (snd (snd (H h arg v))) \<le> budget v"
  shows "calls_of H ops u + budget (run_handlers H ops u) \<le> budget u"
proof (induction ops arbitrary: u)
  case (Cons x ops)
  have "handler_calls H x u + budget (user_after H x u) \<le> budget u"
    using assms by (simp add: handler_call_def)
  then show ?case using Cons.IH [of "user_after H x u"] by simp
qed simp

lemma run_posted:
  assumes inv: "ctx_inv K reg F U w [] [] cq [] 0 D" and H: "handlers_post H"
    and no_throw: "\<forall>h arg v. fst (snd (H h arg v)) = None"
    and pays: "\<forall>h arg v. length (fst (H h arg v)) + budget (snd (snd (H h arg v))) \<le> budget v"
    and room: "works w + budget u < 2 ^ 64"
  shows "\<exists>xs w'. run K H u w n
      = Ok (Inr (n + length cq + length xs), run_handlers H (map (\<lambda>a. the (objs w a)) cq @ xs) u, w')
    \<and> length cq + length xs + budget (run_handlers H (map (\<lambda>a. the (objs w a)) cq @ xs) u) \<le> works w + budget u"
  using inv room
proof (induction "works w + budget u" arbitrary: w u cq n rule: less_induct)
  case less
  let ?ops = "map (\<lambda>a. the (objs w a)) cq"
  note b = calls_within_budget [OF pays, of ?ops u] and wq = work_of_queue [OF less.prems(1)]
  show ?case
  proof (cases "cq = []")
    case True
    then have "ctx_inv K reg F U w [] [] [] [] 0 D" using less.prems(1) by simp
    from run_nothing [OF this, of H u n] obtain w' where "run K H u w n = Ok (Inr n, u, w')" by blast
    then show ?thesis using True by (intro exI [of _ "[]"] exI [of _ w']) simp
  next
    case False
    have ret: "handlers_return H ops v" for ops v
      using no_throw by (induction ops arbitrary: v) (simp_all add: handler_call_def)
    have "works w + 0 + calls_of H ?ops u < 2 ^ 64" using b less.prems(2) by simp
    then obtain w1 cq1 where w1: "run_once K H u w = Ok (Inr (length cq), run_handlers H ?ops u, w1)"
      "ctx_inv K reg F U w1 [] [] cq1 [] 0 D" "works w1 + work_of ?ops \<le> works w + calls_of H ?ops u"
      using run_once_posted [OF less.prems(1) H refl ret] by blast
    let ?u = "run_handlers H ?ops u"
    have len: "works w1 + budget ?u + length cq \<le> works w + budget u" using w1(3) b wq by linarith
    then have lt: "works w1 + budget ?u < works w + budget u" and room: "works w1 + budget ?u < 2 ^ 64"
      using False less.prems(2) by (cases cq; simp)+
    from less.hyps [OF lt w1(2) room, of "n + length cq"] obtain xs w' where xs: "run K H ?u w1 (n + length cq)
        = Ok (Inr (n + length cq + length cq1 + length xs), run_handlers H (map (\<lambda>a. the (objs w1 a)) cq1 @ xs) ?u, w')"
      "length cq1 + length xs + budget (run_handlers H (map (\<lambda>a. the (objs w1 a)) cq1 @ xs) ?u) \<le> works w1 + budget ?u"
      by blast
    have "remaining_count w \<noteq> 0" using False ctx_inv_no_work(5) [OF less.prems(1)] by blast
    then have "run K H u w n = run K H ?u w1 (n + length cq)"
      using False w1(1) ctx_inv_queue_empty [OF less.prems(1)]
      by (subst run.simps) (simp add: word_neq_0_conv [symmetric])
    then show ?thesis
      using xs len by (intro exI [of _ "map (\<lambda>a. the (objs w1 a)) cq1 @ xs"] exI [of _ w'])
        (simp add: run_handlers_append)
  qed
qed

end
