(* ===== verification/Lifecycle.thy ===== *)
theory Lifecycle
  imports Run
begin

text \<open>
  Construction and destruction of a context. Constructing either establishes the invariant of an
  empty context or terminates; destroying discards the posted completions, and goes wrong when
  I/O operations are still pending, because the scheduler is destroyed after the condition
  variable their \<^verbatim>\<open>Work\<close> objects notify.
\<close>

section \<open>Construction\<close>

lemma new_item_chain: "a \<noteq> nullptr \<Longrightarrow> il_construct h a
    = Ok (h\<lparr>item_prev := (item_prev h)(a \<mapsto> a), item_next := (item_next h)(a \<mapsto> a)\<rparr>)"
  by (simp add: il_construct_def store_prev_def store_next_def new_item_def)

lemma wake_registration_ok:
  assumes os: "os_contract K efd wfd reg F" and o: "efd \<in> F k" "wfd \<in> F k" "wfd \<noteq> efd"
    and run: "construct_wake_registration K k efd wfd = (ok, k')"
  shows "ok = Inr ()" and "reg k' = (reg k)(wfd \<mapsto> EPOLLIN)" and "F k \<subseteq> F k'"
proof -
  obtain r1 k1 where 1: "K k (Sys_epoll_ctl efd EPOLL_CTL_ADD wfd EPOLLIN) = (r1, k1)"
    "sr_ret r1 = fst (ctl_answer EPOLL_CTL_ADD wfd EPOLLIN (reg k))"
    "sr_ret r1 < 0 \<longrightarrow> sr_errno r1 = fst (snd (ctl_answer EPOLL_CTL_ADD wfd EPOLLIN (reg k)))"
    "reg k1 = snd (snd (ctl_answer EPOLL_CTL_ADD wfd EPOLLIN (reg k)))" "F k \<subseteq> F k1"
    using os_contract_ctl [OF os o, of EPOLL_CTL_ADD EPOLLIN] by blast
  have "efd \<in> F k1" "wfd \<in> F k1" using o 1(5) by auto
  then obtain r2 k2 where 2: "K k1 (Sys_epoll_ctl efd EPOLL_CTL_MOD wfd EPOLLIN) = (r2, k2)"
    "sr_ret r2 = fst (ctl_answer EPOLL_CTL_MOD wfd EPOLLIN (reg k1))"
    "reg k2 = snd (snd (ctl_answer EPOLL_CTL_MOD wfd EPOLLIN (reg k1)))" "F k1 \<subseteq> F k2"
    using os_contract_ctl [OF os _ _ o(3), of k1 EPOLL_CTL_MOD EPOLLIN] by blast
  show "ok = Inr ()" and "reg k' = (reg k)(wfd \<mapsto> EPOLLIN)" and "F k \<subseteq> F k'"
    using run 1 2 by (cases "reg k wfd";
        auto simp: construct_wake_registration_def ctl_answer_def Let_def)+
qed

text \<open>The two descriptors of a new context are open, and new.\<close>

lemma construct_descriptors:
  assumes k: "K k Sys_epoll_create = (r1, k1)" "K k1 (Sys_eventfd False) = (r2, k2)"
    and ok: "0 \<le> sr_ret r1" "0 \<le> sr_ret r2" and os: "os_contract K efd wfd reg F"
  shows "sr_ret r1 \<in> F k2" and "sr_ret r2 \<in> F k2" and "sr_ret r2 \<noteq> sr_ret r1"
    and "sr_ret r1 \<notin> F k" and "sr_ret r2 \<notin> F k" and "F k \<subseteq> F k2"
proof -
  have e: "sr_ret r1 \<notin> F k \<and> sr_ret r1 \<in> F k1" and w: "sr_ret r2 \<notin> F k1 \<and> sr_ret r2 \<in> F k2"
    using os_contract_open [OF os _ k(1)] os_contract_open [OF os _ k(2)] ok by simp_all
  have s: "F k \<subseteq> F k1" "F k1 \<subseteq> F k2"
    using os_contract_other [OF os _ k(1)] os_contract_other [OF os _ k(2)] by simp_all
  show "sr_ret r1 \<in> F k2" "sr_ret r2 \<in> F k2" "sr_ret r2 \<noteq> sr_ret r1" "sr_ret r1 \<notin> F k" "sr_ret r2 \<notin> F k"
    "F k \<subseteq> F k2"
    using e w s by auto
qed

lemma construct_ok:
  assumes k: "K k Sys_epoll_create = (r1, k1)" "K k1 (Sys_eventfd False) = (r2, k2)"
    and ok: "0 \<le> sr_ret r1" "0 \<le> sr_ret r2"
    and os: "os_contract K (sr_ret r1) (sr_ret r2) reg F"
    and new: "reg k2 = Map.empty" and U: "U \<subseteq> F k"
  shows "\<exists>w. ContextThread_construct K k = Ok w \<and> ctx_inv K reg F U w [] [] [] [] 0 {#}"
proof -
  note d = construct_descriptors [OF k ok os]
  obtain ok3 k3 where wr: "construct_wake_registration K k2 (sr_ret r1) (sr_ret r2) = (ok3, k3)"
    by (metis surj_pair)
  note wro = wake_registration_ok [OF os d(1-3) wr]
  let ?h = "\<lparr>item_prev = [1 \<mapsto> 1, 2 \<mapsto> 2 :: addr], item_next = [1 \<mapsto> 1, 2 \<mapsto> 2 :: addr]\<rparr>"
  let ?w = "\<lparr>links = ?h, objs = Map.empty, next_addr = 3, kern = k3, epoll_fd = sr_ret r1,
      wake_fd = sr_ret r2, begin_cancelled = 1, poll_queue_length = 0, remaining_count = 0,
      threads_waiting = 0, io_fds = Map.empty\<rparr>"
  have c: "ContextThread_construct K k = Ok ?w"
    using k ok wr wro(1) by (simp add: ContextThread_construct_def IoScheduler_construct_def PollWakeEvent_construct_def
        new_item_chain sentinel_defs il_end_def)
  have "lists ?h [(operations_list, []), (completion_queue, [])]"
    by (simp add: lists_Cons il_def linked_def sentinel_defs)
  then have "sched_inv ?w [] [] [] []" by (simp add: sched_inv_def sentinel_defs)
  moreover have "registered_inv reg F ?w []" using new wro(2) by (auto simp: registered_inv_def)
  ultimately have "poll_inv K reg F ?w [] [] [] []" using os d(1-3) wro(3) by (auto simp: poll_inv_def)
  moreover have "U \<subseteq> pollable F ?w" using U d(4-6) wro(3) by auto
  ultimately have "ctx_inv K reg F U ?w [] [] [] [] 0 {#}"
    by (simp add: ctx_inv_def fds_inv_def closure_sum_def sentinel_defs)
  then show ?thesis using c by blast
qed

section \<open>Destruction\<close>

text \<open>The states while the destructor of \<^verbatim>\<open>ContextThread\<close> drains the completion queue.\<close>

definition destroy_inv ::
  "'k kernel \<Rightarrow> ('k \<Rightarrow> fd \<rightharpoonup> u32) \<Rightarrow> ('k \<Rightarrow> fd set) \<Rightarrow> fd set \<Rightarrow> addr list \<Rightarrow> addr list \<Rightarrow> nat
     \<Rightarrow> fd multiset \<Rightarrow> addr list \<Rightarrow> 'k world \<Rightarrow> bool" where
  "destroy_inv K reg F U act can ext D xs w \<longleftrightarrow> ctx_inv K reg F U w act can xs [] ext D"

lemma discard_item_ok:
  assumes inv: "destroy_inv K reg F U act can ext D (x # xs) w"
    and pop: "pop_front (links w) completion_queue = Ok h"
  shows "\<exists>w'. discard_item True K x (put_links h w) = Ok (None, w') \<and> destroy_inv K reg F U act can ext D xs w'"
proof -
  have c: "ctx_inv K reg F U w act can (x # xs) [] ext D" using inv by (simp add: destroy_inv_def)
  then have "x \<in> dom (objs w)" by (simp add: ctx_inv_def)
  then obtain op where x: "objs w x = Some op" by blast
  then have plain: "plain_closure (op_completion op)"
    using c by (auto simp: ctx_inv_def well_wrapped_def dom_def)
  let ?w = "w\<lparr>links := h\<rparr>" and ?f = "op_completion op"
  have f: "obj_work w x = active_work ?f" "obj_fds w x = own_fds ?f" using x by simp_all
  note popped = ctx_inv_pop_queue(1) [OF c pop, unfolded f]
  have rc: "remaining_count ?w = of_nat (works (deallocate ?w x) + ext + active_work ?f)"
    "works (deallocate ?w x) + ext + active_work ?f < 2 ^ 64"
    using popped by (auto simp: ctx_inv_def deallocate_def add.assoc)
  have os: "waking K (epoll_fd ?w) reg F ?w" using c by (simp add: ctx_inv_def poll_inv_def)
  have "reg (kern ?w) fd = None \<and> fd \<noteq> epoll_fd ?w \<and> fd \<noteq> wake_fd ?w" if "fd \<in># own_fds ?f" for fd
    using ctx_inv_owned_elsewhere [OF popped that] by (simp add: deallocate_def)
  then obtain k' where k': "destroy_closure True K ?f ?w
      = Ok (?w\<lparr>remaining_count := of_nat (works (deallocate ?w x) + ext), kern := k'\<rparr>)"
    "reg k' = reg (kern w)" "F (kern w) - set_mset (own_fds ?f) \<subseteq> F k'"
    using destroy_closure_ok [OF rc os plain] by auto
  let ?n = "of_nat (works (deallocate ?w x) + ext) :: u64"
  have "deallocate (?w\<lparr>remaining_count := ?n, kern := k'\<rparr>) x
      = (deallocate ?w x)\<lparr>remaining_count := ?n, kern := k'\<rparr>"
    by (simp add: deallocate_def)
  moreover have "reg k' = reg (kern (deallocate ?w x))"
    "F (kern (deallocate ?w x)) - set_mset (own_fds ?f) \<subseteq> F k'"
    using k'(2,3) by (simp_all add: deallocate_def)
  ultimately have "ctx_inv K reg F U (deallocate (?w\<lparr>remaining_count := ?n, kern := k'\<rparr>) x) act can xs [] ext D"
    using ctx_inv_closed [OF popped] by (simp only:)
  then show ?thesis
    using k'(1) x by (simp add: discard_item_def discard_def put_links_def destroy_inv_def)
qed

interpretation queue_destroy: drain_callback links put_links completion_queue "discard_item True K"
  "destroy_inv K reg F U act can ext D" "\<lambda>(_ :: exn) _ _. False" "\<lambda>_. False"
  for K :: "'k kernel" and reg F U act can ext D
proof unfold_locales
  show "il (links w) completion_queue xs" if "destroy_inv K reg F U act can ext D xs w" for xs w
    using that by (auto simp: destroy_inv_def ctx_inv_def poll_inv_def sched_inv_def lists_Cons)
next
  fix x xs w h assume "destroy_inv K reg F U act can ext D (x # xs) w" "pop_front (links w) completion_queue = Ok h"
  from discard_item_ok [OF this] show "(\<exists>z. False \<and> discard_item True K x (put_links h w) = stop z)
      \<or> (\<exists>ex w'. discard_item True K x (put_links h w) = Ok (ex, w')
        \<and> (case ex of None \<Rightarrow> destroy_inv K reg F U act can ext D xs w' | Some e \<Rightarrow> False))" by auto
qed

text \<open>
  The condition variable is gone when the scheduler discards its operations: releasing the
  first active \<^verbatim>\<open>Work\<close> of a closure touches it.
\<close>

lemma release_work_dead:
  assumes "remaining_count w = of_nat (Suc n)" and "Suc n < 2 ^ 64"
    and "waking K efd reg F w"
  shows "release_work False K w = Fault BadAccess"
proof -
  have "(of_nat (Suc n) :: u64) \<noteq> 0" by (rule u64_pos [OF assms(2)])
  moreover have "(of_nat (Suc n) :: u64) - 1 = of_nat n" by simp
  ultimately show ?thesis
    using wake_ok [of K efd "w\<lparr>remaining_count := of_nat n\<rparr>" reg F] assms
    by (auto simp: release_work_def word_neq_0_conv [symmetric] simp del: of_nat_Suc)
qed

lemma destroy_closure_no_work:
  assumes "active_work f = 0" and "plain_closure f" and "wfd \<notin># own_fds f" and "os_contract K efd wfd reg F"
  shows "\<exists>k'. destroy_closure False K f w = Ok (w\<lparr>kern := k'\<rparr>) \<and> (wfd \<in> F (kern w) \<longrightarrow> wfd \<in> F k')"
  using assms
proof (induction f)
  case (OwnFd fd f)
  then obtain k1 where k1: "destroy_closure False K f w = Ok (w\<lparr>kern := k1\<rparr>)" "wfd \<in> F (kern w) \<longrightarrow> wfd \<in> F k1"
    by auto
  have "wfd \<in> F (FileDescriptor_destroy K k1 fd)" if "wfd \<in> F k1"
    using that OwnFd.prems(3) FileDescriptor_destroy_open [OF assms(4), of k1 fd] by auto
  then show ?case using k1 by (auto intro!: exI [of _ "FileDescriptor_destroy K k1 fd"])
next
  case (Fn n)
  show ?case by (intro exI [of _ "kern w"]) simp
qed (auto split: if_splits)

lemma destroy_closure_dead:
  assumes "0 < active_work f" and "remaining_count w = of_nat (n + active_work f)"
    and "n + active_work f < 2 ^ 64" and "waking K efd reg F w" and "plain_closure f"
    and "wake_fd w \<notin># own_fds f"
  shows "destroy_closure False K f w = Fault BadAccess"
  using assms
proof (induction f arbitrary: n)
  case (WrapWork b f)
  show ?case
  proof (cases "active_work f = 0")
    case True
    then obtain k' where k': "destroy_closure False K f w = Ok (w\<lparr>kern := k'\<rparr>)" "wake_fd w \<in> F k'"
      using destroy_closure_no_work [of f "wake_fd w" K efd reg F w] WrapWork.prems(4-6) by auto
    then show ?thesis
      using True WrapWork.prems release_work_dead [of "w\<lparr>kern := k'\<rparr>" n K efd reg F] by (cases b) auto
  next
    case False
    then show ?thesis
      using WrapWork.IH [of "if b then Suc n else n"] WrapWork.prems by (cases b) (auto simp: algebra_simps)
  qed
qed auto

lemma destroy_ok:
  assumes inv: "ctx_inv K reg F U w act can cq [] ext D"
  shows "if act @ can = []
    then \<exists>w'. ContextThread_destroy K w = Ok w' \<and> objs w' = Map.empty \<and> remaining_count w' = of_nat ext
    else ContextThread_destroy K w = Fault BadAccess"
proof -
  have "destroy_inv K reg F U act can ext D cq w" using inv by (simp add: destroy_inv_def)
  then obtain w1 where w1: "drain_list links put_links completion_queue (discard_item True K) w = Ok (None, w1)"
    and i1: "ctx_inv K reg F U w1 act can [] [] ext D"
    using queue_destroy.drains [of K reg F U act can ext D cq w]
    by (auto simp: destroy_inv_def split: option.splits)
  let ?w = "w1\<lparr>kern := snd (K (kern w1) (Sys_close (epoll_fd w1)))\<rparr>"
  have d: "ContextThread_destroy K w = run_bind
      (drain_list links put_links operations_list (discard_item False K) ?w)
      (\<lambda>(_, w). Ok (w\<lparr>kern := FileDescriptor_destroy K (kern w) (wake_fd w)\<rparr>))"
    using w1 by (simp add: ContextThread_destroy_def IoScheduler_destroy_def split: prod.split)
  have il: "il (links ?w) operations_list (act @ can)"
    using i1 by (auto simp: ctx_inv_def poll_inv_def sched_inv_def lists_Cons)
  have o: "dom (objs w1) = set act \<union> set can" and rc: "remaining_count w1 = of_nat (works w1 + ext)"
    "works w1 + ext < 2 ^ 64"
    using i1 by (auto simp: ctx_inv_def)
  show ?thesis
  proof (cases "act @ can")
    case Nil
    then have "drain_list links put_links operations_list (discard_item False K) ?w = Ok (None, ?w)"
      using il by (subst drain_list.simps) (simp add: il_empty_il)
    moreover have "objs w1 = Map.empty" "works w1 = 0" using o Nil by (simp_all add: closure_sum_def)
    ultimately show ?thesis using d Nil rc by simp
  next
    case (Cons x xs)
    obtain h where h: "pop_front (links ?w) operations_list = Ok h"
      using pop_front_il il Cons by metis
    have "x \<in> set (act @ can)" using Cons by simp
    then have dom: "x \<in> dom (objs w1)" using o by simp
    then obtain op where op: "objs w1 x = Some op" by blast
    then have f: "0 < active_work (op_completion op)" "plain_closure (op_completion op)"
      using i1 by (auto simp: ctx_inv_def well_wrapped_def dom_def)
    have "works w1 = obj_work w1 x + sum (obj_work w1) (dom (objs w1) - {x})"
      using sum.remove [OF ctx_inv_finite [OF i1] dom, of "obj_work w1"] by (simp add: closure_sum_def)
    then obtain n where n: "works w1 + ext = n + active_work (op_completion op)" using op by simp
    have "obj_fds w1 x \<subseteq># fds_owned w1"
      unfolding closure_sum_def by (simp add: sum.remove [OF ctx_inv_finite [OF i1] dom])
    then have wo: "wake_fd w1 \<notin># own_fds (op_completion op)"
      using i1 op by (auto simp: ctx_inv_def fds_inv_def dest: mset_subset_eqD)
    have "waking K (epoll_fd w1) reg F w1" "wake_fd w1 \<noteq> epoll_fd w1"
      using i1 by (auto simp: ctx_inv_def poll_inv_def)
    then have "waking K (epoll_fd w1) reg F ?w"
      using os_contract_close [of K "epoll_fd w1" "wake_fd w1" reg F "kern w1" "epoll_fd w1", OF _ surjective_pairing]
      by auto
    then have "destroy_closure False K (op_completion op) (put_links h ?w) = Fault BadAccess"
      by (intro destroy_closure_dead [OF f(1) _ _ _ f(2), where n = n and efd = "epoll_fd w1" and reg = reg and F = F])
        (use rc n wo in \<open>auto simp: put_links_def\<close>)
    then have "discard_item False K x (put_links h ?w) = Fault BadAccess"
      using op by (simp add: discard_item_def discard_def put_links_def)
    then have "drain_list links put_links operations_list (discard_item False K) ?w = Fault BadAccess"
      using il Cons h by (subst drain_list.simps) (simp add: il_empty_il il_front_il)
    then show ?thesis using d Cons by simp
  qed
qed

end
