(* ===== verification/Scheduler_Theorems.thy ===== *)
theory Scheduler_Theorems
  imports Poll_Once
begin

text \<open>
  The theorems on \<^verbatim>\<open>IoScheduler\<close>: what \<^verbatim>\<open>schedule\<close>, \<^verbatim>\<open>cancel\<close> and \<^verbatim>\<open>poll_once\<close> do in
  a state that satisfies the scheduler's invariant, under the contract of the kernel.
\<close>

section \<open>A concrete state\<close>

text \<open>
  Three active operations, a read of descriptor 3 and two writes to descriptor 5, one cancelled
  read of descriptor 4, one finished read of descriptor 6 in the completion queue, and a read of
  descriptor 5 that has not been scheduled yet.
\<close>

definition demo_read :: "fd \<Rightarrow> async_io_operation" where
  "demo_read fd =
     AsyncIoOperation_construct (WrapWork True (Fn 0)) fd
       (OpRead (IoRead_construct \<lparr>bv_data = UserMem 0, bv_size = 16\<rparr>))"

definition demo_write :: "fd \<Rightarrow> async_io_operation" where
  "demo_write fd =
     AsyncIoOperation_construct (WrapWork True (Fn 1)) fd
       (OpWrite (IoWrite_construct \<lparr>bv_data = UserMem 0, bv_size = 16\<rparr>))"

definition demo_world :: "sim world" where
  "demo_world =
     \<lparr>links = \<lparr>item_prev = [1 \<mapsto> 7, 4 \<mapsto> 1, 5 \<mapsto> 4, 6 \<mapsto> 5, 7 \<mapsto> 6, 2 \<mapsto> 8, 8 \<mapsto> 2, 9 \<mapsto> 0],
               item_next = [1 \<mapsto> 4, 4 \<mapsto> 5, 5 \<mapsto> 6, 6 \<mapsto> 7, 7 \<mapsto> 1, 2 \<mapsto> 8, 8 \<mapsto> 2, 9 \<mapsto> 0]\<rparr>,
      objs = [4 \<mapsto> IoOp (demo_read 3), 5 \<mapsto> IoOp (demo_write 5), 6 \<mapsto> IoOp (demo_write 5),
              7 \<mapsto> IoOp (AsyncIoOperation_cancel (demo_read 4)),
              8 \<mapsto> IoOp (AsyncIoOperation_cancel (demo_read 6)), 9 \<mapsto> IoOp (demo_read 5)],
      next_addr = 10,
      kern = \<lparr>sim_open = [0, 1, 3, 4, 5, 6], sim_reg = [1 \<mapsto> EPOLLIN, 3 \<mapsto> EPOLLIN, 5 \<mapsto> EPOLLOUT],
              sim_events = [\<lparr>ev_events = EPOLLIN, ev_fd = 3\<rparr>]\<rparr>,
      epoll_fd = 0, wake_fd = 1, begin_cancelled = 7, poll_queue_length = 4, remaining_count = 6,
      threads_waiting = 0, io_fds = Map.empty\<rparr>"

lemma demo_objs [simp]:
  "objs demo_world 4 = Some (IoOp (demo_read 3))" "objs demo_world 5 = Some (IoOp (demo_write 5))"
  "objs demo_world 6 = Some (IoOp (demo_write 5))" "objs demo_world 9 = Some (IoOp (demo_read 5))"
  "objs demo_world 7 = Some (IoOp (AsyncIoOperation_cancel (demo_read 4)))"
  "objs demo_world 8 = Some (IoOp (AsyncIoOperation_cancel (demo_read 6)))"
  by (simp_all add: demo_world_def)

lemma demo_setup [simp]:
  "epoll_fd demo_world = 0" "wake_fd demo_world = 1" "begin_cancelled demo_world = 7"
  "poll_queue_length demo_world = 4" "allocated (links demo_world) 9"
  "sim_open (kern demo_world) = [0, 1, 3, 4, 5, 6]"
  "sim_reg (kern demo_world) = [1 \<mapsto> EPOLLIN, 3 \<mapsto> EPOLLIN, 5 \<mapsto> EPOLLOUT]"
  by (simp_all add: demo_world_def allocated_def)

lemma demo_ops [simp]:
  "aio_fd (demo_read fd) = fd" "aio_fd (demo_write fd) = fd" "aio_is_read (demo_read fd)"
  "\<not> aio_is_read (demo_write fd)"
  "pending (Some (IoOp (demo_read fd)))" "pending (Some (IoOp (demo_write fd)))"
  by (simp_all add: demo_read_def demo_write_def AsyncIoOperation_construct_def pending_def
      IoRead_construct_def IoWrite_construct_def)

lemma demo_cancelled [simp]: "cancelled_op (Some (IoOp (AsyncIoOperation_cancel (demo_read fd))))"
  using cancel_fields(4) by (simp add: cancelled_op_def)

lemma demo_inv: "sched_inv demo_world [4, 5, 6] [7] [8] []"
proof -
  have "lists (links demo_world) [(operations_list, [4, 5, 6] @ [7]), (completion_queue, [8])]"
    by (simp add: lists_Cons il_def linked_def demo_world_def sentinel_defs)
  then show ?thesis
    using cancelled_finished [OF demo_cancelled] by (simp add: sched_inv_def)
qed

lemma demo_contract: "running sim_kernel (epoll_fd demo_world) sim_reg sim_fds demo_world"
  using sim_kernel_contract by simp

lemma demo_registered: "registered_inv sim_reg sim_fds demo_world [4, 5, 6]"
  by (auto simp: registered_inv_def)

lemma demo_poll_inv: "poll_inv sim_kernel sim_reg sim_fds demo_world [4, 5, 6] [7] [8] []"
  using demo_inv demo_contract demo_registered by (simp add: poll_inv_def)

section \<open>Scheduling\<close>

text \<open>
  Claim C2. Scheduling an operation keeps the list of active operations sorted by
  descriptor: the new operation comes after every operation with the same or a smaller
  descriptor and before all others, so operations of one descriptor wait in the order they were
  scheduled. The cancelled operations, the completion queue and all other lists stay as they
  are, the queue length grows by one, and afterwards again exactly the descriptors with an
  active operation are registered with epoll.
\<close>

theorem schedule_refines:
  assumes "poll_inv K reg F w act can cq L"
    and "a \<notin> set (owned_items ((operations_list, act @ can) # (completion_queue, cq) # L))"
    and "allocated (links w) a" and "pending (objs w a)" and "fd_at w a \<in> pollable F w"
    and "Suc (length act + length can) < 2 ^ 64"
  shows "\<exists>w'. schedule K w a = Ok w' \<and> same_setup w w' \<and> objs w' = objs w
    \<and> poll_inv K reg F w'
        (filter (\<lambda>b. fd_at w b \<le> fd_at w a) act @ a # filter (\<lambda>b. fd_at w a < fd_at w b) act) can cq L"
  using schedule_keeps [OF assms] by blast

theorem schedule_refines_witness:
  "\<exists>w'. schedule sim_kernel demo_world 9 = Ok w'
     \<and> poll_inv sim_kernel sim_reg sim_fds w' [4, 5, 6, 9] [7] [8] []"
  using schedule_refines [OF demo_poll_inv, of 9] by (auto simp: sentinel_defs)

text \<open>
  Claim C16. The events registered for a descriptor when an operation is scheduled. In general
  they are the operation's own event and those of all operations already waiting for the
  descriptor. When the descriptor is the greatest active one and there are operations for
  smaller descriptors, only the new operation's event is registered: the kernel is no longer
  asked for the events an earlier operation of the other direction waits for.
\<close>

theorem schedule_registers:
  assumes "sched_inv w act can cq L" and "running K (epoll_fd w) reg F w"
    and "a \<notin> set (owned_items ((operations_list, act @ can) # (completion_queue, cq) # L))"
    and "allocated (links w) a" and "pending (objs w a)" and "fd_at w a \<in> pollable F w"
    and "Suc (length act + length can) < 2 ^ 64"
  shows "\<exists>w' m. schedule K w a = Ok w' \<and> reg (kern w') (fd_at w a) = Some m
    \<and> (if (\<exists>b \<in> set act. fd_at w b < fd_at w a) \<and> (\<forall>b \<in> set act. fd_at w b \<le> fd_at w a)
       then m = interest (aio_at w a)
         \<and> (\<forall>b \<in> set act. fd_at w b = fd_at w a \<and> aio_is_read (aio_at w b) \<noteq> aio_is_read (aio_at w a)
              \<longrightarrow> and m (interest (aio_at w b)) = 0)
       else m = fold (\<lambda>b m. or m (interest (aio_at w b))) (filter (\<lambda>b. fd_at w b = fd_at w a) act)
                  (interest (aio_at w a)))"
proof -
  have "(below_fd w (fd_at w a) act \<noteq> [] \<and> above_fd w (fd_at w a) act = []) \<longleftrightarrow>
      (\<exists>b \<in> set act. fd_at w b < fd_at w a) \<and> (\<forall>b \<in> set act. fd_at w b \<le> fd_at w a)"
    by (simp add: filter_empty_conv not_less not_le)
  moreover have "and (interest x) (interest y) = 0" if "aio_is_read y \<noteq> aio_is_read x" for x y
    using that by (auto simp: interest_def epoll_defs)
  moreover obtain h' k' where "schedule K w a
      = Ok (w\<lparr>kern := k', links := h', poll_queue_length := poll_queue_length w + 1\<rparr>)"
    "reg k' = (reg (kern w))(fd_at w a \<mapsto> schedule_mask w act a)"
    using schedule_ok [OF assms] by blast
  ultimately show ?thesis by (auto simp: schedule_mask_def interests_def)
qed

theorem schedule_registers_witness:
  "\<exists>w'. schedule sim_kernel demo_world 9 = Ok w' \<and> sim_reg (kern w') 5 = Some EPOLLIN"
  using schedule_registers [OF demo_inv demo_contract, of 9]
  by (auto simp: sentinel_defs interest_def)

section \<open>Cancelling\<close>

text \<open>
  Claim C3. What \<^verbatim>\<open>cancel\<close> of a descriptor does, in every case. Without an active operation
  for the descriptor nothing changes. Otherwise, when the call returns, exactly the
  descriptor's operations leave the active part and stand, cancelled and in their order, in
  front of the earlier cancelled ones; the descriptor is no longer registered and all other
  operations are unchanged. The call does not return, and keeps the scheduler's mutex for ever,
  exactly when the descriptor is the greatest active one, has at least two operations, and the
  list holds something else as well.
\<close>

theorem cancel_outcome:
  assumes "poll_inv K reg F w act can cq L" and "fd \<in> pollable F w"
    and gs: "gs = filter (\<lambda>a. fd_at w a = fd) act"
  shows "if gs = [] then cancel K w fd = Ok w
    else if 2 \<le> length gs \<and> (\<forall>a \<in> set act. fd_at w a \<le> fd) \<and> (length gs < length act \<or> can \<noteq> [])
    then cancel K w fd = Diverges
    else \<exists>w'. cancel K w fd = Ok w'
      \<and> poll_inv K reg F w' (filter (\<lambda>a. fd_at w a \<noteq> fd) act) (gs @ can) cq L
      \<and> same_setup w w' \<and> (\<forall>a. a \<notin> set gs \<longrightarrow> objs w' a = objs w a)"
  using cancel_cases [OF assms] by (auto split: if_splits)

theorem cancel_outcome_witness:
  "cancel sim_kernel demo_world 5 = Diverges
   \<and> (\<exists>w'. cancel sim_kernel demo_world 3 = Ok w'
        \<and> poll_inv sim_kernel sim_reg sim_fds w' [5, 6] [4, 7] [8] [])"
  using cancel_outcome [OF demo_poll_inv, of 5 "[5, 6]"] cancel_outcome [OF demo_poll_inv, of 3 "[4]"]
  by auto

section \<open>Polling\<close>

text \<open>
  Claim C15. What an event of a descriptor leads to. The descriptor's operations of the
  event's direction are tried once each, reads when the event has \<^verbatim>\<open>EPOLLIN\<close> and writes
  otherwise; so an event with both bits never runs a write. The finished ones are appended to
  the completion queue in their order, all other active operations are unchanged and keep their
  order, and the descriptor stays registered for exactly the events the rest of its operations
  wait for, or not at all when none is left. The contract checks of the function hold.
\<close>

theorem process_event_effect:
  assumes "poll_inv K reg F w act can cq L" and "ev_fd e \<in> pollable F w"
    and at: "gs = filter (\<lambda>a. fd_at w a = ev_fd e) act"
  shows "\<exists>w' ks ds. process_event K (begin_cancelled w) w e = Ok (length ds, w')
    \<and> lists (links w') ((operations_list, filter (\<lambda>a. pending (objs w' a)) act @ can)
        # (completion_queue, cq @ ds) # L)
    \<and> ks = filter (\<lambda>a. pending (objs w' a)) gs \<and> ds = filter (\<lambda>a. \<not> pending (objs w' a)) gs
    \<and> (\<forall>a \<in> set ds. finished (objs w' a))
    \<and> (\<forall>a \<in> set gs. aio_is_read (aio_at w a) = (and (ev_events e) EPOLLIN \<noteq> 0) \<longrightarrow>
          (\<exists>k b op' k'. perform_io K k (aio_at w a) = Ok (b, op', k') \<and> objs w' a = Some (IoOp op')))
    \<and> (\<forall>a. a \<notin> set gs \<or> aio_is_read (aio_at w a) \<noteq> (and (ev_events e) EPOLLIN \<noteq> 0)
          \<longrightarrow> objs w' a = objs w a)
    \<and> reg (kern w') (ev_fd e)
      = (if ks = [] then None else Some (fold (\<lambda>a m. or m (interest (aio_at w a))) ks 0))"
proof -
  have core: "sched_core w act can cq L" and pe: "\<forall>a \<in> set act. pending (objs w a)"
    and r: "registered_inv reg F w act" and c: "running K (epoll_fd w) reg F w"
    using assms(1) by (auto simp: poll_inv_def sched_inv_core sched_core_def)
  obtain w' where w': "process_event K (begin_cancelled w) w e = Ok (length (done_now w' gs), w')"
    "polled reg F L can w act cq w' (still_waiting w' act) (done_now w' gs)"
    "event_effect K e w w' act"
    "reg (kern w') = (reg (kern w))(ev_fd e :=
        let ks = still_waiting w' gs in if ks = [] then None else Some (interests w ks 0))"
    using notify_event_ok [OF core r c assms(2)] at by auto
  have "sched_core w' (still_waiting w' act) can (cq @ done_now w' gs) L"
    and other: "\<And>a. a \<notin> set act \<Longrightarrow> objs w' a = objs w a"
    using w'(2) keeps_world_setup(5) [of "set act" w w'] by (auto simp: polled_def)
  then have l: "lists (links w') ((operations_list, still_waiting w' act @ can)
        # (completion_queue, cq @ done_now w' gs) # L)"
    and f: "\<forall>a \<in> set (done_now w' gs). finished (objs w' a)"
    by (auto simp: sched_core_def)
  have try_it: "\<exists>k b op' k'. perform_io K k (aio_at w a) = Ok (b, op', k') \<and> objs w' a = Some (IoOp op')"
    if "a \<in> set gs" "aio_is_read (aio_at w a) = (and (ev_events e) EPOLLIN \<noteq> 0)" for a
  proof -
    have "attempted K (ev_events e) (objs w a) (objs w' a)" "pending (objs w a)"
      using w'(3) that(1) pe at by (auto simp: event_effect_def)
    then show ?thesis using that(2) by (auto simp: attempted_def event_matches_def pending_def)
  qed
  have keep: "objs w' a = objs w a"
    if "a \<notin> set gs \<or> aio_is_read (aio_at w a) \<noteq> (and (ev_events e) EPOLLIN \<noteq> 0)" for a
    using w'(3) that other [of a] at
    by (cases "a \<in> set act") (auto simp: event_effect_def attempted_def event_matches_def split: if_splits)
  show ?thesis
    by (rule exI [of _ w'], rule exI [of _ "still_waiting w' gs"], rule exI [of _ "done_now w' gs"])
      (use w'(1,4) l f try_it keep in \<open>auto simp: interests_def Let_def\<close>)
qed

theorem process_event_effect_witness:
  "\<exists>w' op'. process_event sim_kernel 7 demo_world \<lparr>ev_events = EPOLLIN, ev_fd = 3\<rparr> = Ok op'
     \<and> process_event sim_kernel 7 demo_world \<lparr>ev_events = or EPOLLIN EPOLLOUT, ev_fd = 5\<rparr> = Ok (0, w')
     \<and> objs w' 5 = objs demo_world 5 \<and> objs w' 6 = objs demo_world 6"
proof -
  note p = process_event_effect [OF demo_poll_inv, where e = "\<lparr>ev_events = or EPOLLIN EPOLLOUT, ev_fd = 5\<rparr>"
      and gs = "[5, 6]"]
  have "and (or EPOLLIN EPOLLOUT) EPOLLIN \<noteq> 0" by (simp add: epoll_defs)
  then have "\<exists>w'. process_event sim_kernel 7 demo_world \<lparr>ev_events = or EPOLLIN EPOLLOUT, ev_fd = 5\<rparr> = Ok (0, w')
     \<and> objs w' 5 = objs demo_world 5 \<and> objs w' 6 = objs demo_world 6"
    using p by fastforce
  then show ?thesis
    using process_event_effect [OF demo_poll_inv, where e = "\<lparr>ev_events = EPOLLIN, ev_fd = 3\<rparr>" and gs = "[4]"]
    by fastforce
qed

text \<open>
  Claim C1. \<^verbatim>\<open>poll_once\<close> never violates a contract and never touches bad memory. Only a
  call that is not to block can fail to return. When it returns, with a count or by throwing
  the error of \<^verbatim>\<open>epoll_pwait\<close>, every cancelled operation has been moved to the completion
  queue in order, followed by the operations that finished; the rest are still active, in their
  order and without a result; nothing is lost or duplicated; the invariant holds again and no
  cancelled operation is left in the list. The count is the number of finished operations
  without the cancelled ones.
\<close>

theorem poll_once_correct:
  assumes "poll_inv K reg F w act can cq L"
  shows "(poll_once K block w = Diverges \<and> \<not> block)
    \<or> (\<exists>r w' act' ds. poll_once K block w = Ok (r, w')
        \<and> poll_inv K reg F w' act' [] (cq @ can @ ds) L
        \<and> act' = filter (\<lambda>a. pending (objs w' a)) act
        \<and> set ds = set (filter (\<lambda>a. \<not> pending (objs w' a)) act)
        \<and> length act = length act' + length ds
        \<and> same_setup w w' \<and> (\<forall>a. a \<notin> set act \<longrightarrow> objs w' a = objs w a)
        \<and> (case r of Inl e \<Rightarrow> \<exists>en. e = SystemError en | Inr m \<Rightarrow> m = length ds))"
proof (cases "poll_once K block w")
  case None
  then show ?thesis using poll_once_returns_if_few [OF assms, of block] by auto
next
  case (Some y)
  then show ?thesis
    using poll_once_outcome [OF assms Some] unfolding poll_effect_def by blast
qed

theorem poll_once_correct_witness:
  "\<exists>r w'. poll_once sim_kernel True demo_world = Ok (r, w')"
  using poll_once_correct [OF demo_poll_inv, of True] by blast



end
