(* ===== verification/Context_Theorems.thy ===== *)
theory Context_Theorems
  imports Lifecycle Scheduler_Theorems
begin

text \<open>
  The theorems on \<^verbatim>\<open>ContextThread\<close>: what user code can do keeps the invariant of a context,
  \<^verbatim>\<open>run_once\<close> and \<^verbatim>\<open>run\<close> dispatch every completion once and in order, exceptions lose nothing,
  and what construction and destruction leave.
\<close>

section \<open>A concrete context\<close>

text \<open>
  The state of the scheduler's example as a whole context, a context with two posted completions
  only, the second of which owns a descriptor, handlers that count their calls, handlers that
  throw on their second call, and handlers that post as long as the count they are given lasts.
\<close>

definition demo_ctx :: "sim world" where
  "demo_ctx = demo_world\<lparr>objs := (objs demo_world)(9 := None), remaining_count := 5\<rparr>"

definition posted_ctx :: "sim world" where
  "posted_ctx =
     \<lparr>links = \<lparr>item_prev = [1 \<mapsto> 1, 2 \<mapsto> 4, 3 \<mapsto> 2, 4 \<mapsto> 3], item_next = [1 \<mapsto> 1, 2 \<mapsto> 3, 3 \<mapsto> 4, 4 \<mapsto> 2]\<rparr>,
      objs = [3 \<mapsto> PlainOp (WrapWork True (Fn 0)), 4 \<mapsto> PlainOp (WrapWork True (OwnFd 6 (Fn 1)))],
      next_addr = 5, kern = \<lparr>sim_open = [0, 1, 3, 6], sim_reg = [1 \<mapsto> EPOLLIN], sim_events = []\<rparr>, epoll_fd = 0, wake_fd = 1,
      begin_cancelled = 1, poll_queue_length = 0, remaining_count = 2, threads_waiting = 0,
      io_fds = Map.empty\<rparr>"

definition demo_handlers :: "nat handlers" where
  "demo_handlers n arg u = ([], None, Suc u)"

definition throwing_handlers :: "nat handlers" where
  "throwing_handlers n arg u = ([], if u = 1 then Some 7 else None, Suc u)"

definition posting_handlers :: "nat handlers" where
  "posting_handlers n arg u = (if 0 < u then [ApiPost n] else [], None, u - 1)"

lemma demo_handlers_ok: "handlers_ok U demo_handlers" "handlers_ok U throwing_handlers"
  by (simp_all add: handlers_ok_def demo_handlers_def throwing_handlers_def)

lemma demo_ctx_objects:
  "dom (objs demo_ctx) = set [4, 5, 6] \<union> set [7] \<union> set [8] \<union> set (items_of [])"
  "\<forall>a \<in> dom (objs demo_ctx). well_wrapped (closure_at demo_ctx a)"
  "works demo_ctx = 5" "fds_owned demo_ctx = {#}"
proof -
  show d: "dom (objs demo_ctx) = set [4, 5, 6] \<union> set [7] \<union> set [8] \<union> set (items_of [])"
    by (auto simp: demo_ctx_def demo_world_def)
  have c: "closure_at demo_ctx a = WrapWork True (Fn (if a = 5 \<or> a = 6 then 1 else 0))"
    if "a \<in> {4, 5, 6, 7, 8}" for a
    using that by (auto simp: demo_ctx_def demo_read_def demo_write_def AsyncIoOperation_construct_def
        AsyncIoOperation_cancel_def)
  then show "\<forall>a \<in> dom (objs demo_ctx). well_wrapped (closure_at demo_ctx a)"
    using d by (auto simp: well_wrapped_def)
  show "works demo_ctx = 5" "fds_owned demo_ctx = {#}" unfolding closure_sum_def d using c by simp_all
qed

lemma demo_ctx_inv: "ctx_inv sim_kernel sim_reg sim_fds {3, 4, 5, 6} demo_ctx [4, 5, 6] [7] [8] [] 0 {#}"
proof -
  have p: "poll_inv sim_kernel sim_reg sim_fds demo_ctx [4, 5, 6] [7] [8] []"
  proof (rule poll_inv_cong [OF demo_poll_inv])
    show "same_scheduler sim_reg sim_fds demo_world demo_ctx" by (simp add: same_scheduler_def demo_ctx_def)
    show "lists (links demo_ctx) [(operations_list, [4, 5, 6] @ [7]), (completion_queue, [8])]"
      using demo_inv by (simp add: demo_ctx_def sched_inv_def)
  qed (auto simp: demo_ctx_def)
  have "{3, 4, 5, 6} = pollable sim_fds demo_ctx" by (auto simp: demo_ctx_def demo_world_def)
  then have "fds_inv sim_fds {3, 4, 5, 6} demo_ctx [4, 5, 6] {#}"
    using p demo_ctx_objects(4) by (auto simp: fds_inv_def poll_inv_def registered_inv_def)
  moreover have "next_addr demo_ctx = 10" "remaining_count demo_ctx = 5"
    by (simp_all add: demo_ctx_def demo_world_def)
  ultimately show ?thesis
    unfolding ctx_inv_def using p demo_ctx_objects by (simp add: sentinel_defs)
qed

lemma posted_ctx_inv: "ctx_inv sim_kernel sim_reg sim_fds {3} posted_ctx [] [] [3, 4] [] 0 {#}"
proof -
  have "sched_inv posted_ctx [] [] [3, 4] []"
    by (simp add: sched_inv_def posted_ctx_def lists_Cons il_def linked_def sentinel_defs finished_def)
  then have "poll_inv sim_kernel sim_reg sim_fds posted_ctx [] [] [3, 4] []"
    using sim_kernel_contract by (simp add: poll_inv_def registered_inv_def posted_ctx_def)
  moreover have d: "dom (objs posted_ctx) = {3, 4}" by (auto simp: posted_ctx_def)
  moreover have w: "works posted_ctx = 2" "fds_owned posted_ctx = {#6#}"
    unfolding closure_sum_def d by (simp_all add: posted_ctx_def)
  moreover have "fds_inv sim_fds {3} posted_ctx [] {#}"
    unfolding fds_inv_def w by (simp add: posted_ctx_def)
  ultimately show ?thesis
    unfolding ctx_inv_def by (simp add: well_wrapped_def sentinel_defs posted_ctx_def)
qed

lemma demo_handlers_post: "handlers_post demo_handlers" "handlers_post throwing_handlers"
  by (simp_all add: handlers_post_def demo_handlers_def throwing_handlers_def)

lemma posted_ctx_works: "works posted_ctx = 2"
  unfolding closure_sum_def by (simp add: posted_ctx_def)

lemma demo_run: "\<exists>m u' w'. run sim_kernel demo_handlers 0 posted_ctx 0 = Ok (Inr m, u', w')"
  using run_posted [OF posted_ctx_inv demo_handlers_post(1), of "\<lambda>_. 0" 0 0] posted_ctx_works
  by (auto simp: demo_handlers_def)

section \<open>Calls of user code\<close>

text \<open>
  Claim C6. Any sequence of calls of user code that posts completions, starts operations on
  descriptors of the user's objects and cancels such descriptors keeps the invariant of the context: the list of
  active operations stays sorted, exactly the descriptors with active operations are registered,
  the counters agree with the lists, no object leaks. The sequence stops the process only when
  the counter of active work would overflow, and runs for ever only when it cancels.
\<close>

theorem user_calls_keep_invariant:
  assumes "ctx_inv K reg F U w act can cq L ext D" and "\<forall>c \<in> set cs. api_ok U c"
  shows "(run_apis K cs w = Diverges \<and> (\<exists>fd. ApiCancel fd \<in> set cs))
    \<or> (run_apis K cs w = Fault ContractViolation \<and> 2 ^ 64 \<le> works w + ext + length cs)
    \<or> (\<exists>w' act' can' new. run_apis K cs w = Ok w' \<and> ctx_inv K reg F U w' act' can' (cq @ new) L ext D)"
  using run_apis_ok [OF assms] unfolding may_stop_def stop_def by force

theorem user_calls_keep_invariant_witness:
  "\<exists>w' act' can' new. run_apis sim_kernel
      [ApiPost 3, ApiStart 5 (OpRead (IoRead_construct \<lparr>bv_data = UserMem 0, bv_size = 8\<rparr>)) 4] demo_ctx = Ok w'
    \<and> ctx_inv sim_kernel sim_reg sim_fds {3, 4, 5, 6} w' act' can' ([8] @ new) [] 0 {#}"
  using user_calls_keep_invariant [OF demo_ctx_inv, of "[ApiPost 3,
      ApiStart 5 (OpRead (IoRead_construct \<lparr>bv_data = UserMem 0, bv_size = 8\<rparr>)) 4]"] demo_ctx_objects(3)
  by (auto simp: IoRead_construct_def)

section \<open>Running\<close>

text \<open>
  Claim C4. A call of \<^verbatim>\<open>run_once\<close> that returns has run the handler of every completion that
  was in the queue at the call, once each and in the order they were posted, and returns their
  number; what the handlers posted meanwhile is left for the next call. No object is lost: the
  invariant holds for what is left, and the work of the dispatched operations has been released.
\<close>

theorem run_once_dispatches_in_order:
  assumes "ctx_inv K reg F U w act can cq L ext D" and "handlers_ok U H"
    and "run_once K H u w = Ok (Inr n, u', w')"
    and ops: "ops = map (\<lambda>a. the (objs w a)) cq"
  shows "n = length cq \<and> handlers_return H ops u \<and> u' = run_handlers H ops u
    \<and> works w' + work_of ops \<le> works w + calls_of H ops u
    \<and> (\<exists>act' can' cq'. ctx_inv K reg F U w' act' can' cq' L ext D)"
  using run_once_ok [OF assms(1,2) refl ops, of u] assms(3) ops
  by (elim disjE exE conjE) (simp_all add: run_once_post_def, blast)

theorem run_once_dispatches_in_order_witness:
  "\<exists>n u' w'. run_once sim_kernel demo_handlers 0 posted_ctx = Ok (Inr n, u', w') \<and> n = 2 \<and> u' = 2"
proof -
  obtain w' where w': "run_once sim_kernel demo_handlers 0 posted_ctx
      = Ok (Inr (length [3, 4 :: addr]), run_handlers demo_handlers (map (\<lambda>a. the (objs posted_ctx a)) [3, 4]) 0, w')"
    using run_once_posted [OF posted_ctx_inv demo_handlers_post(1) refl, of 0] posted_ctx_works
    by (auto simp: handler_call_def demo_handlers_def)
  show ?thesis
    using w' run_once_dispatches_in_order [OF posted_ctx_inv demo_handlers_ok(1) w' refl]
    by (auto simp: handler_call_def demo_handlers_def)
qed

text \<open>
  Claim C5. When a handler throws, \<^verbatim>\<open>run_once\<close> passes the exception on and loses no
  completion: the handlers before it have run, the throwing one has run once, and the
  completions after it stand, untouched and in their order, at the front of the queue, before
  anything posted meanwhile. The invariant of the context holds, so it can be run again. An
  exception that is not the handler's is the error of \<^verbatim>\<open>epoll_pwait\<close>, and then all completions
  have been dispatched.
\<close>

theorem run_once_exception_safe:
  assumes "ctx_inv K reg F U w act can cq L ext D" and "handlers_ok U H"
    and "run_once K H u w = Ok (Inl e, u', w')"
    and ob: "ob = (\<lambda>a. the (objs w a))"
  shows "\<exists>act' can' cq'. ctx_inv K reg F U w' act' can' cq' L ext D
    \<and> (case e of
         SystemError en \<Rightarrow> handlers_return H (map ob cq) u \<and> u' = run_handlers H (map ob cq) u
       | RuntimeErrorPtr s \<Rightarrow> False
       | UserException ex \<Rightarrow>
           \<exists>us a xs new. cq = us @ a # xs \<and> handlers_return H (map ob us) u
             \<and> handler_throws H (ob a) (run_handlers H (map ob us) u) = Some ex
             \<and> u' = run_handlers H (map ob (us @ [a])) u
             \<and> cq' = xs @ new \<and> (\<forall>x \<in> set xs. objs w' x = Some (ob x)))"
proof -
  obtain act' can' cq' where c: "ctx_inv K reg F U w' act' can' cq' L ext D"
    "run_once_post H ob cq u (Inl e) u' w' cq'"
    using run_once_ok [OF assms(1,2) refl refl, of u] assms(3) ob by fastforce
  show ?thesis
    by (rule exI [of _ act'], rule exI [of _ can'], rule exI [of _ cq'])
      (use c in \<open>auto simp: run_once_post_def split: exn.splits\<close>)
qed

lemma throwing_run:
  "\<exists>u' w'. run_once sim_kernel throwing_handlers 1 posted_ctx = Ok (Inl (UserException 7), u', w')"
proof -
  have ops: "map (\<lambda>a. the (objs posted_ctx a)) [3, 4]
      = [PlainOp (WrapWork True (Fn 0)), PlainOp (WrapWork True (OwnFd 6 (Fn 1)))]" and "works posted_ctx = 2"
    by (simp_all add: posted_ctx_def closure_sum_def)
  moreover have "\<not> handlers_cancel throwing_handlers"
    by (simp add: handlers_cancel_def throwing_handlers_def)
  ultimately obtain r u' w' cq' where r: "run_once sim_kernel throwing_handlers 1 posted_ctx = Ok (r, u', w')"
    "run_once_post throwing_handlers (\<lambda>a. the (objs posted_ctx a)) [3, 4] 1 r u' w' cq'"
    using run_once_ok [OF posted_ctx_inv demo_handlers_ok(2) refl refl, of 1] demo_handlers_post(2)
    by (auto simp: may_stop_def handler_call_def throwing_handlers_def)
  have t: "handler_throws throwing_handlers x 1 = Some 7" for x
    by (simp add: handler_call_def throwing_handlers_def)
  have "r = Inl (UserException 7)"
  proof (cases r)
    case (Inl e)
    then show ?thesis
      using r(2) ops t by (cases e) (auto simp: run_once_post_def Cons_eq_append_conv)
  qed (use r(2) ops t in \<open>simp add: run_once_post_def\<close>)
  then show ?thesis using r(1) by blast
qed

theorem run_once_exception_safe_witness:
  "\<exists>u' w' act' can' new. run_once sim_kernel throwing_handlers 1 posted_ctx = Ok (Inl (UserException 7), u', w')
     \<and> ctx_inv sim_kernel sim_reg sim_fds {3} w' act' can' (4 # new) [] 0 {#}
     \<and> objs w' 4 = Some (PlainOp (WrapWork True (OwnFd 6 (Fn 1))))"
proof -
  obtain u' w' where r: "run_once sim_kernel throwing_handlers 1 posted_ctx = Ok (Inl (UserException 7), u', w')"
    using throwing_run by blast
  have "handler_throws throwing_handlers x 1 = Some 7" for x
    by (simp add: handler_call_def throwing_handlers_def)
  then show ?thesis
    using r run_once_exception_safe [OF posted_ctx_inv demo_handlers_ok(2) r refl]
    by (auto simp: Cons_eq_append_conv posted_ctx_def) blast
qed

text \<open>
  Claim C9. \<^verbatim>\<open>run_once\<close> never touches bad memory and never takes the wrong alternative of a
  result. It terminates the process only when the counter of active work can overflow: only
  when the active work and the calls its handlers make together exceed 64 bits. It fails to
  return only when a handler cancels a descriptor or the kernel fills the whole event buffer.
\<close>

theorem run_once_safe:
  assumes "ctx_inv K reg F U w act can cq L ext D" and "handlers_ok U H"
  shows "(\<exists>r u' w'. run_once K H u w = Ok (r, u', w'))
    \<or> (run_once K H u w = Fault ContractViolation
        \<and> 2 ^ 64 \<le> works w + ext + calls_of H (map (\<lambda>a. the (objs w a)) cq) u)
    \<or> (run_once K H u w = Diverges
        \<and> ((\<exists>n arg v fd. ApiCancel fd \<in> set (fst (H n arg v)))
           \<or> (\<exists>efd k t. sr_ret (fst (K k (Sys_epoll_wait efd 1024 t))) = 1024)))"
  using run_once_ok [OF assms refl refl, of u]
  unfolding may_stop_def stop_def handlers_cancel_def kernel_fills_buffer_def kMaxEventsPerPoll_def
  by (elim disjE exE conjE) (simp_all, blast+)

theorem run_once_safe_witness:
  "(\<exists>r u' w'. run_once sim_kernel demo_handlers 0 demo_ctx = Ok (r, u', w'))
    \<or> run_once sim_kernel demo_handlers 0 demo_ctx = Diverges"
  using run_once_safe [OF demo_ctx_inv demo_handlers_ok(1), of 0] demo_ctx_objects(3)
  by (auto simp: handler_call_def demo_handlers_def)

text \<open>
  Claim C7. A call of \<^verbatim>\<open>run\<close> that returns leaves nothing: no work remains, every operation
  object has been freed, the scheduler's list and the completion queue are empty and no
  descriptor but the wake event is registered with epoll any more. The descriptors of the user's
  objects are still open: only descriptors that detached objects had left to their handlers have
  been closed.
\<close>

theorem run_leaves_nothing:
  assumes "ctx_inv K reg F U w act can cq [] ext D" and "handlers_ok U H"
    and "run K H u w n = Ok (Inr m, u', w')"
  shows "ext = 0 \<and> remaining_count w' = 0 \<and> objs w' = Map.empty \<and> poll_queue_length w' = 0
    \<and> il (links w') operations_list [] \<and> il (links w') completion_queue []
    \<and> (\<forall>fd. reg (kern w') fd \<noteq> None \<longrightarrow> fd = wake_fd w') \<and> U \<subseteq> F (kern w')"
proof -
  obtain act' can' cq' where c: "ctx_inv K reg F U w' act' can' cq' [] ext D" "remaining_count w' = 0"
    using run_ok [OF assms(3,1,2)] by (auto simp: run_post_def)
  then show ?thesis
    using ctx_inv_no_work [OF c]
    by (auto simp: ctx_inv_def fds_inv_def poll_inv_def sched_inv_def registered_inv_def lists_Cons)
qed

theorem run_leaves_nothing_witness:
  "\<exists>m u' w'. run sim_kernel demo_handlers 0 posted_ctx 0 = Ok (Inr m, u', w') \<and> objs w' = Map.empty"
proof -
  obtain m u' w' where r: "run sim_kernel demo_handlers 0 posted_ctx 0 = Ok (Inr m, u', w')"
    using demo_run by blast
  then show ?thesis
    using run_leaves_nothing [OF posted_ctx_inv demo_handlers_ok(1) r] by blast
qed





section \<open>Construction and destruction\<close>

text \<open>
  Claim C18. Constructing a context. When the system calls of the constructor succeed and the
  new epoll instance watches nothing, the new context satisfies the invariant with empty lists
  and no work. When creating the epoll instance or the wake event fails, the exception meets the
  \<^verbatim>\<open>noexcept\<close> of the constructor and the process terminates; no caller can handle it.
\<close>

theorem construct_establishes_invariant:
  assumes "K k Sys_epoll_create = (r1, k1)" and "K k1 (Sys_eventfd False) = (r2, k2)"
    and "os_contract K (sr_ret r1) (sr_ret r2) reg F"
    and "reg k2 = Map.empty" and "U \<subseteq> F k"
  shows "if sr_ret r1 < 0 \<or> sr_ret r2 < 0 then ContextThread_construct K k = Fault NoexceptViolation
    else \<exists>w. ContextThread_construct K k = Ok w \<and> ctx_inv K reg F U w [] [] [] [] 0 {#}"
proof (cases "sr_ret r1 < 0 \<or> sr_ret r2 < 0")
  case True
  then show ?thesis
    using assms(1,2) by (auto simp: ContextThread_construct_def IoScheduler_construct_def PollWakeEvent_construct_def
        new_item_chain sentinel_defs)
next
  case False
  then show ?thesis using construct_ok [OF assms(1,2) _ _ assms(3-5)] by simp
qed

theorem construct_establishes_invariant_witness:
  "\<exists>w. ContextThread_construct sim_kernel \<lparr>sim_open = [0, 2], sim_reg = Map.empty, sim_events = []\<rparr> = Ok w
     \<and> ctx_inv sim_kernel sim_reg sim_fds {2} w [] [] [] [] 0 {#}"
  using construct_establishes_invariant [of sim_kernel "\<lparr>sim_open = [0, 2], sim_reg = Map.empty, sim_events = []\<rparr>"
      _ _ _ _ sim_reg sim_fds "{2}"] sim_kernel_contract
  by (auto simp: sim_kernel_def sim_fresh_def)

text \<open>
  Claim C19. Destroying a context whose scheduler has no operation left discards every posted
  completion, frees all objects and leaves only the work held elsewhere. With an I/O operation
  still pending, active or cancelled, the destructor has undefined behaviour: the operation's
  \<^verbatim>\<open>Work\<close> is released after the condition variable it notifies has been destroyed.
\<close>

theorem destroy_outcome:
  assumes "ctx_inv K reg F U w act can cq [] ext D"
  shows "if act @ can = []
    then \<exists>w'. ContextThread_destroy K w = Ok w' \<and> objs w' = Map.empty \<and> remaining_count w' = of_nat ext
    else ContextThread_destroy K w = Fault BadAccess"
  by (rule destroy_ok [OF assms])

theorem destroy_outcome_witness:
  "(\<exists>w'. ContextThread_destroy sim_kernel posted_ctx = Ok w' \<and> objs w' = Map.empty)
   \<and> ContextThread_destroy sim_kernel demo_ctx = Fault BadAccess"
  using destroy_outcome [OF posted_ctx_inv] destroy_outcome [OF demo_ctx_inv] by auto

end
