(* ===== verification/Timer.thy ===== *)
theory Timer
  imports Io_Object Context_Theorems "HOL-Library.Signed_Division"
begin

text \<open>
  \<^verbatim>\<open>Timer\<close> (\<^verbatim>\<open>timer.hpp\<close>, \<^verbatim>\<open>src/timer.cpp\<close>), \<^verbatim>\<open>Event\<close> (\<^verbatim>\<open>event.hpp\<close>, \<^verbatim>\<open>src/event.cpp\<close>)
  and \<^verbatim>\<open>Signal\<close> (\<^verbatim>\<open>signal.hpp\<close>, \<^verbatim>\<open>src/signal.cpp\<close>).

  A \<^verbatim>\<open>std::chrono::duration\<close> is a count of a period, the period a fraction of a second;
  counts are integers of any size here, so the conversion to nanoseconds does not overflow.
\<close>

section \<open>Durations\<close>

record duration =
  dur_count :: int
  dur_num :: int
  dur_den :: int

text \<open>\<^verbatim>\<open>duration_cast<nanoseconds>\<close> truncates towards zero.\<close>

definition duration_cast_ns :: "duration \<Rightarrow> int" where
  "duration_cast_ns d = (dur_count d * dur_num d * 1000000000) sdiv dur_den d"

definition kNanosecondsPerSecond :: int where
  "kNanosecondsPerSecond = 1000000000"

definition convert_to_itimerspec :: "int \<Rightarrow> itimerspec" where
  "convert_to_itimerspec val =
     \<lparr>tv_sec = val sdiv kNanosecondsPerSecond, tv_nsec = val smod kNanosecondsPerSecond\<rparr>"

section \<open>Timers\<close>

definition Timer_construct :: "'k kernel \<Rightarrow> 'k world \<Rightarrow> nat \<Rightarrow> 'k may_throw" where
  "Timer_construct K w ob = open_object K w ob Sys_timerfd_create"

text \<open>\<^verbatim>\<open>timerfd_settime\<close>, and the exception when it fails.\<close>

definition settime :: "'k kernel \<Rightarrow> 'k world \<Rightarrow> fd \<Rightarrow> itimerspec \<Rightarrow> (exn + unit) \<times> 'k world" where
  "settime K w fd timerval =
     (let (r, k) = K (kern w) (Sys_timerfd_settime fd timerval)
      in (if sr_ret r < 0 then Inl (SystemError (sr_errno r)) else Inr (), w\<lparr>kern := k\<rparr>))"

definition Timer_expire :: "'k kernel \<Rightarrow> 'k world \<Rightarrow> nat \<Rightarrow> 'k may_throw" where
  "Timer_expire K w ob =
     run_bind (object_fd w ob) (\<lambda>fd. Ok (settime K w fd (convert_to_itimerspec 1)))"

definition queue_timer_operation :: "'k kernel \<Rightarrow> 'k world \<Rightarrow> fd \<Rightarrow> completion \<Rightarrow> 'k world run" where
  "queue_timer_operation K w fd f = start_io K w f fd (OpTimerOrEvent TimerExpiryOrEvent_construct)"

definition wait_for_expiry_after ::
  "'k kernel \<Rightarrow> 'k world \<Rightarrow> nat \<Rightarrow> duration \<Rightarrow> completion \<Rightarrow> 'k may_throw" where
  "wait_for_expiry_after K w ob d f =
     run_bind (IoObject_cancel K w ob) (\<lambda>w.
     if dur_count d = 0
     then run_bind (Context_post_completion K w (BindResult (ArgTimerOrEvent (result_ok (Init 0))) f)) (\<lambda>w.
          Ok (Inr (), w))
     else run_bind (object_fd w ob) (\<lambda>fd.
          case settime K w fd (convert_to_itimerspec (duration_cast_ns d)) of
            (Inl e, w) \<Rightarrow> Ok (Inl e, w)
          | (Inr _, w) \<Rightarrow> run_bind (queue_timer_operation K w fd f) (\<lambda>w. Ok (Inr (), w))))"

text \<open>
  The free function: a local timer gives up its descriptor, which the closure of the handler
  owns from then on; until then a thrown exception closes it.
\<close>

definition wait_for_timer_expiry_after ::
  "'k kernel \<Rightarrow> 'k world \<Rightarrow> duration \<Rightarrow> completion \<Rightarrow> 'k may_throw" where
  "wait_for_timer_expiry_after K w d f =
     (let (r, k) = K (kern w) Sys_timerfd_create; w = w\<lparr>kern := k\<rparr>
      in if sr_ret r < 0 then Ok (Inl (SystemError (sr_errno r)), w)
         else let (fd, _) = FileDescriptor_move (sr_ret r)
              in case settime K w fd (convert_to_itimerspec (duration_cast_ns d)) of
                   (Inl e, w) \<Rightarrow> Ok (Inl e, w\<lparr>kern := FileDescriptor_destroy K (kern w) fd\<rparr>)
                 | (Inr _, w) \<Rightarrow>
                     run_bind (queue_timer_operation K w fd (OwnFd fd f)) (\<lambda>w. Ok (Inr (), w)))"

section \<open>Events\<close>

definition Event_construct :: "'k kernel \<Rightarrow> 'k world \<Rightarrow> nat \<Rightarrow> 'k may_throw" where
  "Event_construct K w ob = open_object K w ob (Sys_eventfd False)"

definition Event_construct_semaphore :: "'k kernel \<Rightarrow> 'k world \<Rightarrow> nat \<Rightarrow> 'k may_throw" where
  "Event_construct_semaphore K w ob = open_object K w ob (Sys_eventfd True)"

definition Event_trigger :: "'k kernel \<Rightarrow> 'k world \<Rightarrow> nat \<Rightarrow> completion \<Rightarrow> 'k world run" where
  "Event_trigger K w ob f = schedule_io K w ob f (OpEventWrite (EventWrite_construct None))"

definition Event_trigger_with_value ::
  "'k kernel \<Rightarrow> 'k world \<Rightarrow> nat \<Rightarrow> u64 \<Rightarrow> completion \<Rightarrow> 'k world run" where
  "Event_trigger_with_value K w ob val f =
     schedule_io K w ob f (OpEventWrite (EventWrite_construct (Some val)))"

definition Event_wait_for_event :: "'k kernel \<Rightarrow> 'k world \<Rightarrow> nat \<Rightarrow> completion \<Rightarrow> 'k world run" where
  "Event_wait_for_event K w ob f = schedule_io K w ob f (OpTimerOrEvent TimerExpiryOrEvent_construct)"

section \<open>Signals\<close>

text \<open>The descriptor is -1 when the signal set cannot be built.\<close>

definition signal_descriptor :: "'k kernel \<Rightarrow> 'k \<Rightarrow> int \<Rightarrow> (fd \<times> int) \<times> 'k" where
  "signal_descriptor K k sig =
     (let (r1, k) = K k Sys_sigemptyset
      in if sr_ret r1 < 0 then ((-1, sr_errno r1), k)
         else let (r2, k) = K k (Sys_sigaddset sig)
              in if sr_ret r2 < 0 then ((-1, sr_errno r2), k)
                 else let (r3, k) = K k (Sys_signalfd sig) in ((sr_ret r3, sr_errno r3), k))"

definition Signal_construct :: "'k kernel \<Rightarrow> 'k world \<Rightarrow> nat \<Rightarrow> int \<Rightarrow> 'k may_throw" where
  "Signal_construct K w ob sig =
     (let ((fd, errno), k) = signal_descriptor K (kern w) sig;
          w = IoObject_construct (w\<lparr>kern := k\<rparr>) ob fd
      in if fd < 0 then leave_constructor K w ob (SystemError errno) else Ok (Inr (), w))"

definition Signal_wait :: "'k kernel \<Rightarrow> 'k world \<Rightarrow> nat \<Rightarrow> completion \<Rightarrow> 'k world run" where
  "Signal_wait K w ob f = schedule_io K w ob f (OpSignalRead SignalRead_construct)"

section \<open>Properties\<close>

text \<open>
  Claim C36. The conversion of a duration to the timer's seconds and nanoseconds loses nothing,
  and for durations that are not negative the nanoseconds are in the range \<^verbatim>\<open>timerfd_settime\<close>
  accepts. Only the duration zero gives the value that disarms a timer; a negative duration
  always has a negative part, which \<^verbatim>\<open>timerfd_settime\<close> refuses.
\<close>

theorem itimerspec_represents_duration:
  "(let t = convert_to_itimerspec val
    in tv_sec t * 1000000000 + tv_nsec t = val \<and> \<bar>tv_nsec t\<bar> < 1000000000
      \<and> (0 \<le> tv_sec t \<and> 0 \<le> tv_nsec t \<longleftrightarrow> 0 \<le> val)
      \<and> (tv_sec t = 0 \<and> tv_nsec t = 0 \<longleftrightarrow> val = 0))"
proof -
  define s where "s = val sdiv 1000000000"
  define n where "n = val smod 1000000000"
  have sum: "s * 1000000000 + n = val"
    using sdiv_mult_smod_eq [of val 1000000000] by (simp add: s_def n_def)
  moreover have "\<bar>n\<bar> < 1000000000" "0 \<le> val \<Longrightarrow> 0 \<le> s \<and> 0 \<le> n" "val < 0 \<Longrightarrow> s \<le> 0 \<and> n \<le> 0"
    by (auto simp: s_def n_def signed_divide_int_def signed_modulo_int_def sgn_if)
  ultimately have "(0 \<le> s \<and> 0 \<le> n \<longleftrightarrow> 0 \<le> val) \<and> (s = 0 \<and> n = 0 \<longleftrightarrow> val = 0) \<and> \<bar>n\<bar> < 1000000000"
    by arith
  then show ?thesis using sum
    by (simp add: convert_to_itimerspec_def kNanosecondsPerSecond_def s_def [symmetric] n_def [symmetric])
qed

lemma ctx_inv_io_fds:
  assumes "ctx_inv K reg F U w act can cq L ext D"
  shows "ctx_inv K reg F U (w\<lparr>io_fds := fds\<rparr>) act can cq L ext D"
proof -
  have "poll_inv K reg F (w\<lparr>io_fds := fds\<rparr>) act can cq L"
    by (rule poll_inv_cong [of K reg F w act can cq L])
      (use assms in \<open>auto simp: same_scheduler_def ctx_inv_def poll_inv_def sched_inv_def\<close>)
  then show ?thesis using assms by (simp add: ctx_inv_def fds_inv_def)
qed

text \<open>Setting a timer is no registration, so the invariant of the context is kept.\<close>

lemma settime_ctx:
  assumes "ctx_inv K reg F U w act can cq L ext D" and "settime K w fd t = (r, w')"
  shows "ctx_inv K reg F U w' act can cq L ext D" and "works w' = works w" and "objs w' = objs w"
    and "\<forall>e. r = Inl e \<longrightarrow> (\<exists>en. e = SystemError en)"
proof -
  obtain a k' where k: "K (kern w) (Sys_timerfd_settime fd t) = (a, k')" by fastforce
  have w': "w' = w\<lparr>kern := k'\<rparr>" using assms(2) k by (simp add: settime_def)
  have "reg k' = reg (kern w) \<and> F (kern w) \<subseteq> F k'"
    using os_contract_other [of K "epoll_fd w" "wake_fd w" reg F "Sys_timerfd_settime fd t" "kern w" a k']
      assms(1) k by (simp add: ctx_inv_def poll_inv_def)
  then show "ctx_inv K reg F U w' act can cq L ext D"
    unfolding w' by (rule ctx_inv_same_registration [OF assms(1)])
  show "works w' = works w" and "objs w' = objs w" by (simp_all add: w')
  show "\<forall>e. r = Inl e \<longrightarrow> (\<exists>en. e = SystemError en)"
    using assms(2) k by (auto simp: settime_def split: if_splits)
qed

abbreviation timer_op :: "completion \<Rightarrow> fd \<Rightarrow> async_op" where
  "timer_op f fd \<equiv> IoOp (AsyncIoOperation_construct (WrapWork True f) fd
     (OpTimerOrEvent TimerExpiryOrEvent_construct))"

text \<open>Setting the timer and queueing the operation, as both ways to wait do it.\<close>

lemma arm_timer_ok:
  assumes inv: "ctx_inv K reg F U w act can cq L ext (D + own_fds f)"
    and fd: "fd \<in> U \<or> fd \<in># own_fds f" and f: "plain_closure f" "active_work f = 0"
    and room: "Suc (works w + ext) < 2 ^ 64"
  shows "(\<exists>en w'. settime K w fd t = (Inl (SystemError en), w')
        \<and> ctx_inv K reg F U w' act can cq L ext (D + own_fds f) \<and> works w' = works w)
    \<or> (\<exists>w1 w' act'. settime K w fd t = (Inr (), w1) \<and> queue_timer_operation K w1 fd f = Ok w'
        \<and> ctx_inv K reg F U w' act' can cq L ext D \<and> works w' = Suc (works w)
        \<and> (\<exists>a \<in> set act'. objs w' a = Some (timer_op f fd)))"
proof -
  let ?op = "OpTimerOrEvent TimerExpiryOrEvent_construct"
  obtain r w1 where s: "settime K w fd t = (r, w1)" by fastforce
  note st = settime_ctx [OF inv s]
  show ?thesis
  proof (cases r)
    case (Inl e)
    then show ?thesis using s st by auto
  next
    case (Inr x)
    have "op_result ?op = None" by (simp add: TimerExpiryOrEvent_construct_def)
    then obtain w' act' where w': "start_io K w1 f fd ?op = Ok w'"
      "ctx_inv K reg F U w' act' can cq L ext D" "works w' = Suc (works w1)"
      "set act' = insert (next_addr w1) (set act)" "objs w' = (objs w1)(next_addr w1 \<mapsto> timer_op f fd)"
      using start_io_ok [of K reg F U w1 act can cq L ext f D fd ?op] st(1,2) room fd f by auto
    then have "\<exists>a \<in> set act'. objs w' a = Some (timer_op f fd)" by simp
    then show ?thesis using s Inr w'(1-3) st(2) by (auto simp: queue_timer_operation_def)
  qed
qed



text \<open>
  A detached wait for a duration that is zero, or shorter than a nanosecond, sets the timer to the
  value that disarms it, and still queues an operation that waits for it: nothing will ever make
  the descriptor readable.
\<close>

lemma short_durations_disarm:
  assumes "\<bar>dur_count d * dur_num d * 1000000000\<bar> < dur_den d"
    and "K (kern w) Sys_timerfd_create = (r1, k1)" and "0 \<le> sr_ret r1"
    and "K k1 (Sys_timerfd_settime (sr_ret r1) \<lparr>tv_sec = 0, tv_nsec = 0\<rparr>) = (r2, k2)" and "0 \<le> sr_ret r2"
  shows "wait_for_timer_expiry_after K w d f = run_bind
      (start_io K (w\<lparr>kern := k2\<rparr>) (OwnFd (sr_ret r1) f) (sr_ret r1)
        (OpTimerOrEvent TimerExpiryOrEvent_construct)) (\<lambda>w. Ok (Inr (), w))"
proof -
  have "duration_cast_ns d = 0"
    using assms(1) by (auto simp: duration_cast_ns_def signed_divide_int_def)
  then have "convert_to_itimerspec (duration_cast_ns d) = \<lparr>tv_sec = 0, tv_nsec = 0\<rparr>"
    by (simp add: convert_to_itimerspec_def)
  then show ?thesis
    using assms(2-5)
    by (simp add: wait_for_timer_expiry_after_def settime_def queue_timer_operation_def FileDescriptor_move_def)
qed



end
