(* ===== verification/Sockets.thy ===== *)
theory Sockets
  imports Io_Object Utils
begin

text \<open>
  The sockets: \<^verbatim>\<open>TcpSocket\<close> and \<^verbatim>\<open>TcpSocketAcceptor\<close> (\<^verbatim>\<open>tcp_socket.hpp\<close>,
  \<^verbatim>\<open>src/tcp_socket.cpp\<close>), \<^verbatim>\<open>UdpSocket\<close> (\<^verbatim>\<open>udp_socket.hpp\<close>, \<^verbatim>\<open>src/udp_socket.cpp\<close>), and
  \<^verbatim>\<open>UnixSocket\<close> and \<^verbatim>\<open>UnixSocketAcceptor\<close> (\<^verbatim>\<open>unix_socket.hpp\<close>, \<^verbatim>\<open>src/unix_socket.cpp\<close>).
  The constructors of acceptors return the address they keep in their member \<^verbatim>\<open>addr_\<close>.
\<close>

section \<open>Internet addresses\<close>

text \<open>
  The body shared by \<^verbatim>\<open>connect\<close>, \<^verbatim>\<open>bind\<close>, \<^verbatim>\<open>send_to\<close> and the TCP acceptor: the octets
  and the port in network byte order.
\<close>

definition make_sockaddr_in :: "string \<Rightarrow> u16 \<Rightarrow> (exn + sockaddr_in) run" where
  "make_sockaddr_in address port =
     run_bind (parse_ipv4 address) (\<lambda>r.
     Ok (case r of Inl e \<Rightarrow> Inl e
         | Inr a \<Rightarrow> Inr \<lparr>sin_family = AF_INET, sin_port = reverse_byte_order port,
                         sin_addr = reverse_byte_order a\<rparr>))"

text \<open>An asynchronous member that needs such an address first.\<close>

definition with_sockaddr_in ::
  "'k world \<Rightarrow> string \<Rightarrow> u16 \<Rightarrow> (sockaddr_in \<Rightarrow> 'k world run) \<Rightarrow> 'k may_throw" where
  "with_sockaddr_in w address port start =
     run_bind (make_sockaddr_in address port) (\<lambda>r.
     case r of Inl e \<Rightarrow> Ok (Inl e, w) | Inr addr \<Rightarrow> run_bind (start addr) (\<lambda>w. Ok (Inr (), w)))"

section \<open>TCP\<close>

definition TcpSocket_construct :: "'k kernel \<Rightarrow> 'k world \<Rightarrow> nat \<Rightarrow> 'k may_throw" where
  "TcpSocket_construct K w ob = open_object K w ob (Sys_socket AF_INET True)"

definition TcpSocket_connect ::
  "'k kernel \<Rightarrow> 'k world \<Rightarrow> nat \<Rightarrow> string \<Rightarrow> u16 \<Rightarrow> completion \<Rightarrow> 'k may_throw" where
  "TcpSocket_connect K w ob address port f =
     with_sockaddr_in w address port (\<lambda>addr.
       schedule_io K w ob f (OpNetConnect (NetConnect_construct addr)))"

definition TcpSocket_read :: "'k kernel \<Rightarrow> 'k world \<Rightarrow> nat \<Rightarrow> buffer_view \<Rightarrow> completion \<Rightarrow> 'k world run" where
  "TcpSocket_read K w ob buffer f = schedule_io K w ob f (OpRead (IoRead_construct buffer))"

definition TcpSocket_receive_message :: "'k kernel \<Rightarrow> 'k world \<Rightarrow> nat \<Rightarrow> msghdr \<Rightarrow> completion \<Rightarrow> 'k world run" where
  "TcpSocket_receive_message K w ob msg f =
     schedule_io K w ob f (OpReceiveMessage (ReceiveMessage_construct msg))"

definition TcpSocket_write :: "'k kernel \<Rightarrow> 'k world \<Rightarrow> nat \<Rightarrow> buffer_view \<Rightarrow> completion \<Rightarrow> 'k world run" where
  "TcpSocket_write K w ob buffer f = schedule_io K w ob f (OpWrite (IoWrite_construct buffer))"

definition TcpSocket_send_message :: "'k kernel \<Rightarrow> 'k world \<Rightarrow> nat \<Rightarrow> msghdr \<Rightarrow> completion \<Rightarrow> 'k world run" where
  "TcpSocket_send_message K w ob msg f =
     schedule_io K w ob f (OpSendMessage (SendMessage_construct msg))"

text \<open>Binding and listening, the end of the constructors of both acceptors.\<close>

definition bind_and_listen ::
  "'k kernel \<Rightarrow> 'k world \<Rightarrow> nat \<Rightarrow> syscall \<Rightarrow> fd \<Rightarrow> 'a \<Rightarrow> ((exn + 'a) \<times> 'k world) run" where
  "bind_and_listen K w ob bind_call fd addr =
     (let (r, k) = K (kern w) bind_call; w = w\<lparr>kern := k\<rparr>
      in if sr_ret r < 0 then leave_constructor K w ob (SystemError (sr_errno r))
         else let (r, k) = K (kern w) (Sys_listen fd); w = w\<lparr>kern := k\<rparr>
              in if sr_ret r < 0 then leave_constructor K w ob (SystemError (sr_errno r))
                 else Ok (Inr addr, w))"

definition TcpSocketAcceptor_construct ::
  "'k kernel \<Rightarrow> 'k world \<Rightarrow> nat \<Rightarrow> u16 \<Rightarrow> string \<Rightarrow> ((exn + sockaddr_in) \<times> 'k world) run" where
  "TcpSocketAcceptor_construct K w ob port address =
     (let (r, k) = K (kern w) (Sys_socket AF_INET True);
          fd = sr_ret r; w = IoObject_construct (w\<lparr>kern := k\<rparr>) ob fd
      in if fd < 0 then leave_constructor K w ob (SystemError (sr_errno r))
         else let (r, k) = K (kern w) (Sys_setsockopt_reuseaddr fd); w = w\<lparr>kern := k\<rparr>
              in if sr_ret r \<noteq> 0 then leave_constructor K w ob (SystemError (sr_errno r))
                 else run_bind (make_sockaddr_in address port) (\<lambda>a.
                      case a of Inl e \<Rightarrow> leave_constructor K w ob e
                      | Inr addr \<Rightarrow> bind_and_listen K w ob (Sys_bind_in fd addr) fd addr))"

definition TcpSocketAcceptor_construct_any ::
  "'k kernel \<Rightarrow> 'k world \<Rightarrow> nat \<Rightarrow> u16 \<Rightarrow> ((exn + sockaddr_in) \<times> 'k world) run" where
  "TcpSocketAcceptor_construct_any K w ob port = TcpSocketAcceptor_construct K w ob port ''0.0.0.0''"

definition TcpSocketAcceptor_address :: "sockaddr_in \<Rightarrow> string run" where
  "TcpSocketAcceptor_address addr = exios_expect False (Ok [])"

definition TcpSocketAcceptor_port :: "sockaddr_in \<Rightarrow> u16" where
  "TcpSocketAcceptor_port addr = reverse_byte_order (sin_port addr)"

definition TcpSocketAcceptor_accept :: "'k kernel \<Rightarrow> 'k world \<Rightarrow> nat \<Rightarrow> nat \<Rightarrow> completion \<Rightarrow> 'k world run" where
  "TcpSocketAcceptor_accept K w ob target f =
     schedule_io K w ob (AcceptInto target f) (OpUnixAccept UnixAccept_construct)"

section \<open>UDP\<close>

definition UdpSocket_construct :: "'k kernel \<Rightarrow> 'k world \<Rightarrow> nat \<Rightarrow> 'k may_throw" where
  "UdpSocket_construct K w ob = open_object K w ob (Sys_socket AF_INET False)"

definition UdpSocket_connect ::
  "'k kernel \<Rightarrow> 'k world \<Rightarrow> nat \<Rightarrow> string \<Rightarrow> u16 \<Rightarrow> completion \<Rightarrow> 'k may_throw" where
  "UdpSocket_connect K w ob address port f =
     with_sockaddr_in w address port (\<lambda>addr.
       schedule_io K w ob f (OpNetConnect (NetConnect_construct addr)))"

definition UdpSocket_bind :: "'k kernel \<Rightarrow> 'k world \<Rightarrow> nat \<Rightarrow> u16 \<Rightarrow> string \<Rightarrow> 'k may_throw" where
  "UdpSocket_bind K w ob port address =
     run_bind (make_sockaddr_in address port) (\<lambda>a.
     case a of Inl e \<Rightarrow> Ok (Inl e, w)
     | Inr addr \<Rightarrow>
         run_bind (object_fd w ob) (\<lambda>fd.
         let (r, k) = K (kern w) (Sys_bind_in fd addr)
         in Ok (if sr_ret r < 0 then Inl (SystemError (sr_errno r)) else Inr (), w\<lparr>kern := k\<rparr>)))"

definition UdpSocket_receive_from ::
  "'k kernel \<Rightarrow> 'k world \<Rightarrow> nat \<Rightarrow> buffer_view \<Rightarrow> completion \<Rightarrow> 'k world run" where
  "UdpSocket_receive_from K w ob buffer f =
     schedule_io K w ob f (OpNetReceiveFrom (NetReceiveFrom_construct buffer))"

text \<open>
  The port is a signed \<^verbatim>\<open>std::int16_t\<close> here; reversing its bytes and assigning it to
  \<^verbatim>\<open>sin_port\<close> only moves its bits, so it is the 16-bit word with the same bits.
\<close>

definition UdpSocket_send_to ::
  "'k kernel \<Rightarrow> 'k world \<Rightarrow> nat \<Rightarrow> buffer_view \<Rightarrow> string \<Rightarrow> u16 \<Rightarrow> completion \<Rightarrow> 'k may_throw" where
  "UdpSocket_send_to K w ob buffer address port f =
     with_sockaddr_in w address port (\<lambda>addr.
       schedule_io K w ob f (OpNetSendTo (NetSendTo_construct buffer addr)))"

definition UdpSocket_read :: "'k kernel \<Rightarrow> 'k world \<Rightarrow> nat \<Rightarrow> buffer_view \<Rightarrow> completion \<Rightarrow> 'k world run" where
  "UdpSocket_read K w ob buffer f = schedule_io K w ob f (OpRead (IoRead_construct buffer))"

definition UdpSocket_write :: "'k kernel \<Rightarrow> 'k world \<Rightarrow> nat \<Rightarrow> buffer_view \<Rightarrow> completion \<Rightarrow> 'k world run" where
  "UdpSocket_write K w ob buffer f = schedule_io K w ob f (OpWrite (IoWrite_construct buffer))"

section \<open>UNIX sockets\<close>

definition UnixSocket_construct :: "'k kernel \<Rightarrow> 'k world \<Rightarrow> nat \<Rightarrow> 'k may_throw" where
  "UnixSocket_construct K w ob = open_object K w ob (Sys_socket AF_UNIX True)"

definition UnixSocket_connect :: "'k kernel \<Rightarrow> 'k world \<Rightarrow> nat \<Rightarrow> string \<Rightarrow> completion \<Rightarrow> 'k world run" where
  "UnixSocket_connect K w ob name f =
     run_bind (UnixConnect_construct name) (\<lambda>op. schedule_io K w ob f (OpUnixConnect op))"

definition UnixSocket_read :: "'k kernel \<Rightarrow> 'k world \<Rightarrow> nat \<Rightarrow> buffer_view \<Rightarrow> completion \<Rightarrow> 'k world run" where
  "UnixSocket_read K w ob buffer f = schedule_io K w ob f (OpRead (IoRead_construct buffer))"

definition UnixSocket_receive_message ::
  "'k kernel \<Rightarrow> 'k world \<Rightarrow> nat \<Rightarrow> msghdr \<Rightarrow> completion \<Rightarrow> 'k world run" where
  "UnixSocket_receive_message K w ob msg f =
     schedule_io K w ob f (OpReceiveMessage (ReceiveMessage_construct msg))"

definition UnixSocket_write :: "'k kernel \<Rightarrow> 'k world \<Rightarrow> nat \<Rightarrow> buffer_view \<Rightarrow> completion \<Rightarrow> 'k world run" where
  "UnixSocket_write K w ob buffer f = schedule_io K w ob f (OpWrite (IoWrite_construct buffer))"

definition UnixSocket_send_message :: "'k kernel \<Rightarrow> 'k world \<Rightarrow> nat \<Rightarrow> msghdr \<Rightarrow> completion \<Rightarrow> 'k world run" where
  "UnixSocket_send_message K w ob msg f =
     schedule_io K w ob f (OpSendMessage (SendMessage_construct msg))"

definition UnixSocketAcceptor_construct ::
  "'k kernel \<Rightarrow> 'k world \<Rightarrow> nat \<Rightarrow> string \<Rightarrow> ((exn + sockaddr_un) \<times> 'k world) run" where
  "UnixSocketAcceptor_construct K w ob abstract_name =
     (let (r, k) = K (kern w) (Sys_socket AF_UNIX True);
          fd = sr_ret r; w = IoObject_construct (w\<lparr>kern := k\<rparr>) ob fd
      in exios_expect (length abstract_name < sun_path_size)
          (if fd < 0 then leave_constructor K w ob (SystemError (sr_errno r))
           else let addr = \<lparr>sun_family = AF_UNIX, sun_path = abstract_path abstract_name\<rparr>
                in bind_and_listen K w ob (Sys_bind_un fd addr) fd addr))"

text \<open>The whole path behind the leading null character, not only the name.\<close>

definition UnixSocketAcceptor_name :: "sockaddr_un \<Rightarrow> string" where
  "UnixSocketAcceptor_name addr = take (sun_path_size - 1) (drop 1 (sun_path addr))"

definition UnixSocketAcceptor_accept :: "'k kernel \<Rightarrow> 'k world \<Rightarrow> nat \<Rightarrow> nat \<Rightarrow> completion \<Rightarrow> 'k world run" where
  "UnixSocketAcceptor_accept K w ob target f =
     schedule_io K w ob (AcceptInto target f) (OpUnixAccept UnixAccept_construct)"

section \<open>Properties\<close>

lemma bytes_of_port: "bytes_of 2 (port :: u16) = [ucast port, ucast (drop_bit 8 port)]"
  by (simp add: bytes_of_def numeral_2_eq_2)

text \<open>
  Claim C35. The address given to the kernel for four groups of decimal digits up to 255 and a
  port has the four octets and the two bytes of the port in memory in network byte order, the
  most significant first.
\<close>

theorem sockaddr_in_network_order:
  assumes "\<forall>y \<in> {a, b, c, d}. is_digits y \<and> decimal y \<le> 255"
  shows "\<exists>addr. make_sockaddr_in (dotted [a, b, c, d]) port = Ok (Inr addr) \<and> sin_family addr = AF_INET
    \<and> map unat (bytes_of 4 (sin_addr addr)) = [decimal a, decimal b, decimal c, decimal d]
    \<and> bytes_of 2 (sin_port addr) = [ucast (drop_bit 8 port), ucast port]"
proof -
  have u: "unat (of_nat (decimal y) :: u8) = decimal y" if "y \<in> {a, b, c, d}" for y
    using that assms by (auto simp: unat_of_nat)
  have "bytes_of 4 (reverse_byte_order (of_nat (ipv4_value (decimal a) (decimal b) (decimal c) (decimal d)) :: u32))
      = map of_nat [decimal a, decimal b, decimal c, decimal d]"
    by (simp add: bytes_of_reverse bytes_of_ipv4)
  moreover have "bytes_of 2 (reverse_byte_order port) = [ucast (drop_bit 8 port), ucast port]"
    using bytes_of_reverse [of 2 port] by (simp add: bytes_of_port [of port])
  ultimately show ?thesis
    using parse_ipv4_four [of a b c d] assms u by (simp add: make_sockaddr_in_def)
qed

theorem sockaddr_in_network_order_witness:
  "\<exists>addr. make_sockaddr_in ''127.0.0.1'' 8080 = Ok (Inr addr)
     \<and> map unat (bytes_of 4 (sin_addr addr)) = [127, 0, 0, 1]"
proof -
  have d: "\<forall>y \<in> {''127'', ''0'', ''0'', ''1''}. is_digits y \<and> decimal y \<le> 255"
    by (simp add: is_digits_def decimal_def)
  then show ?thesis
    using sockaddr_in_network_order [OF d, of 8080] by (auto simp: decimal_def)
qed

lemma make_sockaddr_in_port:
  assumes "make_sockaddr_in address port = Ok (Inr addr)"
  shows "sin_port addr = reverse_byte_order port"
proof -
  obtain r :: "exn + u32" where "(case r of Inl e \<Rightarrow> Inl e
      | Inr a \<Rightarrow> Inr \<lparr>sin_family = AF_INET, sin_port = reverse_byte_order port, sin_addr = reverse_byte_order a\<rparr>)
      = Inr addr"
    using assms by (auto simp: make_sockaddr_in_def run_bind_eq_Ok)
  then show ?thesis by (cases r) auto
qed

text \<open>A constructor that throws closes what its base owned, and leaves no object.\<close>

lemma leave_constructor_logged:
  assumes "leave_constructor (logged K) w ob e = Ok (res, w')" and "io_fds w ob = Some fd"
  shows "res = Inl e" and "io_fds w' = (io_fds w)(ob := None)"
    and "calls_made w' = calls_made w @ map Sys_close (filter (\<lambda>fd. 0 \<le> fd) [fd])"
  using assms by (auto simp: object_defs calls_made_def)

lemma bind_and_listen_logged:
  assumes "bind_and_listen (logged K) w ob call fd addr = Ok (res, w')" and "io_fds w ob = Some fd"
    and "\<not> is_close call" and "0 \<le> fd"
  shows "case res of
      Inl e \<Rightarrow> io_fds w' = (io_fds w)(ob := None) \<and> closes_made w' = closes_made w @ [Sys_close fd]
    | Inr a \<Rightarrow> a = addr \<and> io_fds w' = io_fds w \<and> calls_made w' = calls_made w @ [call, Sys_listen fd]"
  using assms
  by (auto simp: bind_and_listen_def object_defs calls_made_def Let_def
      split: prod.splits if_splits dest!: logged_calls)

text \<open>
  Claim C29. Constructing a TCP acceptor. However it ends, no descriptor leaks: when the
  constructor throws, because of a failed call or an address that does not parse, there is no
  object and the socket, if there was one, has been closed exactly once. When it returns, the
  object owns the socket, nothing has been closed, the last calls bind the address and
  listen, and \<^verbatim>\<open>port()\<close> gives back the port.
\<close>

theorem tcp_acceptor_construct:
  assumes "logged K (kern w) (Sys_socket AF_INET True) = (r, k1)"
    and "TcpSocketAcceptor_construct (logged K) w ob port address = Ok (res, w')"
  shows "(\<forall>ob'. ob' \<noteq> ob \<longrightarrow> io_fds w' ob' = io_fds w ob') \<and> (case res of
      Inl e \<Rightarrow> io_fds w' ob = None
        \<and> closes_made w' = closes_made w @ map Sys_close (filter (\<lambda>fd. 0 \<le> fd) [sr_ret r])
    | Inr addr \<Rightarrow> io_fds w' ob = Some (sr_ret r) \<and> closes_made w' = closes_made w
        \<and> (\<exists>cs. calls_made w' = cs @ [Sys_bind_in (sr_ret r) addr, Sys_listen (sr_ret r)])
        \<and> TcpSocketAcceptor_port addr = port)"
proof -
  let ?fd = "sr_ret r"
  define w1 where "w1 = IoObject_construct (w\<lparr>kern := k1\<rparr>) ob ?fd"
  have c1: "calls_made w1 = calls_made w @ [Sys_socket AF_INET True]" and f1: "io_fds w1 = (io_fds w)(ob \<mapsto> ?fd)"
    using logged_calls [of K "kern w" _ r "fst k1" "snd k1"] assms(1)
    by (auto simp: w1_def object_defs calls_made_def)
  obtain r2 k2 where s: "logged K (kern w1) (Sys_setsockopt_reuseaddr ?fd) = (r2, k2)" by (rule prod.exhaust)
  define w2 where "w2 = w1\<lparr>kern := k2\<rparr>"
  have c2: "calls_made w2 = calls_made w1 @ [Sys_setsockopt_reuseaddr ?fd]" and f2: "io_fds w2 ob = Some ?fd"
    "io_fds w2 = io_fds w1"
    using logged_calls [of K "kern w1" _ r2 "fst k2" "snd k2"] s f1 by (auto simp: w2_def calls_made_def)
  have run: "TcpSocketAcceptor_construct (logged K) w ob port address
      = (if ?fd < 0 then leave_constructor (logged K) w1 ob (SystemError (sr_errno r))
         else if sr_ret r2 \<noteq> 0 then leave_constructor (logged K) w2 ob (SystemError (sr_errno r2))
         else run_bind (make_sockaddr_in address port) (\<lambda>a.
              case a of Inl e \<Rightarrow> leave_constructor (logged K) w2 ob e
              | Inr addr \<Rightarrow> bind_and_listen (logged K) w2 ob (Sys_bind_in ?fd addr) ?fd addr))"
    using assms(1) s unfolding TcpSocketAcceptor_construct_def w1_def w2_def Let_def by simp
  consider e where "leave_constructor (logged K) w1 ob e = Ok (res, w')" | e where "0 \<le> ?fd" "leave_constructor (logged K) w2 ob e = Ok (res, w')"
    | addr where "0 \<le> ?fd" "make_sockaddr_in address port = Ok (Inr addr)"
      "bind_and_listen (logged K) w2 ob (Sys_bind_in ?fd addr) ?fd addr = Ok (res, w')"
    using assms(2) run by (cases "?fd < 0") (auto simp: run_bind_eq_Ok split: if_splits sum.splits, metis sum.exhaust)
  then show ?thesis
  proof cases
    case (1 e)
    show ?thesis using leave_constructor_logged [OF 1] c1 f1 by auto
  next
    case (2 e)
    show ?thesis using leave_constructor_logged [OF 2(2) f2(1)] c1 c2 f1 f2 by auto
  next
    case (3 addr)
    have "TcpSocketAcceptor_port addr = port"
      using make_sockaddr_in_port [OF 3(2)] reverse_byte_order_involution [of 2 port]
      by (simp add: TcpSocketAcceptor_port_def)
    then show ?thesis
      using bind_and_listen_logged [OF 3(3) f2(1) _ 3(1)] c1 c2 f1 f2 3(1) by (auto split: sum.splits)
  qed
qed

theorem tcp_acceptor_construct_witness:
  "\<exists>res w'. TcpSocketAcceptor_construct (logged calm_kernel) (idle_world ((), []) Map.empty) 0 80 ''1.2.3'' = Ok (res, w')
     \<and> io_fds w' 0 = None \<and> closes_made w' = [Sys_close 8]"
proof -
  have "TcpSocketAcceptor_construct (logged calm_kernel) (idle_world ((), []) Map.empty) 0 80 ''1.2.3''
      = leave_constructor (logged calm_kernel) (IoObject_construct (idle_world ((),
          [Sys_socket AF_INET True, Sys_setsockopt_reuseaddr 8]) Map.empty) 0 8) 0 (SystemError 0)"
    by (simp add: TcpSocketAcceptor_construct_def logged_def calm_kernel_def Let_def idle_world_def object_defs)
  then obtain w' where r: "TcpSocketAcceptor_construct (logged calm_kernel) (idle_world ((), []) Map.empty) 0 80 ''1.2.3''
      = Ok (Inl (SystemError 0), w')"
    by (auto simp: object_defs)
  have "logged calm_kernel (kern (idle_world ((), []) Map.empty)) (Sys_socket AF_INET True)
      = (\<lparr>sr_ret = 8, sr_errno = 0, sr_out = OutNothing\<rparr>, ((), [Sys_socket AF_INET True]))"
    by (simp add: logged_def calm_kernel_def)
  from tcp_acceptor_construct [OF this r] show ?thesis using r by auto
qed



end
