(* ===== verification/Object_Theorems.thy ===== *)
theory Object_Theorems
  imports Timer Sockets
begin

text \<open>
  The I/O objects inside a context. Every asynchronous member of the events, signals and sockets
  is one of two forms, stated as locales: it schedules a fixed operation, or it prepares the
  operation first, which may throw or stop the process, and schedules it then. What such a member does to a
  context is proved once per form; every member of the model is an instance. The acceptors and
  the detached timers are left out: their closures own or assign descriptors, which the
  invariant of a context excludes.
\<close>

section \<open>Members that prepare an operation\<close>

text \<open>What the operation's constructor and the address give, and what the member does then.\<close>

definition schedule_prepared ::
  "(exn + io_op) run \<Rightarrow> 'k kernel \<Rightarrow> 'k world \<Rightarrow> nat \<Rightarrow> completion \<Rightarrow> 'k may_throw" where
  "schedule_prepared prepared K w ob f =
     run_bind prepared (\<lambda>r.
     case r of Inl e \<Rightarrow> Ok (Inl e, w)
     | Inr op \<Rightarrow> run_bind (schedule_io K w ob f op) (\<lambda>w. Ok (Inr (), w)))"

text \<open>One new operation waits for the handler on the descriptor; nothing else has changed.\<close>

definition operation_started :: "'k world \<Rightarrow> 'k world \<Rightarrow> nat \<Rightarrow> fd \<Rightarrow> io_op \<Rightarrow> bool" where
  "operation_started w w' n fd op \<longleftrightarrow>
     objs w' = (objs w)(next_addr w \<mapsto> IoOp (AsyncIoOperation_construct (WrapWork True (Fn n)) fd op))
     \<and> objs w (next_addr w) = None \<and> works w' = Suc (works w)"

locale preparing_member =
  fixes member :: "'k kernel \<Rightarrow> 'k world \<Rightarrow> nat \<Rightarrow> completion \<Rightarrow> 'k may_throw"
    and prepared :: "(exn + io_op) run"
  assumes member: "member K w ob f = schedule_prepared prepared K w ob f"
    and not_finished: "prepared = Ok (Inr op) \<Longrightarrow> op_result op = None"
begin

lemma member_outcome:
  assumes inv: "ctx_inv K reg F U w act can cq L ext D" and ob: "io_fds w ob = Some fd" "fd \<in> U"
    and room: "Suc (works w + ext) < 2 ^ 64"
  shows "case prepared of
      Ok (Inr op) \<Rightarrow> \<exists>w' act'. member K w ob (Fn n) = Ok (Inr (), w')
        \<and> ctx_inv K reg F U w' act' can cq L ext D \<and> set act' = insert (next_addr w) (set act)
        \<and> operation_started w w' n fd op
    | Ok (Inl e) \<Rightarrow> member K w ob (Fn n) = Ok (Inl e, w)
    | Fault err \<Rightarrow> member K w ob (Fn n) = Fault err
    | Diverges \<Rightarrow> member K w ob (Fn n) = Diverges"
proof (cases "\<exists>op. prepared = Ok (Inr op)")
  case True
  then obtain op where op: "prepared = Ok (Inr op)" by blast
  obtain w' act' where s: "start_io K w (Fn n) fd op = Ok w'" "ctx_inv K reg F U w' act' can cq L ext D"
    "works w' = Suc (works w)" "set act' = insert (next_addr w) (set act)"
    "objs w' = (objs w)(next_addr w \<mapsto> IoOp (AsyncIoOperation_construct (WrapWork True (Fn n)) fd op))"
    using start_io_ok [of K reg F U w act can cq L ext "Fn n" D fd op] inv room ob(2) not_finished [OF op] by auto
  have "member K w ob (Fn n) = Ok (Inr (), w')"
    using op s(1) ob(1) by (simp add: member schedule_prepared_def schedule_io_def object_fd_def)
  moreover have "operation_started w w' n fd op"
    using s(3,5) ctx_inv_fresh(2) [OF inv] by (auto simp: operation_started_def domIff)
  ultimately show ?thesis using op s(2,4) by auto
next
  case False
  then show ?thesis
    by (auto simp: member schedule_prepared_def split: option.split sum.split)
qed

end

section \<open>Members with a fixed operation\<close>

locale async_member =
  fixes member :: "'k kernel \<Rightarrow> 'k world \<Rightarrow> nat \<Rightarrow> completion \<Rightarrow> 'k world run" and operation :: io_op
  assumes schedules: "member K w ob f = schedule_io K w ob f operation"
    and fresh_operation: "op_result operation = None"

text \<open>Such a member cannot throw; it is a preparing one whose preparation always gives the operation.\<close>

definition nothrow ::
  "('k kernel \<Rightarrow> 'k world \<Rightarrow> nat \<Rightarrow> completion \<Rightarrow> 'k world run)
     \<Rightarrow> 'k kernel \<Rightarrow> 'k world \<Rightarrow> nat \<Rightarrow> completion \<Rightarrow> 'k may_throw" where
  "nothrow member K w ob f = run_bind (member K w ob f) (\<lambda>w. Ok (Inr (), w))"

sublocale async_member \<subseteq> preparing_member "nothrow member" "Ok (Inr operation)"
  by unfold_locales (auto simp: nothrow_def schedules schedule_prepared_def fresh_operation)

lemmas operation_constructs = IoRead_construct_def IoWrite_construct_def EventWrite_construct_def
  TimerExpiryOrEvent_construct_def SignalRead_construct_def SendMessage_construct_def
  ReceiveMessage_construct_def NetReceiveFrom_construct_def NetConnect_construct_def
  NetSendTo_construct_def

section \<open>The members\<close>

interpretation event_trigger: async_member Event_trigger "OpEventWrite (EventWrite_construct None)"
  by unfold_locales (simp_all add: Event_trigger_def operation_constructs)

interpretation event_trigger_with_value: async_member "\<lambda>K w ob. Event_trigger_with_value K w ob val"
  "OpEventWrite (EventWrite_construct (Some val))" for val
  by unfold_locales (simp_all add: Event_trigger_with_value_def operation_constructs)

interpretation event_wait: async_member Event_wait_for_event "OpTimerOrEvent TimerExpiryOrEvent_construct"
  by unfold_locales (simp_all add: Event_wait_for_event_def operation_constructs)

interpretation signal_wait: async_member Signal_wait "OpSignalRead SignalRead_construct"
  by unfold_locales (simp_all add: Signal_wait_def operation_constructs)

lemmas stream_members = TcpSocket_read_def TcpSocket_write_def TcpSocket_receive_message_def
  TcpSocket_send_message_def UdpSocket_read_def UdpSocket_write_def UdpSocket_receive_from_def
  UnixSocket_read_def UnixSocket_write_def UnixSocket_receive_message_def UnixSocket_send_message_def

interpretation tcp_read: async_member "\<lambda>K w ob. TcpSocket_read K w ob b" "OpRead (IoRead_construct b)" for b
  by unfold_locales (simp_all add: stream_members operation_constructs)

interpretation tcp_write: async_member "\<lambda>K w ob. TcpSocket_write K w ob b" "OpWrite (IoWrite_construct b)" for b
  by unfold_locales (simp_all add: stream_members operation_constructs)

interpretation tcp_receive: async_member "\<lambda>K w ob. TcpSocket_receive_message K w ob m"
  "OpReceiveMessage (ReceiveMessage_construct m)" for m
  by unfold_locales (simp_all add: stream_members operation_constructs)

interpretation tcp_send: async_member "\<lambda>K w ob. TcpSocket_send_message K w ob m"
  "OpSendMessage (SendMessage_construct m)" for m
  by unfold_locales (simp_all add: stream_members operation_constructs)

interpretation udp_read: async_member "\<lambda>K w ob. UdpSocket_read K w ob b" "OpRead (IoRead_construct b)" for b
  by unfold_locales (simp_all add: stream_members operation_constructs)

interpretation udp_write: async_member "\<lambda>K w ob. UdpSocket_write K w ob b" "OpWrite (IoWrite_construct b)" for b
  by unfold_locales (simp_all add: stream_members operation_constructs)

interpretation udp_receive: async_member "\<lambda>K w ob. UdpSocket_receive_from K w ob b"
  "OpNetReceiveFrom (NetReceiveFrom_construct b)" for b
  by unfold_locales (simp_all add: stream_members operation_constructs)

interpretation unix_read: async_member "\<lambda>K w ob. UnixSocket_read K w ob b" "OpRead (IoRead_construct b)" for b
  by unfold_locales (simp_all add: stream_members operation_constructs)

interpretation unix_write: async_member "\<lambda>K w ob. UnixSocket_write K w ob b" "OpWrite (IoWrite_construct b)" for b
  by unfold_locales (simp_all add: stream_members operation_constructs)

interpretation unix_receive: async_member "\<lambda>K w ob. UnixSocket_receive_message K w ob m"
  "OpReceiveMessage (ReceiveMessage_construct m)" for m
  by unfold_locales (simp_all add: stream_members operation_constructs)

interpretation unix_send: async_member "\<lambda>K w ob. UnixSocket_send_message K w ob m"
  "OpSendMessage (SendMessage_construct m)" for m
  by unfold_locales (simp_all add: stream_members operation_constructs)

text \<open>The members that need an address first.\<close>

definition addressed :: "(sockaddr_in \<Rightarrow> io_op) \<Rightarrow> string \<Rightarrow> u16 \<Rightarrow> (exn + io_op) run" where
  "addressed op address port =
     run_bind (make_sockaddr_in address port) (\<lambda>r. Ok (map_sum id op r))"

lemma with_sockaddr_in_prepares:
  "with_sockaddr_in w address port (\<lambda>addr. schedule_io K w ob f (op addr))
    = schedule_prepared (addressed op address port) K w ob f"
  by (auto simp: with_sockaddr_in_def schedule_prepared_def addressed_def run_bind_assoc
      intro!: arg_cong2 [where f = run_bind] split: sum.split)

lemma addressed_result:
  assumes "addressed op address port = Ok (Inr op')"
  shows "\<exists>addr. op' = op addr"
proof -
  obtain r :: "exn + sockaddr_in" where "map_sum id op r = Inr op'"
    using assms by (auto simp: addressed_def run_bind_eq_Ok)
  then show ?thesis by (cases r) auto
qed

lemmas addressed_members = TcpSocket_connect_def UdpSocket_connect_def UdpSocket_send_to_def
  with_sockaddr_in_prepares

interpretation tcp_connect: preparing_member "\<lambda>K w ob. TcpSocket_connect K w ob address port"
  "addressed (\<lambda>addr. OpNetConnect (NetConnect_construct addr)) address port" for address port
  by unfold_locales (auto simp: addressed_members operation_constructs dest!: addressed_result)

interpretation udp_connect: preparing_member "\<lambda>K w ob. UdpSocket_connect K w ob address port"
  "addressed (\<lambda>addr. OpNetConnect (NetConnect_construct addr)) address port" for address port
  by unfold_locales (auto simp: addressed_members operation_constructs dest!: addressed_result)

interpretation udp_send_to: preparing_member "\<lambda>K w ob. UdpSocket_send_to K w ob b address port"
  "addressed (\<lambda>addr. OpNetSendTo (NetSendTo_construct b addr)) address port" for b address port
  by unfold_locales (auto simp: addressed_members operation_constructs dest!: addressed_result)

interpretation unix_connect: preparing_member "nothrow (\<lambda>K w ob. UnixSocket_connect K w ob name)"
  "run_bind (UnixConnect_construct name) (\<lambda>op. Ok (Inr (OpUnixConnect op)))" for name
  by unfold_locales (auto simp: nothrow_def UnixSocket_connect_def schedule_prepared_def run_bind_assoc
      run_bind_eq_Ok UnixConnect_construct_def exios_expect_def split: if_splits)

section \<open>Properties\<close>

text \<open>The members as data, the calls they stand for, and the operations they are to start.\<close>

datatype member_call =
    EventTrigger | EventTriggerWithValue u64 | EventWait | SignalWait
  | TcpConnect string u16 | TcpRead buffer_view | TcpWrite buffer_view | TcpReceive msghdr | TcpSend msghdr
  | UdpConnect string u16 | UdpRead buffer_view | UdpWrite buffer_view | UdpReceiveFrom buffer_view
  | UdpSendTo buffer_view string u16
  | UnixConnect string | UnixRead buffer_view | UnixWrite buffer_view | UnixReceive msghdr | UnixSend msghdr

primrec call_member ::
  "member_call \<Rightarrow> 'k kernel \<Rightarrow> 'k world \<Rightarrow> nat \<Rightarrow> completion \<Rightarrow> 'k may_throw" where
  "call_member EventTrigger = nothrow Event_trigger"
| "call_member (EventTriggerWithValue v) = nothrow (\<lambda>K w ob. Event_trigger_with_value K w ob v)"
| "call_member EventWait = nothrow Event_wait_for_event"
| "call_member SignalWait = nothrow Signal_wait"
| "call_member (TcpConnect a p) = (\<lambda>K w ob. TcpSocket_connect K w ob a p)"
| "call_member (TcpRead b) = nothrow (\<lambda>K w ob. TcpSocket_read K w ob b)"
| "call_member (TcpWrite b) = nothrow (\<lambda>K w ob. TcpSocket_write K w ob b)"
| "call_member (TcpReceive m) = nothrow (\<lambda>K w ob. TcpSocket_receive_message K w ob m)"
| "call_member (TcpSend m) = nothrow (\<lambda>K w ob. TcpSocket_send_message K w ob m)"
| "call_member (UdpConnect a p) = (\<lambda>K w ob. UdpSocket_connect K w ob a p)"
| "call_member (UdpRead b) = nothrow (\<lambda>K w ob. UdpSocket_read K w ob b)"
| "call_member (UdpWrite b) = nothrow (\<lambda>K w ob. UdpSocket_write K w ob b)"
| "call_member (UdpReceiveFrom b) = nothrow (\<lambda>K w ob. UdpSocket_receive_from K w ob b)"
| "call_member (UdpSendTo b a p) = (\<lambda>K w ob. UdpSocket_send_to K w ob b a p)"
| "call_member (UnixConnect name) = nothrow (\<lambda>K w ob. UnixSocket_connect K w ob name)"
| "call_member (UnixRead b) = nothrow (\<lambda>K w ob. UnixSocket_read K w ob b)"
| "call_member (UnixWrite b) = nothrow (\<lambda>K w ob. UnixSocket_write K w ob b)"
| "call_member (UnixReceive m) = nothrow (\<lambda>K w ob. UnixSocket_receive_message K w ob m)"
| "call_member (UnixSend m) = nothrow (\<lambda>K w ob. UnixSocket_send_message K w ob m)"

primrec member_operation :: "member_call \<Rightarrow> (exn + io_op) run" where
  "member_operation EventTrigger = Ok (Inr (OpEventWrite (EventWrite_construct None)))"
| "member_operation (EventTriggerWithValue v) = Ok (Inr (OpEventWrite (EventWrite_construct (Some v))))"
| "member_operation EventWait = Ok (Inr (OpTimerOrEvent TimerExpiryOrEvent_construct))"
| "member_operation SignalWait = Ok (Inr (OpSignalRead SignalRead_construct))"
| "member_operation (TcpConnect a p) = addressed (\<lambda>addr. OpNetConnect (NetConnect_construct addr)) a p"
| "member_operation (TcpRead b) = Ok (Inr (OpRead (IoRead_construct b)))"
| "member_operation (TcpWrite b) = Ok (Inr (OpWrite (IoWrite_construct b)))"
| "member_operation (TcpReceive m) = Ok (Inr (OpReceiveMessage (ReceiveMessage_construct m)))"
| "member_operation (TcpSend m) = Ok (Inr (OpSendMessage (SendMessage_construct m)))"
| "member_operation (UdpConnect a p) = addressed (\<lambda>addr. OpNetConnect (NetConnect_construct addr)) a p"
| "member_operation (UdpRead b) = Ok (Inr (OpRead (IoRead_construct b)))"
| "member_operation (UdpWrite b) = Ok (Inr (OpWrite (IoWrite_construct b)))"
| "member_operation (UdpReceiveFrom b) = Ok (Inr (OpNetReceiveFrom (NetReceiveFrom_construct b)))"
| "member_operation (UdpSendTo b a p) = addressed (\<lambda>addr. OpNetSendTo (NetSendTo_construct b addr)) a p"
| "member_operation (UnixConnect name) =
     run_bind (UnixConnect_construct name) (\<lambda>op. Ok (Inr (OpUnixConnect op)))"
| "member_operation (UnixRead b) = Ok (Inr (OpRead (IoRead_construct b)))"
| "member_operation (UnixWrite b) = Ok (Inr (OpWrite (IoWrite_construct b)))"
| "member_operation (UnixReceive m) = Ok (Inr (OpReceiveMessage (ReceiveMessage_construct m)))"
| "member_operation (UnixSend m) = Ok (Inr (OpSendMessage (SendMessage_construct m)))"

lemma call_member_preparing: "preparing_member (call_member c) (member_operation c)"
proof (cases c)
qed (simp_all only: call_member.simps member_operation.simps event_trigger.preparing_member_axioms
    event_trigger_with_value.preparing_member_axioms event_wait.preparing_member_axioms
    signal_wait.preparing_member_axioms tcp_connect.preparing_member_axioms tcp_read.preparing_member_axioms
    tcp_write.preparing_member_axioms tcp_receive.preparing_member_axioms tcp_send.preparing_member_axioms
    udp_connect.preparing_member_axioms udp_read.preparing_member_axioms udp_write.preparing_member_axioms
    udp_receive.preparing_member_axioms udp_send_to.preparing_member_axioms
    unix_connect.preparing_member_axioms unix_read.preparing_member_axioms unix_write.preparing_member_axioms
    unix_receive.preparing_member_axioms unix_send.preparing_member_axioms)

interpretation member: preparing_member "call_member c" "member_operation c" for c
  by (rule call_member_preparing)

text \<open>
  Claim C20. Every asynchronous member of events, signals and sockets, called on an object of a
  context that has a descriptor, either throws, stops or does not return because
  its address or name cannot be prepared, leaving the context as it was, or it returns and one
  new operation, the member's own with the given arguments, is active on the object's
  descriptor for the given handler; the invariant of the context is kept and no other operation
  has changed.
\<close>

theorem member_starts_one_operation:
  assumes "ctx_inv K reg F U w act can cq L ext D" and "io_fds w ob = Some fd" and "fd \<in> U"
    and "Suc (works w + ext) < 2 ^ 64"
  shows "case member_operation c of
      Ok (Inr op) \<Rightarrow> \<exists>w' act'. call_member c K w ob (Fn n) = Ok (Inr (), w')
        \<and> ctx_inv K reg F U w' act' can cq L ext D \<and> set act' = insert (next_addr w) (set act)
        \<and> operation_started w w' n fd op
    | Ok (Inl e) \<Rightarrow> call_member c K w ob (Fn n) = Ok (Inl e, w)
    | Fault err \<Rightarrow> call_member c K w ob (Fn n) = Fault err
    | Diverges \<Rightarrow> call_member c K w ob (Fn n) = Diverges"
  by (rule member.member_outcome [OF assms])

theorem member_starts_one_operation_witness:
  "\<exists>w' act'. call_member (TcpRead \<lparr>bv_data = UserMem 0, bv_size = 8\<rparr>) sim_kernel (demo_ctx\<lparr>io_fds := [0 \<mapsto> 5]\<rparr>) 0 (Fn 7) = Ok (Inr (), w')
     \<and> ctx_inv sim_kernel sim_reg sim_fds {3, 4, 5, 6} w' act' [7] [8] [] 0 {#} \<and> set act' = {4, 5, 6, 10}"
proof -
  let ?w = "demo_ctx\<lparr>io_fds := [0 \<mapsto> 5]\<rparr>"
  have inv: "ctx_inv sim_kernel sim_reg sim_fds {3, 4, 5, 6} ?w [4, 5, 6] [7] [8] [] 0 {#}"
    by (rule ctx_inv_io_fds [OF demo_ctx_inv])
  have room: "Suc (works ?w + 0) < 2 ^ 64" using demo_ctx_objects(3) by simp
  have n: "next_addr ?w = 10" by (simp add: demo_ctx_def demo_world_def)
  show ?thesis
    using member_starts_one_operation [OF inv _ _ room, of 0 5 "TcpRead \<lparr>bv_data = UserMem 0, bv_size = 8\<rparr>" 7] n by auto
qed

section \<open>Construction\<close>

text \<open>
  The objects as data, their constructors, and the descriptor each constructor opens with the
  error number beside it.
\<close>

datatype object_kind = TimerObject | EventObject | SemaphoreObject | SignalObject int
  | TcpObject | UdpObject | UnixObject

primrec construct_object :: "object_kind \<Rightarrow> 'k kernel \<Rightarrow> 'k world \<Rightarrow> nat \<Rightarrow> 'k may_throw" where
  "construct_object TimerObject = Timer_construct"
| "construct_object EventObject = Event_construct"
| "construct_object SemaphoreObject = Event_construct_semaphore"
| "construct_object (SignalObject sig) = (\<lambda>K w ob. Signal_construct K w ob sig)"
| "construct_object TcpObject = TcpSocket_construct"
| "construct_object UdpObject = UdpSocket_construct"
| "construct_object UnixObject = UnixSocket_construct"

definition descriptor_of_call :: "syscall \<Rightarrow> 'k kernel \<Rightarrow> 'k \<Rightarrow> (fd \<times> int) \<times> 'k" where
  "descriptor_of_call call K k = (let (r, k) = K k call in ((sr_ret r, sr_errno r), k))"

primrec object_descriptor :: "object_kind \<Rightarrow> 'k kernel \<Rightarrow> 'k \<Rightarrow> (fd \<times> int) \<times> 'k" where
  "object_descriptor TimerObject = descriptor_of_call Sys_timerfd_create"
| "object_descriptor EventObject = descriptor_of_call (Sys_eventfd False)"
| "object_descriptor SemaphoreObject = descriptor_of_call (Sys_eventfd True)"
| "object_descriptor (SignalObject sig) = (\<lambda>K k. signal_descriptor K k sig)"
| "object_descriptor TcpObject = descriptor_of_call (Sys_socket AF_INET True)"
| "object_descriptor UdpObject = descriptor_of_call (Sys_socket AF_INET False)"
| "object_descriptor UnixObject = descriptor_of_call (Sys_socket AF_UNIX True)"

text \<open>What every constructor does, however it gets its descriptor.\<close>

definition finish_construct ::
  "'k kernel \<Rightarrow> 'k world \<Rightarrow> nat \<Rightarrow> (fd \<times> int) \<times> 'k \<Rightarrow> 'k may_throw" where
  "finish_construct K w ob = (\<lambda>((fd, errno), k).
     if fd < 0 then Ok (Inl (SystemError errno), w\<lparr>kern := k, io_fds := (io_fds w)(ob := None)\<rparr>)
     else Ok (Inr (), w\<lparr>kern := k, io_fds := (io_fds w)(ob \<mapsto> fd)\<rparr>))"

lemma construct_object_finish:
  "construct_object kind K w ob = finish_construct K w ob (object_descriptor kind K (kern w))"
proof (cases kind)
qed (auto simp: Timer_construct_def Event_construct_def Event_construct_semaphore_def Signal_construct_def
    TcpSocket_construct_def UdpSocket_construct_def UnixSocket_construct_def open_object_def
    descriptor_of_call_def finish_construct_def object_defs FileDescriptor_destroy_def split: prod.split)

lemma object_descriptor_opens:
  assumes os: "os_contract K efd wfd reg F" and d: "object_descriptor kind K k = ((fd, errno), k')"
  shows "reg k' = reg k \<and> F k \<subseteq> F k'" and "0 \<le> fd \<Longrightarrow> fd \<notin> F k \<and> fd \<in> F k'"
proof -
  have call: "reg k' = reg k \<and> F k \<subseteq> F k' \<and> (0 \<le> fd \<longrightarrow> fd \<notin> F k \<and> fd \<in> F k')"
    if "descriptor_of_call c K k = ((fd, errno), k')" "opens_descriptor c" "\<not> changes_registration c" for c k
    using that os_contract_other [OF os that(3)] os_contract_open [OF os that(2)]
    by (auto simp: descriptor_of_call_def split: prod.splits)
  have "reg k' = reg k \<and> F k \<subseteq> F k' \<and> (0 \<le> fd \<longrightarrow> fd \<notin> F k \<and> fd \<in> F k')"
  proof (cases kind)
    case (SignalObject sig)
    obtain r1 k1 r2 k2 where 1: "K k Sys_sigemptyset = (r1, k1)" "K k1 (Sys_sigaddset sig) = (r2, k2)"
      by fastforce
    have "reg k1 = reg k \<and> F k \<subseteq> F k1" "reg k2 = reg k1 \<and> F k1 \<subseteq> F k2"
      using os_contract_other [OF os _ 1(1)] os_contract_other [OF os _ 1(2)] by simp_all
    moreover have "descriptor_of_call (Sys_signalfd sig) K k2 = ((fd, errno), k') \<or> fd = -1 \<and> k' \<in> {k1, k2}"
      using d SignalObject 1
      by (auto simp: signal_descriptor_def descriptor_of_call_def Let_def split: prod.splits if_splits)
    ultimately show ?thesis using call [of "Sys_signalfd sig" k2] by auto
  qed (use d in \<open>auto dest!: call\<close>)
  then show "reg k' = reg k \<and> F k \<subseteq> F k'" and "0 \<le> fd \<Longrightarrow> fd \<notin> F k \<and> fd \<in> F k'" by auto
qed

text \<open>
  Claim C21. Constructing a timer, event, semaphore, signal or socket always ends, keeps the
  invariant of the context, and either gives an object that owns the descriptor the kernel
  returned, a new one, which operations may then be started on, or throws the kernel's error with
  no object left; in both cases no call is made after the ones that open the descriptor, so
  nothing is closed, and no other object changes.
\<close>

theorem object_construction:
  assumes "ctx_inv K reg F U w act can cq L ext D" and "object_descriptor kind K (kern w) = ((fd, errno), k')"
  shows "\<exists>w'. construct_object kind K w ob
        = Ok (if fd < 0 then Inl (SystemError errno) else Inr (), w')
    \<and> kern w' = k' \<and> io_fds w' = (io_fds w)(ob := if fd < 0 then None else Some fd)
    \<and> ctx_inv K reg F (if fd < 0 then U else insert fd U) w' act can cq L ext D"
proof -
  let ?w = "w\<lparr>kern := k'\<rparr>"
  have "os_contract K (epoll_fd w) (wake_fd w) reg F" using assms(1) by (simp add: ctx_inv_def poll_inv_def)
  note opens = object_descriptor_opens [OF this assms(2)]
  have "ctx_inv K reg F (if fd < 0 then U else insert fd U) ?w act can cq L ext D"
  proof (cases "fd < 0")
    case True
    then show ?thesis using ctx_inv_same_registration [OF assms(1) opens(1)] by simp
  next
    case False
    then show ?thesis using ctx_inv_take [OF ctx_inv_opened [OF assms(1) opens(1)]] opens(2) by simp
  qed
  then show ?thesis
    using ctx_inv_io_fds assms(2) by (auto simp: construct_object_finish finish_construct_def)
qed

theorem object_construction_witness:
  "\<exists>w'. construct_object TcpObject sim_kernel demo_ctx 0 = Ok (Inr (), w') \<and> io_fds w' 0 = Some 7
     \<and> ctx_inv sim_kernel sim_reg sim_fds {3, 4, 5, 6, 7} w' [4, 5, 6] [7] [8] [] 0 {#}"
proof -
  obtain errno k' where "object_descriptor TcpObject sim_kernel (kern demo_ctx) = ((7, errno), k')"
    by (auto simp: descriptor_of_call_def sim_kernel_def sim_fresh_def demo_ctx_def)
  moreover have "insert 7 {3, 4, 5, 6} = {3, 4, 5, 6, 7 :: fd}" by auto
  ultimately show ?thesis using object_construction [OF demo_ctx_inv, of TcpObject 7 errno k' 0] by auto
qed

section \<open>Retiring an object\<close>

lemma ctx_inv_close_user:
  assumes inv: "ctx_inv K reg F U w act can cq L ext D" and fd: "fd \<in> U" "fd \<notin> fd_at w ` set act"
    and k': "F (kern w) - {fd} \<subseteq> F k'" "reg k' = (reg (kern w))(fd := None)"
  shows "ctx_inv K reg F (U - {fd}) (w\<lparr>kern := k'\<rparr>) act can cq L ext D"
proof -
  have g: "ctx_inv K reg F (U - {fd}) w act can cq L (ext + 0) (D + {#fd#})"
    using ctx_inv_give [OF inv fd] by simp
  have "reg k' = reg (kern w)" using ctx_inv_owned_elsewhere(1) [OF g, of fd] k'(2) by (simp add: fun_upd_idem)
  moreover have "w\<lparr>remaining_count := of_nat (works w + ext), kern := k'\<rparr> = w\<lparr>kern := k'\<rparr>"
    using inv by (simp add: ctx_inv_def)
  ultimately show ?thesis using ctx_inv_closed [OF g, of k'] k'(1) by simp
qed

text \<open>The kernel after an object's descriptor has been closed, by its destructor or by \<^verbatim>\<open>close\<close>.\<close>

lemma closed_kernels:
  assumes "os_contract K efd wfd reg F" and "fd \<noteq> efd" and "0 \<le> fd"
    and "k1 = snd (K k (Sys_close fd))" and "k2 = snd (K k1 (Sys_close fd))"
  shows "F k - {fd} \<subseteq> F k1 \<and> reg k1 = (reg k)(fd := None)"
    and "F k - {fd} \<subseteq> F k2 \<and> reg k2 = (reg k)(fd := None)"
  using os_contract_close [OF assms(1) surjective_pairing, of k fd]
    os_contract_close [OF assms(1) surjective_pairing, of k1 fd] assms(2,4,5) by auto

text \<open>
  Claim C40. An I/O object may be retired, by its destructor or by \<^verbatim>\<open>close\<close>, once it has been
  cancelled: its operations are no longer active, closing its descriptor takes nothing away from
  the scheduler, and the invariant of the context holds without the descriptor. The cancelled
  operations stay queued and their handlers will be called. The second \<^verbatim>\<open>close\<close> of the same
  number does no harm within one thread. Only the cancelling can fail to return.
\<close>

theorem object_retirement:
  assumes inv: "ctx_inv K reg F U w act can cq L ext D"
    and ob: "io_fds w ob = Some fd" "fd \<in> U" "0 \<le> fd"
  shows "(IoObject_cancel K w ob = Diverges) \<or>
    (\<exists>w1 act' can'. IoObject_cancel K w ob = Ok w1
      \<and> ctx_inv K reg F U w1 act' can' cq L ext D \<and> works w1 = works w
      \<and> (\<exists>w2. IoObject_destroy K w1 ob = Ok w2 \<and> io_fds w2 ob = None
           \<and> ctx_inv K reg F (U - {fd}) w2 act' can' cq L ext D)
      \<and> (\<exists>w2. IoObject_close K w1 ob = Ok w2 \<and> io_fds w2 ob = Some kInvalidDescriptor
           \<and> ctx_inv K reg F (U - {fd}) w2 act' can' cq L ext D))"
proof (cases "cancel K w fd = Diverges")
  case True
  then show ?thesis using ob(1) by (simp add: IoObject_cancel_def object_fd_def)
next
  case False
  then obtain w1 act' can' where w1: "cancel K w fd = Ok w1" "ctx_inv K reg F U w1 act' can' cq L ext D"
    "works w1 = works w" "io_fds w1 = io_fds w" "fd \<notin> fd_at w1 ` set act'"
    using cancel_ctx_ok [OF inv ob(2)] by auto
  have os: "os_contract K (epoll_fd w1) (wake_fd w1) reg F" "fd \<noteq> epoll_fd w1"
    using w1(2) ob(2) by (auto simp: ctx_inv_def poll_inv_def fds_inv_def)
  note k = closed_kernels [OF os ob(3) refl refl, of "kern w1"]
  let ?k1 = "snd (K (kern w1) (Sys_close fd))" and ?k2 = "snd (K (snd (K (kern w1) (Sys_close fd))) (Sys_close fd))"
  have closed: "ctx_inv K reg F (U - {fd}) (w1\<lparr>kern := ?k1, io_fds := fds\<rparr>) act' can' cq L ext D"
    "ctx_inv K reg F (U - {fd}) (w1\<lparr>kern := ?k2, io_fds := fds\<rparr>) act' can' cq L ext D" for fds
    using ctx_inv_io_fds [OF ctx_inv_close_user [OF w1(2) ob(2) w1(5)]] k by blast+
  have o: "object_fd w1 ob = Ok fd" using ob(1) w1(4) by (simp add: object_fd_def)
  have "IoObject_destroy K w1 ob = Ok (w1\<lparr>kern := ?k1, io_fds := (io_fds w1)(ob := None)\<rparr>)"
    using o ob(3) by (simp add: IoObject_destroy_def FileDescriptor_destroy_def)
  moreover have "IoObject_close K w1 ob
      = Ok (w1\<lparr>kern := ?k2, io_fds := (io_fds w1)(ob \<mapsto> kInvalidDescriptor)\<rparr>)"
    using o ob(3) by (simp add: IoObject_close_def FileDescriptor_destroy_def kInvalidDescriptor_def split: prod.split)
  ultimately have "(\<exists>w2. IoObject_destroy K w1 ob = Ok w2 \<and> io_fds w2 ob = None
        \<and> ctx_inv K reg F (U - {fd}) w2 act' can' cq L ext D)"
    "(\<exists>w2. IoObject_close K w1 ob = Ok w2 \<and> io_fds w2 ob = Some kInvalidDescriptor
        \<and> ctx_inv K reg F (U - {fd}) w2 act' can' cq L ext D)"
    using closed by auto
  then show ?thesis using w1(1-3) ob(1) by (auto simp: IoObject_cancel_def object_fd_def)
qed

theorem object_retirement_witness:
  "\<exists>w1 w2 act' can'. IoObject_cancel sim_kernel (demo_ctx\<lparr>io_fds := [0 \<mapsto> 3]\<rparr>) 0 = Ok w1
     \<and> IoObject_destroy sim_kernel w1 0 = Ok w2
     \<and> ctx_inv sim_kernel sim_reg sim_fds {4, 5, 6} w2 act' can' [8] [] 0 {#}"
proof -
  let ?w = "demo_ctx\<lparr>io_fds := [0 \<mapsto> 3]\<rparr>"
  have inv: "ctx_inv sim_kernel sim_reg sim_fds {3, 4, 5, 6} ?w [4, 5, 6] [7] [8] [] 0 {#}"
    by (rule ctx_inv_io_fds [OF demo_ctx_inv])
  have p: "poll_inv sim_kernel sim_reg sim_fds ?w [4, 5, 6] [7] [8] []" using inv by (simp add: ctx_inv_def)
  have "cancel sim_kernel ?w 3 \<noteq> Diverges"
    using cancel_cases [OF p, of 3 "[4]"] by (auto simp: demo_ctx_def)
  then have "IoObject_cancel sim_kernel ?w 0 \<noteq> Diverges" by (simp add: IoObject_cancel_def object_fd_def)
  moreover have "{3, 4, 5, 6} - {3} = {4, 5, 6 :: fd}" by auto
  ultimately show ?thesis using object_retirement [OF inv, of 0 3] by auto
qed

end
