(* ===== verification/Typing.thy ===== *)
theory Typing
  imports Object_Theorems
begin

text \<open>
  The types of results. The handlers of the model take any argument; the C++ handlers take the
  result type their operation completes with. Here every operation is shown to hand its own
  result type to its closure, whatever happened to it, and the closure of an acceptor to get the
  one result it can take.
\<close>

datatype result_type = IoResult | TimerOrEventIoResult | SignalResult | ConnectResult | AcceptResult
  | ReceiveMessageResult | ReceiveFromResult

primrec arg_type :: "io_arg \<Rightarrow> result_type" where
  "arg_type (ArgIo _) = IoResult"
| "arg_type (ArgTimerOrEvent _) = TimerOrEventIoResult"
| "arg_type (ArgSignal _) = SignalResult"
| "arg_type (ArgConnect _) = ConnectResult"
| "arg_type (ArgAccept _) = AcceptResult"
| "arg_type (ArgReceiveMessage _) = ReceiveMessageResult"
| "arg_type (ArgReceiveFrom _) = ReceiveFromResult"

primrec op_type :: "io_op \<Rightarrow> result_type" where
  "op_type (OpRead _) = IoResult"
| "op_type (OpWrite _) = IoResult"
| "op_type (OpTimerOrEvent _) = TimerOrEventIoResult"
| "op_type (OpEventWrite _) = IoResult"
| "op_type (OpSignalRead _) = SignalResult"
| "op_type (OpUnixConnect _) = ConnectResult"
| "op_type (OpNetConnect _) = ConnectResult"
| "op_type (OpUnixAccept _) = AcceptResult"
| "op_type (OpSendMessage _) = IoResult"
| "op_type (OpReceiveMessage _) = ReceiveMessageResult"
| "op_type (OpNetSendTo _) = IoResult"
| "op_type (OpNetReceiveFrom _) = ReceiveFromResult"

text \<open>The type each member completes with; the sockets' members state it in their documentation.\<close>

primrec completes_with :: "member_call \<Rightarrow> result_type" where
  "completes_with EventTrigger = IoResult"
| "completes_with (EventTriggerWithValue _) = IoResult"
| "completes_with EventWait = TimerOrEventIoResult"
| "completes_with SignalWait = SignalResult"
| "completes_with (TcpConnect _ _) = ConnectResult"
| "completes_with (TcpRead _) = IoResult"
| "completes_with (TcpWrite _) = IoResult"
| "completes_with (TcpReceive _) = ReceiveMessageResult"
| "completes_with (TcpSend _) = IoResult"
| "completes_with (UdpConnect _ _) = ConnectResult"
| "completes_with (UdpRead _) = IoResult"
| "completes_with (UdpWrite _) = IoResult"
| "completes_with (UdpReceiveFrom _) = ReceiveFromResult"
| "completes_with (UdpSendTo _ _ _) = IoResult"
| "completes_with (UnixConnect _) = ConnectResult"
| "completes_with (UnixRead _) = IoResult"
| "completes_with (UnixWrite _) = IoResult"
| "completes_with (UnixReceive _) = ReceiveMessageResult"
| "completes_with (UnixSend _) = IoResult"

text \<open>What can happen to an operation object before it is dispatched: tries and cancellation.\<close>

inductive lifecycle :: "'k kernel \<Rightarrow> async_io_operation \<Rightarrow> async_io_operation \<Rightarrow> bool" for K op where
  created: "lifecycle K op op"
| tried: "lifecycle K op op' \<Longrightarrow> perform_io K k op' = Ok (b, op'', k') \<Longrightarrow> lifecycle K op op''"
| cancelled: "lifecycle K op op' \<Longrightarrow> lifecycle K op (AsyncIoOperation_cancel op')"

lemma op_io_type: "op_io K k op fd = Ok (b, op', k') \<Longrightarrow> op_type op' = op_type op"
  by (cases op) (auto simp: run_bind_eq_Ok)

lemma op_cancel_type: "op_type (op_cancel op) = op_type op"
  by (cases op) simp_all

lemma op_dispatch_type: "op_dispatch op = Ok arg \<Longrightarrow> arg_type arg = op_type op"
  by (cases op) (auto simp: op_dispatch_def split: option.splits)

lemma perform_io_keeps:
  assumes "perform_io K k op = Ok (b, op', k')"
  shows "aio_f op' = aio_f op \<and> op_type (aio_operation op') = op_type (aio_operation op)"
  using assms by (auto simp: perform_io_def run_bind_eq_Ok dest: op_io_type)

lemma lifecycle_keeps:
  assumes "lifecycle K op op'"
  shows "aio_f op' = aio_f op \<and> op_type (aio_operation op') = op_type (aio_operation op)"
  using assms
  by (induction rule: lifecycle.induct)
    (auto simp: AsyncIoOperation_cancel_def op_cancel_type dest!: perform_io_keeps)

lemma member_operation_type:
  assumes "member_operation c = Ok (Inr op)"
  shows "op_type op = completes_with c"
  using assms by (cases c) (auto simp: run_bind_eq_Ok dest!: addressed_result)



end
