(* ===== verification/List_Moves.thy ===== *)
theory List_Moves
  imports Intrusive_List
begin

text \<open>
  The moves of \<^verbatim>\<open>IntrusiveList\<close> (\<^verbatim>\<open>intrusive_list.hpp\<close>): the move constructor loses the items
  of a list, and the move assignment, which swaps the list with a moved copy by \<^verbatim>\<open>std::swap\<close>, uses
  itself for that and never returns.
\<close>

section \<open>Move assignment\<close>

text \<open>
  \<^verbatim>\<open>std::swap(a, b)\<close> moves \<^verbatim>\<open>a\<close> into a temporary, assigns \<^verbatim>\<open>b\<close> to \<^verbatim>\<open>a\<close> and the temporary to
  \<^verbatim>\<open>b\<close>, both by move assignment. The local variables of the calls have the addresses from
  \<open>sp\<close> on. A list has no destructor of its own; its sentinel ceases to exist.
\<close>

partial_function (option) move_assign ::
  "list_items \<Rightarrow> addr \<Rightarrow> addr \<Rightarrow> addr \<Rightarrow> list_items run" where
  "move_assign h this other sp =
     (if this = other then Ok h
      else run_bind (move_construct h sp other) (\<lambda>h.
           run_bind (move_construct h (Suc sp) this) (\<lambda>h.
           run_bind (move_assign h this sp (Suc (Suc sp))) (\<lambda>h.
           run_bind (move_assign h sp (Suc sp) (Suc (Suc sp))) (\<lambda>h.
           Ok (free_item (free_item h (Suc sp)) sp))))))"

section \<open>The move constructor\<close>

text \<open>A list whose sentinel still has the null pointers it was created with.\<close>

definition null_sentinel :: "list_items \<Rightarrow> addr \<Rightarrow> bool" where
  "null_sentinel h s \<longleftrightarrow> item_next h s = Some nullptr"

lemma null_sentinel_unusable:
  assumes "null_sentinel h s" and "s \<noteq> nullptr"
  shows "il_begin h s = Ok nullptr" and "il_empty h s = Ok False" and "pop_front h s = Fault BadAccess"
    and "\<not> il h s ys" and "t \<noteq> s \<Longrightarrow> move_construct h t s = Fault BadAccess"
proof -
  show "il_begin h s = Ok nullptr" and e: "il_empty h s = Ok False" and "pop_front h s = Fault BadAccess"
    using assms
    by (simp_all add: null_sentinel_def il_begin_def il_empty_def il_end_def pop_front_def load_next_def)
  show "\<not> il h s ys"
    using assms il_links(1) [of h s "[]" ys] il_links(4) [of h s "[]" ys]
    by (auto simp: null_sentinel_def allocated_def)
  show "move_construct h t s = Fault BadAccess" if "t \<noteq> s"
    using assms that
    by (simp add: null_sentinel_def move_construct_def il_empty_def il_begin_def il_end_def load_next_def
        new_item_def store_prev_def)
qed

lemma touches_new_item:
  assumes "s \<noteq> nullptr"
  shows "touches {s} h (new_item h s)"
  using assms by (auto simp: touches_def agree_def new_item_def allocated_def)

lemma move_construct_empty:
  assumes "il h other []" and "s \<noteq> other" and "s \<noteq> nullptr"
  shows "\<exists>h'. move_construct h s other = Ok h' \<and> il h' s [] \<and> touches {s} h h'"
proof -
  have "il (new_item h s) other []"
    using assms by (intro il_untouched [OF touches_new_item]) auto
  then have "move_construct h s other
      = Ok (h\<lparr>item_prev := (item_prev h)(s \<mapsto> s), item_next := (item_next h)(s \<mapsto> s)\<rparr>)"
    using assms by (simp add: move_construct_def il_empty_il new_item_def store_prev_def store_next_def)
  moreover have "touches {s} h (h\<lparr>item_prev := (item_prev h)(s \<mapsto> s), item_next := (item_next h)(s \<mapsto> s)\<rparr>)"
    using assms(3) by (auto simp: touches_def agree_def allocated_def)
  ultimately show ?thesis using assms by (auto simp: il_def linked_def)
qed

lemma move_construct_items:
  assumes "il h other xs" and "xs \<noteq> []" and "s \<notin> set (other # xs)" and "s \<noteq> nullptr"
  shows "\<exists>h'. move_construct h s other = Ok h' \<and> il h' other [] \<and> null_sentinel h' s
    \<and> touches (insert s (set (other # xs))) h h'"
proof -
  let ?n = "hd (xs @ [other])" and ?p = "last (other # xs)"
  define h1 where "h1 = new_item h s"
  have t: "touches {s} h h1" unfolding h1_def by (rule touches_new_item [OF assms(4)])
  have l: "il h1 other xs"
    using assms(1,3) by (intro il_untouched [OF t]) auto
  have n: "item_next h1 other = Some ?n" "allocated h1 ?n" "item_prev h1 other = Some ?p"
    "allocated h1 ?p" "allocated h1 other" "other \<noteq> nullptr"
    using il_links [of h1 other "[]" xs] il_links [of h1 other xs "[]"] l
    by (auto simp: allocated_def)
  have neq: "?n \<noteq> other" "?p \<noteq> other" "?n \<noteq> s" "?p \<noteq> s" "s \<noteq> other"
    using assms last_in_set [OF assms(2)] by (auto simp: il_def hd_append)
  define h2 where "h2 = h1\<lparr>item_prev := (item_prev h1)(?n \<mapsto> s, other \<mapsto> other),
      item_next := (item_next h1)(?p \<mapsto> s, other \<mapsto> other)\<rparr>"
  have mc: "move_construct h s other = Ok h2"
    using n neq assms(2) unfolding move_construct_def h1_def [symmetric]
    by (simp add: il_empty_il [OF l] h2_def del: last.simps)
      (simp add: store_prev_def store_next_def)
  have "null_sentinel h2 s"
    using neq by (simp add: null_sentinel_def h2_def h1_def new_item_def del: last.simps)
  moreover have "il h2 other []"
    using n(6) by (simp add: il_def linked_def h2_def)
  moreover have "touches (insert s (set (other # xs))) h1 h2"
    using hd_in [of xs other] last_in [of other xs]
    by (auto simp: touches_def agree_def allocated_def h2_def simp del: last.simps)
  ultimately show ?thesis
    using mc touches_trans [OF touches_mono [OF t]] by blast
qed

section \<open>What move assignment does\<close>

text \<open>Moving any list away leaves an empty list; \<open>t\<close> is the new one.\<close>

lemma move_construct_leaves_empty:
  assumes "il h s xs" and "t \<notin> set (s # xs)" and "t \<noteq> nullptr"
  shows "\<exists>h'. move_construct h t s = Ok h' \<and> il h' s [] \<and> touches (insert t (set (s # xs))) h h'
    \<and> (if xs = [] then il h' t [] else null_sentinel h' t)"
proof (cases "xs = []")
  case True
  then obtain h' where h': "move_construct h t s = Ok h'" "il h' t []" "touches {t} h h'"
    using move_construct_empty [of h s t] assms by auto
  moreover have "il h' s []" using assms(1,2) True by (intro il_untouched [OF h'(3)]) auto
  ultimately show ?thesis using True touches_mono [OF h'(3)] by auto
next
  case False
  then show ?thesis using move_construct_items [OF assms(1) False assms(2,3)] by auto
qed

text \<open>Two moves as at the start of every move assignment.\<close>

lemma two_moves:
  assumes "il h this xs" and "il h other ys" and "set (this # xs) \<inter> set (other # ys) = {}"
    and "\<forall>a \<in> set (this # xs @ other # ys). a < sp"
  shows "\<exists>h1 h2. move_construct h sp other = Ok h1 \<and> move_construct h1 (Suc sp) this = Ok h2
    \<and> il h2 this [] \<and> (if ys = [] then il h2 sp [] else null_sentinel h2 sp)"
proof -
  have sp: "sp \<notin> set (other # ys)" "sp \<noteq> nullptr" "Suc sp \<notin> set (this # xs)" "sp \<notin> set (this # xs)"
    using assms(4) by (auto dest: bspec [of _ _ "Suc sp"])
  obtain h1 where h1: "move_construct h sp other = Ok h1" "touches (insert sp (set (other # ys))) h h1"
    "if ys = [] then il h1 sp [] else null_sentinel h1 sp"
    using move_construct_leaves_empty [OF assms(2) sp(1,2)] by blast
  have "il h1 this xs" using assms(1,3) sp(4) by (intro il_untouched [OF h1(2)]) auto
  then obtain h2 where h2: "move_construct h1 (Suc sp) this = Ok h2" "il h2 this []"
    "touches (insert (Suc sp) (set (this # xs))) h1 h2"
    using move_construct_leaves_empty [of h1 this xs "Suc sp"] sp(3) by auto
  have "if ys = [] then il h2 sp [] else null_sentinel h2 sp"
  proof (cases "ys = []")
    case True
    then show ?thesis using h1(3) sp(4) il_untouched [OF h2(3), of sp "[]"] by auto
  next
    case False
    then show ?thesis using h1(3) h2(3) sp(4) by (auto simp: null_sentinel_def touches_def agree_def)
  qed
  then show ?thesis using h1(1) h2(1,2) by blast
qed

definition empty_pair :: "list_items \<Rightarrow> addr \<Rightarrow> addr \<Rightarrow> addr \<Rightarrow> bool" where
  "empty_pair h this other sp \<longleftrightarrow> il h this [] \<and> il h other [] \<and> this \<noteq> other \<and> this < sp \<and> other < sp"

lemma empty_pair_step:
  assumes "empty_pair h this other sp"
  obtains h1 h2 where "move_construct h sp other = Ok h1" "move_construct h1 (Suc sp) this = Ok h2"
    "empty_pair h2 this sp (Suc (Suc sp))"
  using two_moves [of h this "[]" other "[]" sp] assms by (fastforce simp: empty_pair_def)

lemma move_assign_empty_lists:
  assumes "empty_pair h this other sp"
  shows "move_assign h this other sp = Diverges"
proof (rule ccontr)
  assume "move_assign h this other sp \<noteq> Diverges"
  then obtain r where "move_assign h this other sp = Some r" by auto
  then have "\<not> empty_pair h this other sp"
  proof (rule move_assign.raw_induct [rotated])
    fix f :: "list_items \<Rightarrow> addr \<Rightarrow> addr \<Rightarrow> addr \<Rightarrow> list_items run" and h this other sp r
    assume IH: "\<And>h this other sp r. f h this other sp = Some r \<Longrightarrow> \<not> empty_pair h this other sp"
      and eq: "(if this = other then Ok h
        else run_bind (move_construct h sp other) (\<lambda>h.
             run_bind (move_construct h (Suc sp) this) (\<lambda>h.
             run_bind (f h this sp (Suc (Suc sp))) (\<lambda>h.
             run_bind (f h sp (Suc sp) (Suc (Suc sp))) (\<lambda>h.
             Ok (free_item (free_item h (Suc sp)) sp)))))) = Some r"
    show "\<not> empty_pair h this other sp"
    proof
      assume p: "empty_pair h this other sp"
      then obtain h1 h2 where h: "move_construct h sp other = Ok h1" "move_construct h1 (Suc sp) this = Ok h2"
        and "empty_pair h2 this sp (Suc (Suc sp))"
        by (rule empty_pair_step)
      then have "f h2 this sp (Suc (Suc sp)) = Diverges" using IH by (metis option.exhaust)
      then show False using eq h p by (simp add: empty_pair_def)
    qed
  qed
  then show False using assms by simp
qed

lemma move_assign_null:
  assumes "null_sentinel h other" and "this \<noteq> other" and "other \<noteq> nullptr" and "other < sp"
  shows "move_assign h this other sp = Fault BadAccess"
  using assms null_sentinel_unusable(5) [of h other sp] by (subst move_assign.simps) simp

text \<open>
  Claim C39. Moving lists. The move constructor leaves the new list unusable when the source is not
  empty: its sentinel keeps its null pointers, so \<^verbatim>\<open>begin()\<close> is null, the list does not count
  as empty, and taking an item from it dereferences null; the source is left empty. The move
  assignment between different lists never returns: it calls itself without end when the source
  is empty, and dereferences a null pointer when it is not.
\<close>

theorem moves_unusable:
  assumes "il h this xs" and "il h other ys" and "set (this # xs) \<inter> set (other # ys) = {}"
    and "\<forall>a \<in> set (this # xs @ other # ys). a < sp"
  shows "(\<exists>h'. move_construct h sp other = Ok h' \<and> il h' other []
      \<and> (if ys = [] then il h' sp []
         else il_begin h' sp = Ok nullptr \<and> il_empty h' sp = Ok False \<and> pop_front h' sp = Fault BadAccess))
    \<and> move_assign h this other sp = (if ys = [] then Diverges else Fault BadAccess)"
proof
  have sp: "sp \<notin> set (other # ys)" "sp \<noteq> nullptr" using assms(4) by auto
  show "\<exists>h'. move_construct h sp other = Ok h' \<and> il h' other []
      \<and> (if ys = [] then il h' sp []
         else il_begin h' sp = Ok nullptr \<and> il_empty h' sp = Ok False \<and> pop_front h' sp = Fault BadAccess)"
    using move_construct_leaves_empty [OF assms(2) sp] null_sentinel_unusable(1-3) [OF _ sp(2)] by metis
  obtain h1 h2 where h: "move_construct h sp other = Ok h1" "move_construct h1 (Suc sp) this = Ok h2"
    "il h2 this []" "if ys = [] then il h2 sp [] else null_sentinel h2 sp"
    using two_moves [OF assms] by blast
  have "move_assign h2 this sp (Suc (Suc sp)) = (if ys = [] then Diverges else Fault BadAccess)"
    using h(3,4) assms(4) sp(2) move_assign_empty_lists [of h2 this sp "Suc (Suc sp)"]
      move_assign_null [of h2 sp this "Suc (Suc sp)"]
    by (auto simp: empty_pair_def)
  moreover have "this \<noteq> other" using assms(3) by auto
  ultimately show "move_assign h this other sp = (if ys = [] then Diverges else Fault BadAccess)"
    using h(1,2) by (subst move_assign.simps) simp
qed

theorem moves_unusable_witness:
  "(\<exists>h'. move_construct example_heap 11 1 = Ok h' \<and> pop_front h' 11 = Fault BadAccess)
   \<and> move_assign example_heap 7 1 11 = Fault BadAccess"
  using moves_unusable [of example_heap 7 "[8, 9]" 1 "[2, 3, 4, 5, 6]" 11] example_heap_il by auto

end
