(* ===== verification/Searches.thy ===== *)
theory Searches
  imports Scheduler_Theorems
begin

text \<open>
  The searches of \<^verbatim>\<open>IoScheduler::schedule\<close> and \<^verbatim>\<open>IoScheduler::cancel\<close> over the operations sorted by
  descriptor, against the obvious way to find the same positions: walking over the active
  operations from the first one.
\<close>

definition walk_until :: "'k world \<Rightarrow> (fd \<Rightarrow> bool) \<Rightarrow> addr run" where
  "walk_until w found = run_bind (il_begin (links w) operations_list) (\<lambda>first.
     find_if (links w) (\<lambda>a. run_bind (deref_aio w a) (\<lambda>op. Ok (found (aio_fd op)))) first (begin_cancelled w))"

lemma walk_until_at:
  assumes l: "il (links w) operations_list (us @ vs @ can)"
    and b: "begin_cancelled w = hd (can @ [operations_list])"
    and io: "\<forall>a \<in> set (us @ vs). is_aio (objs w a)"
    and "\<forall>a \<in> set us. \<not> found (fd_at w a)" and "\<forall>a \<in> set vs. found (fd_at w a)"
  shows "walk_until w found = Ok (hd (vs @ can @ [operations_list]))"
proof -
  let ?p = "\<lambda>a. run_bind (deref_aio w a) (\<lambda>op. Ok (found (aio_fd op)))"
  have p: "?p a = Ok (found (fd_at w a))" if "a \<in> set (us @ vs)" for a
    using that io by (simp add: deref_aio_is_aio)
  have l0: "il (links w) operations_list ([] @ us @ vs @ can)" using l by simp
  have "find_if (links w) ?p (hd (us @ vs @ can @ [operations_list])) (hd (can @ [operations_list]))
      = Ok (hd (vs @ can @ [operations_list]))"
    using p assms(4,5) hd_in_set [of vs] by (intro find_if_range [OF l0]) auto
  then show ?thesis using il_begin_il [OF l] b by (simp add: walk_until_def)
qed

lemma walk_positions:
  assumes "sched_inv w act can cq L"
  shows "walk_until w (\<lambda>x. fd \<le> x) = Ok (hd (at_fd w fd act @ above_fd w fd act @ can @ [operations_list]))"
    and "walk_until w (\<lambda>x. fd < x) = Ok (hd (above_fd w fd act @ can @ [operations_list]))"
proof -
  have l: "il (links w) operations_list (act @ can)" and b: "begin_cancelled w = hd (can @ [operations_list])"
    and io: "\<forall>a \<in> set act. is_aio (objs w a)" and so: "sorted (map (fd_at w) act)"
    using assms by (auto simp: sched_inv_def lists_Cons pending_def)
  have act: "act = below_fd w fd act @ at_fd w fd act @ above_fd w fd act" using sorted_split [OF so, of fd] .
  have *: "il (links w) operations_list (below_fd w fd act @ (at_fd w fd act @ above_fd w fd act) @ can)"
    "il (links w) operations_list ((below_fd w fd act @ at_fd w fd act) @ above_fd w fd act @ can)"
    using l act by (metis append_assoc)+
  show "walk_until w (\<lambda>x. fd \<le> x)
      = Ok (hd (at_fd w fd act @ above_fd w fd act @ can @ [operations_list]))"
    by (rule walk_until_at [OF *(1) b, simplified]) (use io in auto)
  show "walk_until w (\<lambda>x. fd < x) = Ok (hd (above_fd w fd act @ can @ [operations_list]))"
    by (rule walk_until_at [OF *(2) b]) (use io in auto)
qed

text \<open>
  Claim C17. The searches over the sorted operations are equivalent to walking over them: the
  binary search of \<^verbatim>\<open>schedule\<close>, with its two shortcuts and the loop behind it, finds the first
  active operation with a greater descriptor, and the two searches of \<^verbatim>\<open>cancel\<close> find the first
  one with no smaller descriptor and the first one with a greater descriptor, or the end of the
  active operations.
\<close>

theorem searches_equal_walks:
  assumes "sched_inv w act can cq L"
  shows "run_bind (il_begin (links w) operations_list) (\<lambda>first.
      run_bind (find_insert_pos w fd first (begin_cancelled w)) (\<lambda>pos.
      run_bind (skip_same_fd w fd pos (begin_cancelled w) events) (\<lambda>(pos, _). Ok pos)))
        = walk_until w (\<lambda>x. fd < x)
    \<and> run_bind (il_begin (links w) operations_list) (\<lambda>first.
      lower_bound (links w) (fd_less w fd) first (begin_cancelled w)) = walk_until w (\<lambda>x. fd \<le> x)
    \<and> run_bind (walk_until w (\<lambda>x. fd \<le> x)) (\<lambda>first_pos.
      find_if (links w) (fd_differs w fd) first_pos (begin_cancelled w)) = walk_until w (\<lambda>x. fd < x)"
proof -
  let ?s = operations_list and ?b = "below_fd w fd act" and ?e = "at_fd w fd act" and ?a = "above_fd w fd act"
  have l: "il (links w) ?s (act @ can)" and c: "begin_cancelled w = hd (can @ [?s])"
    and io: "\<forall>a \<in> set act. is_aio (objs w a)" and so: "sorted (map (fd_at w) act)"
    using assms by (auto simp: sched_inv_def lists_Cons pending_def)
  have "act = ?b @ ?e @ ?a" using sorted_split [OF so, of fd] .
  then have l3: "il (links w) ?s (?b @ ?e @ ?a @ can)" using l by (metis append_assoc)
  have "skip_same_fd w fd (hd (?e @ ?a @ can @ [?s])) (hd (can @ [?s])) events
      = Ok (hd (?a @ can @ [?s]), interests w ?e events)"
    using io by (intro skip_same_fd_run [OF l3]) auto
  then have 1: "run_bind (find_insert_pos w fd (hd (act @ can @ [?s])) (hd (can @ [?s]))) (\<lambda>pos.
      run_bind (skip_same_fd w fd pos (hd (can @ [?s])) events) (\<lambda>(pos, _). Ok pos)) = Ok (hd (?a @ can @ [?s]))"
    using find_insert_pos_fd [OF l io so, of fd] by (auto simp: skip_same_fd_end)
  show ?thesis
    using 1 cancel_range [OF l io so, of fd] lower_bound_fd [OF l io so, of fd] walk_positions [OF assms, of fd] il_begin_il [OF l] c by simp
qed

theorem searches_equal_walks_witness:
  "run_bind (il_begin (links demo_world) operations_list) (\<lambda>first.
     lower_bound (links demo_world) (fd_less demo_world 5) first (begin_cancelled demo_world))
   = walk_until demo_world (\<lambda>x. 5 \<le> x)"
  using searches_equal_walks [OF demo_inv, of 5 0] by blast

end
