(* ===== verification/Threads.thy ===== *)
theory Threads
  imports Main
begin

text \<open>
  Several threads that run one context (\<^verbatim>\<open>ContextThread::run\<close>), as a transition system.

  The other theories follow one thread; this one follows how threads share a context. A state has
  the data the threads share and the statement each thread executes next. Of the shared data it
  keeps what the threads wait for: the length of the completion queue, the length of the
  scheduler's list, the two atomic counters, and who holds the two mutexes. A step is one
  access to shared data of one thread. A section under a mutex that only touches data protected
  by that mutex is one step, which waits while the mutex is taken; the section of \<^verbatim>\<open>run\<close>
  around the condition variable reads the atomic counters, which change without the mutex, so it
  is taken apart. A condition variable may wake a thread for no reason. Which calls handlers
  make, how many operations a poll finds ready, and what other threads of the program do with
  the context is left open. The counters do not overflow.
\<close>

section \<open>States\<close>

text \<open>
  The statement a thread executes next; the numbers are the completions left in the temporary
  list of \<^verbatim>\<open>run_once\<close>, in \<open>Posting\<close> the operations posted since the scheduler was locked.
\<close>

datatype pc =
    Idle                                        \<comment> \<open>not in \<^verbatim>\<open>run\<close>\<close>
  | Test | Acquire | IfQueue | IfIo | IfWork    \<comment> \<open>\<^verbatim>\<open>run\<close> up to the wait\<close>
  | PredQueue | PredIo | PredWork               \<comment> \<open>the predicate of \<^verbatim>\<open>cvar_.wait\<close>\<close>
  | Sleep | Asleep | Woken                      \<comment> \<open>about to block, blocked, notified\<close>
  | Unlock | Exit                               \<comment> \<open>the end of the section and of \<^verbatim>\<open>run\<close>\<close>
  | Splice | Dispatch nat | More | CheckIo | Notify  \<comment> \<open>\<^verbatim>\<open>run_once\<close>\<close>
  | Handler nat                                 \<comment> \<open>a handler is running\<close>
  | Post nat | Start nat | Started nat          \<comment> \<open>it posts, starts an operation\<close>
  | Reset nat | Released nat                    \<comment> \<open>it releases the work of the user, its own\<close>
  | Thrown nat | Unwind nat | NotifyThrow       \<comment> \<open>it has thrown\<close>
  | Poll | Posting nat                          \<comment> \<open>\<^verbatim>\<open>poll_once\<close>\<close>

record shared =
  queued :: nat            \<comment> \<open>length of \<^verbatim>\<open>completion_queue_\<close>\<close>
  operations :: nat        \<comment> \<open>length of \<^verbatim>\<open>operations_\<close>\<close>
  poll_length :: nat       \<comment> \<open>\<^verbatim>\<open>poll_queue_length_\<close>\<close>
  work_count :: nat        \<comment> \<open>\<^verbatim>\<open>remaining_count_\<close>\<close>
  user_work :: nat         \<comment> \<open>active \<^verbatim>\<open>Work\<close> objects the user holds\<close>
  lock_owner :: "nat option"     \<comment> \<open>\<^verbatim>\<open>ContextThread::data_mutex_\<close>\<close>
  io_lock_owner :: "nat option"  \<comment> \<open>\<^verbatim>\<open>IoScheduler::data_mutex_\<close>\<close>

record system =
  sh :: shared
  pcs :: "pc list"

text \<open>A step waits, stops the process at a contract check, or goes on; the flag says \<^verbatim>\<open>notify_all\<close>.\<close>

datatype 'a outcome = Blocked | Violation | is_goes: Goes 'a

type_synonym thread_result = "(shared \<times> pc \<times> bool) outcome"

section \<open>Statements\<close>

text \<open>\<^verbatim>\<open>ContextThread::run\<close>, with the predicate of the wait.\<close>

definition run_statement :: "nat \<Rightarrow> shared \<Rightarrow> pc \<Rightarrow> thread_result" where
  "run_statement t s p =
     (case p of
        Test \<Rightarrow> Goes (s, if 0 < work_count s then Acquire else Exit, False)
      | Acquire \<Rightarrow> if lock_owner s = None then Goes (s\<lparr>lock_owner := Some t\<rparr>, IfQueue, False) else Blocked
      | IfQueue \<Rightarrow> Goes (s, if queued s = 0 then IfIo else Unlock, False)
      | IfIo \<Rightarrow> Goes (s, if poll_length s = 0 then IfWork else Unlock, False)
      | IfWork \<Rightarrow> Goes (s, if 0 < work_count s then PredQueue else Unlock, False)
      | PredQueue \<Rightarrow> Goes (s, if queued s = 0 then PredIo else Unlock, False)
      | PredIo \<Rightarrow> Goes (s, if poll_length s = 0 then PredWork else Unlock, False)
      | PredWork \<Rightarrow> Goes (s, if work_count s = 0 then Unlock else Sleep, False)
      | Sleep \<Rightarrow> Goes (s\<lparr>lock_owner := None\<rparr>, Asleep, False)
      | Woken \<Rightarrow> if lock_owner s = None then Goes (s\<lparr>lock_owner := Some t\<rparr>, PredQueue, False) else Blocked
      | Unlock \<Rightarrow> Goes (s\<lparr>lock_owner := None\<rparr>, Splice, False)
      | Exit \<Rightarrow> Goes (s, Idle, True)
      | _ \<Rightarrow> Blocked)"

text \<open>
  \<^verbatim>\<open>ContextThread::run_once\<close>, with its scope guards: a normal end finds the temporary list
  empty, so only the notifying guard is left; an exception puts what is left back into the queue.
\<close>

definition run_once_statement :: "nat \<Rightarrow> shared \<Rightarrow> pc \<Rightarrow> thread_result" where
  "run_once_statement t s p =
     (case p of
        Splice \<Rightarrow> if lock_owner s = None then Goes (s\<lparr>queued := 0\<rparr>, Dispatch (queued s), False) else Blocked
      | Dispatch n \<Rightarrow> Goes (s, case n of 0 \<Rightarrow> More | Suc m \<Rightarrow> Handler m, False)
      | More \<Rightarrow> if lock_owner s = None then Goes (s, CheckIo, False) else Blocked
      | CheckIo \<Rightarrow> Goes (s, if poll_length s = 0 then Notify else Poll, False)
      | Notify \<Rightarrow> Goes (s, Test, True)
      | Unwind n \<Rightarrow>
          (case n of 0 \<Rightarrow> Goes (s, NotifyThrow, False)
           | Suc m \<Rightarrow> if lock_owner s = None then Goes (s\<lparr>queued := queued s + n\<rparr>, NotifyThrow, False)
                      else Blocked)
      | NotifyThrow \<Rightarrow> Goes (s, Idle, True)
      | _ \<Rightarrow> Blocked)"

text \<open>
  The rest of the calls a handler makes, after their first access: \<^verbatim>\<open>ContextThread::post\<close>,
  \<^verbatim>\<open>IoScheduler::schedule\<close> and the notification of \<^verbatim>\<open>release_work\<close>.
\<close>

definition call_statement :: "nat \<Rightarrow> shared \<Rightarrow> pc \<Rightarrow> thread_result" where
  "call_statement t s p =
     (case p of
        Post n \<Rightarrow> if lock_owner s = None then Goes (s\<lparr>queued := queued s + 1\<rparr>, Handler n, True) else Blocked
      | Start n \<Rightarrow>
          if io_lock_owner s = None
          then Goes (s\<lparr>operations := operations s + 1, poll_length := poll_length s + 1,
                       io_lock_owner := Some t\<rparr>, Started n, False)
          else Blocked
      | Started n \<Rightarrow> Goes (s\<lparr>io_lock_owner := None\<rparr>, Handler n, True)
      | Reset n \<Rightarrow> Goes (s, Handler n, True)
      | Released n \<Rightarrow> Goes (s, Dispatch n, True)
      | Thrown n \<Rightarrow> Goes (s, Unwind n, True)
      | _ \<Rightarrow> Blocked)"

definition statement :: "nat \<Rightarrow> shared \<Rightarrow> pc \<Rightarrow> thread_result" where
  "statement t s p =
     (case run_statement t s p of Blocked \<Rightarrow>
        (case run_once_statement t s p of Blocked \<Rightarrow> call_statement t s p | r \<Rightarrow> r)
      | r \<Rightarrow> r)"

section \<open>Choices\<close>

text \<open>\<^verbatim>\<open>fetch_sub\<close> of \<^verbatim>\<open>release_work\<close>, with its contract check.\<close>

definition release_count :: "shared \<Rightarrow> pc \<Rightarrow> thread_result" where
  "release_count s p =
     (if 0 < work_count s then Goes (s\<lparr>work_count := work_count s - 1\<rparr>, p, False) else Violation)"

text \<open>What a running handler does next.\<close>

datatype call = CallPost | CallStart | CallCancel | CallReset | CallReturn | CallThrow

definition handler_call :: "call \<Rightarrow> shared \<Rightarrow> nat \<Rightarrow> thread_result" where
  "handler_call c s n =
     (case c of
        CallPost \<Rightarrow> Goes (s\<lparr>work_count := work_count s + 1\<rparr>, Post n, False)
      | CallStart \<Rightarrow> Goes (s\<lparr>work_count := work_count s + 1\<rparr>, Start n, False)
      | CallCancel \<Rightarrow> if io_lock_owner s = None then Goes (s, Handler n, True) else Blocked
      | CallReset \<Rightarrow>
          if 0 < user_work s then release_count (s\<lparr>user_work := user_work s - 1\<rparr>) (Reset n) else Blocked
      | CallReturn \<Rightarrow> release_count s (Released n)
      | CallThrow \<Rightarrow> release_count s (Thrown n))"

text \<open>
  \<^verbatim>\<open>IoScheduler::poll_once\<close>: any number of rounds that lock the scheduler, post operations and
  subtract their number, whether they were cancelled or ready; \<^verbatim>\<open>epoll_wait\<close> may fail.
\<close>

datatype poll_choice = PollLock | PollPost | PollUnlock | PollReturn | PollThrow

definition poll_step :: "poll_choice \<Rightarrow> nat \<Rightarrow> shared \<Rightarrow> pc \<Rightarrow> thread_result" where
  "poll_step c t s p =
     (case (c, p) of
        (PollLock, Poll) \<Rightarrow>
          if io_lock_owner s = None then Goes (s\<lparr>io_lock_owner := Some t\<rparr>, Posting 0, False) else Blocked
      | (PollPost, Posting n) \<Rightarrow>
          if 0 < operations s \<and> lock_owner s = None
          then Goes (s\<lparr>operations := operations s - 1, queued := queued s + 1\<rparr>, Posting (Suc n), True)
          else Blocked
      | (PollUnlock, Posting n) \<Rightarrow>
          if n \<le> poll_length s
          then Goes (s\<lparr>poll_length := poll_length s - n, io_lock_owner := None\<rparr>, Poll, False)
          else Violation
      | (PollReturn, Poll) \<Rightarrow> Goes (s, Notify, False)
      | (PollThrow, Poll) \<Rightarrow> Goes (s, NotifyThrow, False)
      | _ \<Rightarrow> Blocked)"

datatype choice = Next | CallRun | Calls call | Polls poll_choice

definition thread_step :: "choice \<Rightarrow> nat \<Rightarrow> shared \<Rightarrow> pc \<Rightarrow> thread_result" where
  "thread_step c t s p =
     (case c of
        Next \<Rightarrow> statement t s p
      | CallRun \<Rightarrow> if p = Idle then Goes (s, Test, False) else Blocked
      | Calls c \<Rightarrow> (case p of Handler n \<Rightarrow> handler_call c s n | _ \<Rightarrow> Blocked)
      | Polls c \<Rightarrow> poll_step c t s p)"

section \<open>Systems\<close>

definition notify_all :: "pc list \<Rightarrow> pc list" where
  "notify_all ps = map (\<lambda>p. if p = Asleep then Woken else p) ps"

text \<open>
  A system takes a step of one of its threads, a thread wakes up for no reason, or the user, from
  a thread that does not run the context, constructs a \<^verbatim>\<open>Work\<close>, posts, starts an operation or
  releases a \<^verbatim>\<open>Work\<close>.
\<close>

datatype action = Thread nat choice | Spurious nat | UserLatch | UserPost | UserStart | UserRelease

inductive step :: "action \<Rightarrow> system \<Rightarrow> system \<Rightarrow> bool" where
  thread: "t < length ps \<Longrightarrow> thread_step c t s (ps ! t) = Goes (s', p, notifies) \<Longrightarrow>
    step (Thread t c) \<lparr>sh = s, pcs = ps\<rparr>
      \<lparr>sh = s', pcs = if notifies then notify_all (ps[t := p]) else ps[t := p]\<rparr>"
| spurious: "t < length ps \<Longrightarrow> ps ! t = Asleep \<Longrightarrow>
    step (Spurious t) \<lparr>sh = s, pcs = ps\<rparr> \<lparr>sh = s, pcs = ps[t := Woken]\<rparr>"
| latch: "step UserLatch \<lparr>sh = s, pcs = ps\<rparr>
    \<lparr>sh = s\<lparr>work_count := work_count s + 1, user_work := user_work s + 1\<rparr>, pcs = ps\<rparr>"
| post: "0 < user_work s \<Longrightarrow> lock_owner s = None \<Longrightarrow>
    step UserPost \<lparr>sh = s, pcs = ps\<rparr>
      \<lparr>sh = s\<lparr>queued := queued s + 1, user_work := user_work s - 1\<rparr>, pcs = notify_all ps\<rparr>"
| start: "0 < user_work s \<Longrightarrow> io_lock_owner s = None \<Longrightarrow>
    step UserStart \<lparr>sh = s, pcs = ps\<rparr>
      \<lparr>sh = s\<lparr>operations := operations s + 1, poll_length := poll_length s + 1,
              user_work := user_work s - 1\<rparr>, pcs = notify_all ps\<rparr>"
| release: "0 < user_work s \<Longrightarrow> 0 < work_count s \<Longrightarrow>
    step UserRelease \<lparr>sh = s, pcs = ps\<rparr>
      \<lparr>sh = s\<lparr>work_count := work_count s - 1, user_work := user_work s - 1\<rparr>, pcs = notify_all ps\<rparr>"

definition fresh_shared :: shared where
  "fresh_shared = \<lparr>queued = 0, operations = 0, poll_length = 0, work_count = 0, user_work = 0,
     lock_owner = None, io_lock_owner = None\<rparr>"

definition initial :: "nat \<Rightarrow> system" where
  "initial n = \<lparr>sh = fresh_shared, pcs = replicate n Idle\<rparr>"

inductive reachable :: "(system \<Rightarrow> action \<Rightarrow> bool) \<Rightarrow> nat \<Rightarrow> system \<Rightarrow> bool" for allowed n where
  start_state: "reachable allowed n (initial n)"
| next_state: "reachable allowed n s \<Longrightarrow> allowed s a \<Longrightarrow> step a s s' \<Longrightarrow> reachable allowed n s'"

text \<open>A contract check that would fail.\<close>

definition violates :: "system \<Rightarrow> bool" where
  "violates s \<longleftrightarrow> (\<exists>t < length (pcs s). \<exists>c. thread_step c t (sh s) (pcs s ! t) = Violation)
     \<or> (0 < user_work (sh s) \<and> work_count (sh s) = 0)"

text \<open>Invariants of everything reachable.\<close>

locale system_invariant =
  fixes allowed :: "system \<Rightarrow> action \<Rightarrow> bool" and holds :: "system \<Rightarrow> bool"
  assumes initially: "holds (initial n)"
    and preserved: "holds s \<Longrightarrow> allowed s a \<Longrightarrow> step a s s' \<Longrightarrow> holds s'"
begin

lemma reachable_holds: "reachable allowed n s \<Longrightarrow> holds s"
  by (induction rule: reachable.induct) (auto intro: initially preserved)

end

section \<open>Balance of work\<close>

text \<open>
  The active \<^verbatim>\<open>Work\<close> objects a thread has in its hands: those of its temporary list, of the
  running handler, and of a completion or operation it is about to hand over.
\<close>

fun held :: "pc \<Rightarrow> nat" where
  "held (Dispatch n) = n"
| "held (Handler n) = Suc n"
| "held (Post n) = Suc (Suc n)"
| "held (Start n) = Suc (Suc n)"
| "held (Started n) = Suc n"
| "held (Reset n) = Suc n"
| "held (Released n) = n"
| "held (Thrown n) = n"
| "held (Unwind n) = n"
| "held _ = 0"

fun posted :: "pc \<Rightarrow> nat" where
  "posted (Posting n) = n"
| "posted _ = 0"

definition balanced :: "system \<Rightarrow> bool" where
  "balanced s \<longleftrightarrow>
     work_count (sh s) = user_work (sh s) + queued (sh s) + operations (sh s) + sum_list (map held (pcs s))
     \<and> poll_length (sh s) = operations (sh s) + sum_list (map posted (pcs s))"

lemma sum_list_map_update:
  fixes f :: "'a \<Rightarrow> nat"
  assumes "t < length xs"
  shows "sum_list (map f (xs[t := x])) + f (xs ! t) = sum_list (map f xs) + f x"
proof -
  have "xs = take t xs @ xs ! t # drop (Suc t) xs" using assms by (rule id_take_nth_drop)
  then have "sum_list (map f xs) = sum_list (map f (take t xs)) + (f (xs ! t) + sum_list (map f (drop (Suc t) xs)))"
    by (metis map_append list.simps(9) sum_list.append sum_list.Cons)
  then show ?thesis using assms by (simp add: upd_conv_take_nth_drop)
qed

lemma notify_all_sums [simp]:
  "sum_list (map held (notify_all ps)) = sum_list (map held ps)"
  "sum_list (map posted (notify_all ps)) = sum_list (map posted ps)"
  by (induction ps) (auto simp: notify_all_def)

lemma length_notify_all [simp]: "length (notify_all ps) = length ps"
  by (simp add: notify_all_def)

lemma nth_notify_all [simp]:
  "t < length ps \<Longrightarrow> notify_all ps ! t = (if ps ! t = Asleep then Woken else ps ! t)"
  by (simp add: notify_all_def)

text \<open>The statements one by one, for the case analyses below.\<close>

lemma statement_simps [simp]:
  "statement t s Idle = Blocked"
  "statement t s Test = Goes (s, if 0 < work_count s then Acquire else Exit, False)"
  "statement t s Acquire =
     (if lock_owner s = None then Goes (s\<lparr>lock_owner := Some t\<rparr>, IfQueue, False) else Blocked)"
  "statement t s IfQueue = Goes (s, if queued s = 0 then IfIo else Unlock, False)"
  "statement t s IfIo = Goes (s, if poll_length s = 0 then IfWork else Unlock, False)"
  "statement t s IfWork = Goes (s, if 0 < work_count s then PredQueue else Unlock, False)"
  "statement t s PredQueue = Goes (s, if queued s = 0 then PredIo else Unlock, False)"
  "statement t s PredIo = Goes (s, if poll_length s = 0 then PredWork else Unlock, False)"
  "statement t s PredWork = Goes (s, if work_count s = 0 then Unlock else Sleep, False)"
  "statement t s Sleep = Goes (s\<lparr>lock_owner := None\<rparr>, Asleep, False)"
  "statement t s Asleep = Blocked"
  "statement t s Woken =
     (if lock_owner s = None then Goes (s\<lparr>lock_owner := Some t\<rparr>, PredQueue, False) else Blocked)"
  "statement t s Unlock = Goes (s\<lparr>lock_owner := None\<rparr>, Splice, False)"
  "statement t s Exit = Goes (s, Idle, True)"
  by (simp_all add: statement_def run_statement_def run_once_statement_def call_statement_def)

lemma once_statement_simps [simp]:
  "statement t s Splice =
     (if lock_owner s = None then Goes (s\<lparr>queued := 0\<rparr>, Dispatch (queued s), False) else Blocked)"
  "statement t s (Dispatch n) = Goes (s, case n of 0 \<Rightarrow> More | Suc m \<Rightarrow> Handler m, False)"
  "statement t s More = (if lock_owner s = None then Goes (s, CheckIo, False) else Blocked)"
  "statement t s CheckIo = Goes (s, if poll_length s = 0 then Notify else Poll, False)"
  "statement t s Notify = Goes (s, Test, True)"
  "statement t s (Unwind n) =
     (if n = 0 then Goes (s, NotifyThrow, False)
      else if lock_owner s = None then Goes (s\<lparr>queued := queued s + n\<rparr>, NotifyThrow, False) else Blocked)"
  "statement t s NotifyThrow = Goes (s, Idle, True)"
  "statement t s Poll = Blocked"
  "statement t s (Posting n) = Blocked"
  by (simp_all add: statement_def run_statement_def run_once_statement_def call_statement_def split: nat.split)

lemma call_statement_simps [simp]:
  "statement t s (Handler n) = Blocked"
  "statement t s (Post n) =
     (if lock_owner s = None then Goes (s\<lparr>queued := queued s + 1\<rparr>, Handler n, True) else Blocked)"
  "statement t s (Start n) =
     (if io_lock_owner s = None
      then Goes (s\<lparr>operations := operations s + 1, poll_length := poll_length s + 1,
                   io_lock_owner := Some t\<rparr>, Started n, False)
      else Blocked)"
  "statement t s (Started n) = Goes (s\<lparr>io_lock_owner := None\<rparr>, Handler n, True)"
  "statement t s (Reset n) = Goes (s, Handler n, True)"
  "statement t s (Released n) = Goes (s, Dispatch n, True)"
  "statement t s (Thrown n) = Goes (s, Unwind n, True)"
  by (simp_all add: statement_def run_statement_def run_once_statement_def call_statement_def)

lemmas choice_defs = thread_step_def handler_call_def release_count_def poll_step_def

lemmas choice_splits = if_splits nat.splits call.splits poll_choice.splits

text \<open>One thread's step moves work between what it holds and what is shared.\<close>

lemma thread_step_balance:
  assumes "thread_step c t s p = Goes (s', p', n)" and "posted p \<le> poll_length s"
  shows "work_count s' + (user_work s + queued s + operations s + held p)
      = work_count s + (user_work s' + queued s' + operations s' + held p')"
    and "poll_length s' + (operations s + posted p) = poll_length s + (operations s' + posted p')"
  using assms
  by (cases p; cases c; auto simp: choice_defs split: choice_splits)+

lemma posted_le:
  assumes "balanced s" and "t < length (pcs s)"
  shows "posted (pcs s ! t) \<le> poll_length (sh s)"
  using assms member_le_sum_list [of "posted (pcs s ! t)" "map posted (pcs s)"]
  by (auto simp: balanced_def)

lemma held_le:
  assumes "balanced s" and "t < length (pcs s)"
  shows "user_work (sh s) + held (pcs s ! t) \<le> work_count (sh s)"
  using assms member_le_sum_list [of "held (pcs s ! t)" "map held (pcs s)"]
  by (auto simp: balanced_def)

lemma balanced_step:
  assumes "balanced s" and "step a s s'"
  shows "balanced s'"
  using assms(2)
proof (cases rule: step.cases)
  case (thread t ps c s0 s1 p n)
  have "posted (ps ! t) \<le> poll_length s0" using posted_le [OF assms(1)] thread by simp
  note b = thread_step_balance [OF thread(5) this]
  have "work_count s1 = user_work s1 + queued s1 + operations s1 + sum_list (map held (ps[t := p]))"
    using b(1) sum_list_map_update [OF thread(4), of held p] assms(1) thread(2) by (simp add: balanced_def)
  moreover have "poll_length s1 = operations s1 + sum_list (map posted (ps[t := p]))"
    using b(2) sum_list_map_update [OF thread(4), of posted p] assms(1) thread(2) by (simp add: balanced_def)
  ultimately show ?thesis using thread(3) by (simp add: balanced_def)
next
  case (spurious t ps s0)
  then show ?thesis
    using assms(1) sum_list_map_update [of t ps held Woken] sum_list_map_update [of t ps posted Woken]
    by (simp add: balanced_def)
qed (use assms(1) in \<open>auto simp: balanced_def\<close>)

lemma balanced_initial: "balanced (initial n)"
  by (simp add: balanced_def initial_def fresh_shared_def sum_list_replicate)

interpretation balance: system_invariant "\<lambda>_ _. True" balanced
  by unfold_locales (auto intro: balanced_step balanced_initial)

lemma balanced_no_violation:
  assumes "balanced s"
  shows "\<not> violates s"
proof -
  have "thread_step c t (sh s) (pcs s ! t) \<noteq> Violation" if "t < length (pcs s)" for c t
    using held_le [OF assms that] posted_le [OF assms that]
    by (cases "pcs s ! t"; cases c; simp add: choice_defs split: nat.split call.split poll_choice.split)
  then show ?thesis using assms by (auto simp: violates_def balanced_def)
qed

section \<open>Mutual exclusion\<close>

fun in_section :: "pc \<Rightarrow> bool" where
  "in_section IfQueue = True"
| "in_section IfIo = True"
| "in_section IfWork = True"
| "in_section PredQueue = True"
| "in_section PredIo = True"
| "in_section PredWork = True"
| "in_section Sleep = True"
| "in_section Unlock = True"
| "in_section _ = False"

fun in_io_section :: "pc \<Rightarrow> bool" where
  "in_io_section (Started _) = True"
| "in_io_section (Posting _) = True"
| "in_io_section _ = False"

definition exclusive :: "system \<Rightarrow> bool" where
  "exclusive s \<longleftrightarrow>
     (\<forall>t < length (pcs s). in_section (pcs s ! t) \<longleftrightarrow> lock_owner (sh s) = Some t)
     \<and> (\<forall>t < length (pcs s). in_io_section (pcs s ! t) \<longleftrightarrow> io_lock_owner (sh s) = Some t)
     \<and> (\<forall>t. lock_owner (sh s) = Some t \<longrightarrow> t < length (pcs s))
     \<and> (\<forall>t. io_lock_owner (sh s) = Some t \<longrightarrow> t < length (pcs s))"

text \<open>How one thread's step changes the owners.\<close>

lemma thread_step_owners:
  assumes "thread_step c t s p = Goes (s', p', n)"
    and "in_section p \<longleftrightarrow> lock_owner s = Some t" and "in_io_section p \<longleftrightarrow> io_lock_owner s = Some t"
  shows "lock_owner s' = (if in_section p' then Some t else if in_section p then None else lock_owner s)"
    and "in_section p' \<Longrightarrow> lock_owner s = None \<or> lock_owner s = Some t"
    and "io_lock_owner s' = (if in_io_section p' then Some t else if in_io_section p then None else io_lock_owner s)"
    and "in_io_section p' \<Longrightarrow> io_lock_owner s = None \<or> io_lock_owner s = Some t"
  using assms
  by (cases p; cases c; auto simp: choice_defs split: choice_splits)+

lemma exclusive_step:
  assumes "exclusive s" and "step a s s'"
  shows "exclusive s'"
  using assms(2)
proof (cases rule: step.cases)
  case (thread t ps c s0 s1 p n)
  have o: "in_section (ps ! t) \<longleftrightarrow> lock_owner s0 = Some t" "in_io_section (ps ! t) \<longleftrightarrow> io_lock_owner s0 = Some t"
    using assms(1) thread(2,4) by (auto simp: exclusive_def)
  note own = thread_step_owners [OF thread(5) o]
  have "exclusive \<lparr>sh = s1, pcs = ps[t := p]\<rparr>"
    using assms(1) thread(2,4) own o
    by (auto simp: exclusive_def nth_list_update)
  moreover have "exclusive \<lparr>sh = s1, pcs = notify_all qs\<rparr>" if "exclusive \<lparr>sh = s1, pcs = qs\<rparr>" for qs
    using that by (auto simp: exclusive_def)
  ultimately show ?thesis using thread(3) by simp
next
  case (spurious t ps s0)
  then show ?thesis using assms(1) by (auto simp: exclusive_def nth_list_update)
qed (use assms(1) in \<open>auto simp: exclusive_def\<close>)

lemma exclusive_initial: "exclusive (initial n)"
  by (simp add: exclusive_def initial_def fresh_shared_def)

end
