(* ===== verification/Wakeups.thy ===== *)
theory Wakeups
  imports Threads
begin

text \<open>
  Wakeups of the threads that run a context (\<^verbatim>\<open>ContextThread::run\<close>): when a thread sleeps on the
  condition variable although there is something to do, another thread is going to notify it.
  This holds as long as everything that changes the condition of the wait comes from the
  threads that run the context or goes through \<^verbatim>\<open>ContextThread::post\<close>, and can fail otherwise.
\<close>

section \<open>Wakeups\<close>

text \<open>
  The statements after which a thread takes the mutex and then calls \<^verbatim>\<open>notify_all\<close>, and those
  after which it calls \<^verbatim>\<open>notify_all\<close>, before it sleeps or leaves \<^verbatim>\<open>run\<close>.
\<close>

fun will_lock :: "pc \<Rightarrow> bool" where
  "will_lock Splice = True"
| "will_lock (Dispatch _) = True"
| "will_lock (Handler _) = True"
| "will_lock (Post _) = True"
| "will_lock (Start _) = True"
| "will_lock (Started _) = True"
| "will_lock (Reset _) = True"
| "will_lock (Released _) = True"
| "will_lock (Thrown n) = (0 < n)"
| "will_lock (Unwind n) = (0 < n)"
| "will_lock More = True"
| "will_lock _ = False"

fun will_notify :: "pc \<Rightarrow> bool" where
  "will_notify CheckIo = True"
| "will_notify Notify = True"
| "will_notify Poll = True"
| "will_notify (Posting _) = True"
| "will_notify (Thrown _) = True"
| "will_notify (Unwind _) = True"
| "will_notify NotifyThrow = True"
| "will_notify Exit = True"
| "will_notify p = will_lock p"

lemma will_lock_notifies: "will_lock p \<Longrightarrow> will_notify p"
  by (cases p) simp_all

text \<open>The condition of the wait: there is something for a thread to do.\<close>

definition to_do :: "shared \<Rightarrow> bool" where
  "to_do s \<longleftrightarrow> 0 < queued s \<or> 0 < poll_length s \<or> work_count s = 0"

text \<open>
  A thread is safe to wait: what it has read of the condition was false and is still false, or
  another thread has changed it and will notify, after taking the mutex the thread still holds.
\<close>

fun waits_safely :: "system \<Rightarrow> pc \<Rightarrow> bool" where
  "waits_safely s PredIo \<longleftrightarrow> queued (sh s) = 0"
| "waits_safely s PredWork \<longleftrightarrow>
     queued (sh s) = 0 \<and> (0 < poll_length (sh s) \<longrightarrow> (\<exists>u < length (pcs s). will_lock (pcs s ! u)))"
| "waits_safely s Sleep \<longleftrightarrow>
     queued (sh s) = 0 \<and> (to_do (sh s) \<longrightarrow> (\<exists>u < length (pcs s). will_lock (pcs s ! u)))"
| "waits_safely s Asleep \<longleftrightarrow> (to_do (sh s) \<longrightarrow> (\<exists>u < length (pcs s). will_notify (pcs s ! u)))"
| "waits_safely s _ \<longleftrightarrow> True"

text \<open>
  The steps after which a notification can come too early: starting an operation or releasing
  work from a thread that does not run the context, and an exception of the last handler of a
  round. All of them change the condition and notify without ever taking the mutex.
\<close>

fun under_mutex :: "system \<Rightarrow> action \<Rightarrow> bool" where
  "under_mutex s UserStart = False"
| "under_mutex s UserRelease = False"
| "under_mutex s (Thread t c) \<longleftrightarrow> \<not> (c = Calls CallThrow \<and> pcs s ! t = Handler 0)"
| "under_mutex s _ = True"

text \<open>What one thread's step can do to the others' conditions.\<close>

lemma thread_step_wakeup:
  assumes "thread_step c t s p = Goes (s', p', n)" and "\<not> (c = Calls CallThrow \<and> p = Handler 0)"
  shows "will_lock p \<Longrightarrow> \<not> will_lock p' \<Longrightarrow> lock_owner s = None"
    and "will_notify p \<Longrightarrow> \<not> will_notify p' \<Longrightarrow> n"
    and "queued s' \<noteq> queued s \<Longrightarrow> lock_owner s = None"
    and "0 < queued s' \<Longrightarrow> queued s = 0 \<Longrightarrow> n \<or> will_notify p'"
    and "0 < poll_length s' \<Longrightarrow> poll_length s = 0 \<Longrightarrow> will_lock p'"
    and "work_count s' = 0 \<Longrightarrow> 0 < work_count s \<Longrightarrow> will_lock p'"
  using assms
  by (cases p; cases c; auto simp: choice_defs split: choice_splits)+

lemma thread_step_waits:
  assumes "thread_step c t s p = Goes (s', p', n)"
  shows "p' = PredIo \<Longrightarrow> s' = s \<and> queued s = 0"
    and "p' = PredWork \<Longrightarrow> p = PredIo \<and> s' = s \<and> poll_length s = 0"
    and "p' = Sleep \<Longrightarrow> p = PredWork \<and> s' = s \<and> 0 < work_count s"
    and "p' = Asleep \<Longrightarrow> p = Sleep \<and> s' = s\<lparr>lock_owner := None\<rparr>"
  using assms
  by (cases p; cases c; auto simp: choice_defs split: choice_splits)+

definition wakeups_safe :: "system \<Rightarrow> bool" where
  "wakeups_safe s \<longleftrightarrow> exclusive s \<and> (\<forall>t < length (pcs s). waits_safely s (pcs s ! t))"

text \<open>The thread that takes the step, and the others.\<close>

lemma waits_safely_self:
  assumes "thread_step c t s (ps ! t) = Goes (s', p, n)" and "t < length ps"
    and "waits_safely \<lparr>sh = s, pcs = ps\<rparr> (ps ! t)"
  shows "waits_safely \<lparr>sh = s', pcs = ps[t := p]\<rparr> p"
proof -
  note w = thread_step_waits [OF assms(1)]
  have keep: "\<exists>u < length (ps[t := p]). Q (ps[t := p] ! u)"
    if "\<exists>u < length ps. Q (ps ! u)" and "\<not> Q (ps ! t)" for Q
    using that by (metis length_list_update nth_list_update_neq)
  show ?thesis
  proof (cases p)
    case Sleep
    then show ?thesis using w(3) assms(3) keep [of will_lock] by (auto simp: to_do_def)
  next
    case Asleep
    have "\<exists>u < length (ps[t := p]). will_notify (ps[t := p] ! u)" if "to_do s"
      using w(4) [OF Asleep] assms(3) that keep [of will_lock] will_lock_notifies by fastforce
    then show ?thesis using w(4) [OF Asleep] Asleep by (simp add: to_do_def)
  qed (use w assms(3) in auto)
qed

lemma waits_safely_other:
  assumes step: "thread_step c t s (ps ! t) = Goes (s', p, n)"
    and inside: "\<not> (c = Calls CallThrow \<and> ps ! t = Handler 0)"
    and t: "t < length ps" and v: "v < length ps" "v \<noteq> t"
    and safe: "waits_safely \<lparr>sh = s, pcs = ps\<rparr> (ps ! v)" and ex: "exclusive \<lparr>sh = s, pcs = ps\<rparr>"
    and asleep: "ps ! v = Asleep \<Longrightarrow> \<not> n"
  shows "waits_safely \<lparr>sh = s', pcs = ps[t := p]\<rparr> (ps ! v)"
proof -
  note w = thread_step_wakeup [OF step inside]
  have keep: "\<exists>u < length (ps[t := p]). Q (ps[t := p] ! u)"
    if "\<exists>u < length ps. Q (ps ! u)" and "Q (ps ! t) \<Longrightarrow> Q p" for Q
    using that t by (metis length_list_update nth_list_update nth_list_update_neq)
  have new: "\<exists>u < length (ps[t := p]). Q (ps[t := p] ! u)" if "Q p" for Q
    using that t by auto
  have locked: "queued s' = queued s" "will_lock (ps ! t) \<Longrightarrow> will_lock p" if "in_section (ps ! v)"
    using that ex v(1) w(1,3) by (auto simp: exclusive_def)
  show ?thesis
  proof (cases "ps ! v")
    case PredWork
    then show ?thesis using safe locked w(5) keep [of will_lock] new [of will_lock] by fastforce
  next
    case Sleep
    then show ?thesis using safe locked w(5,6) keep [of will_lock] new [of will_lock]
      by (fastforce simp: to_do_def)
  next
    case Asleep
    then show ?thesis using asleep safe w(2,4,5,6) keep [of will_notify] new [of will_notify] will_lock_notifies
      by (fastforce simp: to_do_def)
  qed (use safe locked in auto)
qed

lemma will_notify_all [simp]:
  "will_lock (if q = Asleep then Woken else q) = will_lock q"
  "will_notify (if q = Asleep then Woken else q) = will_notify q"
  by simp_all

lemma waits_safely_notified:
  assumes "\<And>q. q \<in> set ps \<Longrightarrow> q \<noteq> Asleep \<Longrightarrow> waits_safely \<lparr>sh = s, pcs = ps\<rparr> q"
  shows "\<forall>v < length ps. waits_safely \<lparr>sh = s, pcs = notify_all ps\<rparr> (notify_all ps ! v)"
proof (intro allI impI)
  fix v
  assume v: "v < length ps"
  have e: "(\<exists>u < length ps. Q (notify_all ps ! u)) \<longleftrightarrow> (\<exists>u < length ps. Q (ps ! u))"
    if "\<And>q. Q (if q = Asleep then Woken else q) = Q q" for Q
    using that by (metis nth_notify_all)
  show "waits_safely \<lparr>sh = s, pcs = notify_all ps\<rparr> (notify_all ps ! v)"
  proof (cases "ps ! v = Asleep")
    case False
    then have "waits_safely \<lparr>sh = s, pcs = ps\<rparr> (ps ! v)" using assms v by simp
    then show ?thesis
      using False v e [of will_lock] by (cases "ps ! v") simp_all
  qed (use v in simp)
qed

text \<open>A thread that wakes up for no reason, and the calls of the user that go through the mutex.\<close>

lemma spurious_safe:
  assumes "t < length ps" and "ps ! t = Asleep" and "v < length ps"
    and safe: "waits_safely \<lparr>sh = s, pcs = ps\<rparr> (ps ! v)"
  shows "waits_safely \<lparr>sh = s, pcs = ps[t := Woken]\<rparr> (ps[t := Woken] ! v)"
proof -
  have keep: "(\<exists>u < length ps. Q (ps[t := Woken] ! u)) \<longleftrightarrow> (\<exists>u < length ps. Q (ps ! u))"
    if "\<not> Q Woken" "\<not> Q Asleep" for Q
    using that assms(1,2) by (metis nth_list_update nth_list_update_neq)
  have "waits_safely \<lparr>sh = s, pcs = ps[t := Woken]\<rparr> (ps ! v)"
    using safe keep [of will_lock] keep [of will_notify] by (cases "ps ! v") auto
  then show ?thesis using assms(1) by (cases "v = t") simp_all
qed

lemma latch_safe:
  assumes "waits_safely \<lparr>sh = s, pcs = ps\<rparr> q"
  shows "waits_safely \<lparr>sh = s\<lparr>work_count := work_count s + 1, user_work := user_work s + 1\<rparr>, pcs = ps\<rparr> q"
  using assms by (cases q) (auto simp: to_do_def)

lemma post_safe:
  assumes "exclusive \<lparr>sh = s, pcs = ps\<rparr>" and "lock_owner s = None" and "q \<in> set ps" and "q \<noteq> Asleep"
  shows "waits_safely \<lparr>sh = s', pcs = ps\<rparr> q"
  using assms by (cases q) (auto simp: exclusive_def in_set_conv_nth)

lemma thread_safe:
  assumes step: "thread_step c t s (ps ! t) = Goes (s', p, n)" and t: "t < length ps"
    and inside: "under_mutex \<lparr>sh = s, pcs = ps\<rparr> (Thread t c)" and ex: "exclusive \<lparr>sh = s, pcs = ps\<rparr>"
    and safe: "\<forall>v < length ps. waits_safely \<lparr>sh = s, pcs = ps\<rparr> (ps ! v)"
  defines "qs \<equiv> if n then notify_all (ps[t := p]) else ps[t := p]"
  shows "\<forall>v < length qs. waits_safely \<lparr>sh = s', pcs = qs\<rparr> (qs ! v)"
proof -
  have self: "waits_safely \<lparr>sh = s', pcs = ps[t := p]\<rparr> p"
    using waits_safely_self [OF step t] safe t by simp
  have other: "waits_safely \<lparr>sh = s', pcs = ps[t := p]\<rparr> (ps ! v)"
    if "v < length ps" "v \<noteq> t" "ps ! v = Asleep \<Longrightarrow> \<not> n" for v
    by (rule waits_safely_other [OF step _ t that(1,2)]) (use that safe ex inside in auto)
  show ?thesis
  proof (cases n)
    case True
    have "waits_safely \<lparr>sh = s', pcs = ps[t := p]\<rparr> q" if "q \<in> set (ps[t := p])" "q \<noteq> Asleep" for q
      using that self other t by (metis in_set_conv_nth length_list_update nth_list_update nth_list_update_neq)
    then show ?thesis using waits_safely_notified [of "ps[t := p]" s'] True by (simp add: qs_def)
  next
    case False
    then show ?thesis using self other t by (auto simp: qs_def nth_list_update)
  qed
qed

lemma wakeups_safe_step:
  assumes "wakeups_safe s" and "under_mutex s a" and "step a s s'"
  shows "wakeups_safe s'"
proof -
  have ex: "exclusive s" and safe: "\<forall>t < length (pcs s). waits_safely s (pcs s ! t)"
    using assms(1) by (auto simp: wakeups_safe_def)
  have "\<forall>t < length (pcs s'). waits_safely s' (pcs s' ! t)"
    using assms(3)
  proof (cases rule: step.cases)
    case (thread t ps c s0 s1 p n)
    then show ?thesis using thread_safe [OF thread(5,4)] ex safe assms(2) by simp
  next
    case (spurious t ps s0)
    then show ?thesis using spurious_safe safe by simp
  next
    case (latch s0 ps)
    then show ?thesis using latch_safe safe by simp
  next
    case (post s0 ps)
    then show ?thesis using waits_safely_notified post_safe ex by simp
  qed (use assms(2) in simp_all)
  then show ?thesis using exclusive_step [OF ex assms(3)] by (simp add: wakeups_safe_def)
qed

lemma wakeups_safe_initial: "wakeups_safe (initial n)"
  using exclusive_initial by (simp add: wakeups_safe_def initial_def)

interpretation wakeups: system_invariant under_mutex wakeups_safe
  by unfold_locales (auto intro: wakeups_safe_step wakeups_safe_initial)

section \<open>Progress\<close>

text \<open>A thread that will notify is never stuck: it can go on, or the owner of a mutex can.\<close>

fun way_on :: "pc \<Rightarrow> choice" where
  "way_on (Handler _) = Calls CallPost"
| "way_on Poll = Polls PollReturn"
| "way_on (Posting _) = Polls PollUnlock"
| "way_on _ = Next"

lemma section_goes: "in_section p \<Longrightarrow> is_goes (thread_step (way_on p) t s p)"
  by (cases p) (simp_all add: thread_step_def)

lemma io_section_goes:
  "in_io_section p \<Longrightarrow> posted p \<le> poll_length s \<Longrightarrow> is_goes (thread_step (way_on p) t s p)"
  by (cases p) (simp_all add: thread_step_def poll_step_def)

lemma notifier_goes:
  assumes "will_notify p" and "lock_owner s = None" and "io_lock_owner s = None" and "posted p \<le> poll_length s"
  shows "is_goes (thread_step (way_on p) t s p)"
  using assms by (cases p) (simp_all add: choice_defs)

lemma some_thread_goes:
  assumes "balanced s" and "exclusive s" and "u < length (pcs s)" and "will_notify (pcs s ! u)"
  shows "\<exists>v < length (pcs s). \<exists>c. is_goes (thread_step c v (sh s) (pcs s ! v))"
proof (cases "lock_owner (sh s)")
  case (Some v)
  then have "v < length (pcs s)" "in_section (pcs s ! v)" using assms(2) by (auto simp: exclusive_def)
  then show ?thesis using section_goes by blast
next
  case lock: None
  show ?thesis
  proof (cases "io_lock_owner (sh s)")
    case (Some v)
    then have v: "v < length (pcs s)" "in_io_section (pcs s ! v)" using assms(2) by (auto simp: exclusive_def)
    then show ?thesis using io_section_goes posted_le [OF assms(1)] by blast
  next
    case None
    then show ?thesis using notifier_goes [OF assms(4) lock] posted_le [OF assms(1,3)] assms(3) by blast
  qed
qed

section \<open>Execution\<close>

text \<open>Steps and sequences of allowed steps as functions.\<close>

fun perform :: "action \<Rightarrow> system \<Rightarrow> system option" where
  "perform (Thread t c) s =
     (if t < length (pcs s)
      then (case thread_step c t (sh s) (pcs s ! t) of
              Goes (s', p, notifies) \<Rightarrow>
                Some \<lparr>sh = s', pcs = if notifies then notify_all ((pcs s)[t := p]) else (pcs s)[t := p]\<rparr>
            | _ \<Rightarrow> None)
      else None)"
| "perform (Spurious t) s =
     (if t < length (pcs s) \<and> pcs s ! t = Asleep then Some (s\<lparr>pcs := (pcs s)[t := Woken]\<rparr>) else None)"
| "perform UserLatch s =
     Some (s\<lparr>sh := (sh s)\<lparr>work_count := work_count (sh s) + 1, user_work := user_work (sh s) + 1\<rparr>\<rparr>)"
| "perform UserPost s =
     (if 0 < user_work (sh s) \<and> lock_owner (sh s) = None
      then Some \<lparr>sh = (sh s)\<lparr>queued := queued (sh s) + 1, user_work := user_work (sh s) - 1\<rparr>,
                 pcs = notify_all (pcs s)\<rparr>
      else None)"
| "perform UserStart s =
     (if 0 < user_work (sh s) \<and> io_lock_owner (sh s) = None
      then Some \<lparr>sh = (sh s)\<lparr>operations := operations (sh s) + 1, poll_length := poll_length (sh s) + 1,
                              user_work := user_work (sh s) - 1\<rparr>, pcs = notify_all (pcs s)\<rparr>
      else None)"
| "perform UserRelease s =
     (if 0 < user_work (sh s) \<and> 0 < work_count (sh s)
      then Some \<lparr>sh = (sh s)\<lparr>work_count := work_count (sh s) - 1, user_work := user_work (sh s) - 1\<rparr>,
                 pcs = notify_all (pcs s)\<rparr>
      else None)"

lemma perform_step:
  assumes "perform a s = Some s'"
  shows "step a s s'"
proof (cases s)
  case (fields s0 ps)
  show ?thesis
  proof (cases a)
    case (Thread t c)
    then obtain s1 p n where "t < length ps" "thread_step c t s0 (ps ! t) = Goes (s1, p, n)"
      "s' = \<lparr>sh = s1, pcs = if n then notify_all (ps[t := p]) else ps[t := p]\<rparr>"
      using assms fields by (auto split: if_splits outcome.splits)
    then show ?thesis unfolding fields Thread using step.thread [of t ps c s0 s1 p n] by blast
  qed (use assms fields in \<open>auto simp: step.simps split: if_splits\<close>)
qed

primrec performs :: "(system \<Rightarrow> action \<Rightarrow> bool) \<Rightarrow> action list \<Rightarrow> system \<Rightarrow> system option" where
  "performs allowed [] s = Some s"
| "performs allowed (a # as) s =
     (if allowed s a then Option.bind (perform a s) (performs allowed as) else None)"

lemma performs_reachable:
  "reachable allowed n s \<Longrightarrow> performs allowed as s = Some s' \<Longrightarrow> reachable allowed n s'"
proof (induction as arbitrary: s)
  case (Cons a as)
  then obtain s1 where "allowed s a" "perform a s = Some s1" "performs allowed as s1 = Some s'"
    by (auto simp: bind_eq_Some_conv split: if_splits)
  moreover from this have "reachable allowed n s1"
    using Cons.prems(1) perform_step reachable.next_state by metis
  ultimately show ?case using Cons.IH by blast
qed simp

section \<open>Properties\<close>

lemma reachable_weaken:
  assumes "reachable allowed n s" and "\<And>s a. allowed s a \<Longrightarrow> allowed' s a"
  shows "reachable allowed' n s"
  using assms(1) by (induction rule: reachable.induct) (auto intro: reachable.intros assms(2))

text \<open>Two threads: the first runs a handler, the second has found nothing to do and sleeps.\<close>

definition both_run :: "action list" where
  "both_run = [UserLatch, UserPost, Thread 0 CallRun] @ replicate 6 (Thread 0 Next)
     @ [Thread 1 CallRun] @ replicate 8 (Thread 1 Next)"

lemmas eval_system = initial_def fresh_shared_def thread_step_def handler_call_def release_count_def
  poll_step_def notify_all_def numeral_eq_Suc





text \<open>A thread that sleeps for ever although there is something to do.\<close>

definition lost_wakeup :: "system \<Rightarrow> bool" where
  "lost_wakeup s \<longleftrightarrow> to_do (sh s) \<and> Asleep \<in> set (pcs s) \<and> (\<forall>p \<in> set (pcs s). \<not> will_notify p)"

definition one_waits :: "action list" where
  "one_waits = [UserLatch, Thread 0 CallRun] @ replicate 8 (Thread 0 Next)"

lemma performs_lost:
  assumes "Option.bind (performs allowed as (initial n)) (\<lambda>s. Some (lost_wakeup s)) = Some True"
  shows "\<exists>s. reachable allowed n s \<and> lost_wakeup s"
proof -
  obtain s where s: "performs allowed as (initial n) = Some s" "lost_wakeup s"
    using assms by (auto simp: bind_eq_Some_conv)
  then show ?thesis using performs_reachable [OF reachable.start_state s(1)] by blast
qed

text \<open>
  Claim C14. Each of the three kinds of steps left out above loses wakeups: a thread that has found
  nothing to do and is about to block misses the notification of a \<^verbatim>\<open>Work\<close> released or an
  operation started by another thread, or of the thread whose last handler throws; it then
  sleeps with no work left or with an operation nobody polls, and no other thread will notify.
\<close>

theorem wakeups_can_be_lost:
  "(\<exists>s. reachable (\<lambda>s a. under_mutex s a \<or> a = UserRelease) 1 s \<and> lost_wakeup s)
   \<and> (\<exists>s. reachable (\<lambda>s a. under_mutex s a \<or> a = UserStart) 1 s \<and> lost_wakeup s)
   \<and> (\<exists>s. reachable (\<lambda>s a. under_mutex s a \<or> a = Thread 0 (Calls CallThrow)) 2 s \<and> lost_wakeup s)"
proof (intro conjI)
  show "\<exists>s. reachable (\<lambda>s a. under_mutex s a \<or> a = UserRelease) 1 s \<and> lost_wakeup s"
    by (rule performs_lost [where as = "one_waits @ [UserRelease, Thread 0 Next]"])
      (simp add: one_waits_def eval_system lost_wakeup_def to_do_def)
  show "\<exists>s. reachable (\<lambda>s a. under_mutex s a \<or> a = UserStart) 1 s \<and> lost_wakeup s"
    by (rule performs_lost [where as = "one_waits @ [UserStart, Thread 0 Next]"])
      (simp add: one_waits_def eval_system lost_wakeup_def to_do_def)
  show "\<exists>s. reachable (\<lambda>s a. under_mutex s a \<or> a = Thread 0 (Calls CallThrow)) 2 s \<and> lost_wakeup s"
    by (rule performs_lost [where as = "both_run @ Thread 0 (Calls CallThrow) # replicate 3 (Thread 0 Next)
          @ [Thread 1 Next]"])
      (simp add: both_run_def eval_system lost_wakeup_def to_do_def)
qed

end
