(* ===== verification/Allocation.thy ===== *)
theory Allocation
  imports Exios_Prelude
begin

text \<open>
  The allocators of operation objects: the choice of an allocator (\<^verbatim>\<open>alloc_utils.hpp\<close>), the
  allocation of an operation by \<^verbatim>\<open>make_async_operation\<close>, and its release by
  \<^verbatim>\<open>AsyncOperationImpl::discard\<close> and \<^verbatim>\<open>dispatch\<close> (\<^verbatim>\<open>async_operation.hpp\<close>);
  \<^verbatim>\<open>make_async_io_operation\<close> and \<^verbatim>\<open>AsyncIoOperationImpl\<close> do the same. The other theories leave
  allocators out and let allocation succeed; here an allocation may fail and a handler's move
  constructor may throw.
\<close>

section \<open>Allocators\<close>

text \<open>
  An allocator is a handle to a memory resource for blocks of one type; rebinding gives a handle
  to the same resource for another type.
\<close>

datatype block_type = VoidBlock | FunctionBlock | OperationBlock

record alloc =
  resource :: nat
  block :: block_type

definition rebind_allocator :: "block_type \<Rightarrow> alloc \<Rightarrow> alloc" where
  "rebind_allocator ty a = a\<lparr>block := ty\<rparr>"

text \<open>
  A handler is a plain function object, one with a member \<^verbatim>\<open>get_allocator\<close>, or either in the
  wrapper of \<^verbatim>\<open>use_allocator\<close>.
\<close>

datatype fn_object = PlainFn nat | AllocatorFn nat alloc | UseAllocatorWrapper fn_object alloc

primrec get_allocator :: "fn_object \<Rightarrow> alloc option" where
  "get_allocator (PlainFn _) = None"
| "get_allocator (AllocatorFn _ a) = Some a"
| "get_allocator (UseAllocatorWrapper _ a) = Some a"

definition use_allocator :: "fn_object \<Rightarrow> alloc \<Rightarrow> fn_object" where
  "use_allocator f a = UseAllocatorWrapper f a"

text \<open>Calling the wrapper calls the function object inside.\<close>

primrec call_target :: "fn_object \<Rightarrow> nat" where
  "call_target (PlainFn n) = n"
| "call_target (AllocatorFn n _) = n"
| "call_target (UseAllocatorWrapper f _) = call_target f"

definition std_allocator :: alloc where
  "std_allocator = \<lparr>resource = 0, block = VoidBlock\<rparr>"

definition select_allocator :: "fn_object \<Rightarrow> alloc \<Rightarrow> alloc" where
  "select_allocator f fallback =
     rebind_allocator FunctionBlock (case get_allocator f of Some a \<Rightarrow> a | None \<Rightarrow> fallback)"

section \<open>Memory\<close>

text \<open>
  The allocated blocks, with the allocator each came from. \<^verbatim>\<open>allocate\<close> gives a block that is not
  in use, or throws; \<^verbatim>\<open>deallocate\<close> of a block with another allocator than its own is undefined
  behaviour. Where a new block is put and when allocation fails is up to the resources.
\<close>

record memory =
  blocks :: "nat \<rightharpoonup> alloc"
  pick :: "nat \<Rightarrow> nat option"

definition allocate_block :: "alloc \<Rightarrow> memory \<Rightarrow> (nat \<times> memory) option" where
  "allocate_block a m =
     (case pick m (resource a) of
        None \<Rightarrow> None
      | Some p \<Rightarrow> if blocks m p = None then Some (p, m\<lparr>blocks := (blocks m)(p \<mapsto> a)\<rparr>) else None)"

definition deallocate_block :: "alloc \<Rightarrow> nat \<Rightarrow> memory \<Rightarrow> memory run" where
  "deallocate_block a p m =
     (if blocks m p = Some a then Ok (m\<lparr>blocks := (blocks m)(p := None)\<rparr>) else Fault BadAccess)"

section \<open>Operation objects\<close>

record operation_object =
  op_f :: fn_object
  op_alloc :: alloc

datatype alloc_exn = BadAlloc | MoveThrew

text \<open>
  \<^verbatim>\<open>make_async_operation\<close>; \<open>throws\<close> says whether moving the handler into the object throws. An
  exception gives the block back before it is passed on.
\<close>

definition make_operation ::
  "(fn_object \<Rightarrow> bool) \<Rightarrow> fn_object \<Rightarrow> alloc \<Rightarrow> memory
     \<Rightarrow> ((alloc_exn + nat \<times> operation_object) \<times> memory) run" where
  "make_operation throws f a m =
     (let alloc_tmp = rebind_allocator OperationBlock a
      in case allocate_block alloc_tmp m of
           None \<Rightarrow> Ok (Inl BadAlloc, m)
         | Some (p, m) \<Rightarrow>
             if throws f
             then run_bind (deallocate_block alloc_tmp p m) (\<lambda>m. Ok (Inl MoveThrew, m))
             else Ok (Inr (p, \<lparr>op_f = f, op_alloc = a\<rparr>), m))"

text \<open>\<^verbatim>\<open>discard\<close>: the allocator is copied out of the object before the object is destroyed.\<close>

definition discard_operation :: "nat \<Rightarrow> operation_object \<Rightarrow> memory \<Rightarrow> memory run" where
  "discard_operation p ob m = deallocate_block (rebind_allocator OperationBlock (op_alloc ob)) p m"

text \<open>\<^verbatim>\<open>dispatch\<close>: the handler, with the memory it finds when it is called.\<close>

definition dispatch_operation :: "nat \<Rightarrow> operation_object \<Rightarrow> memory \<Rightarrow> (nat \<times> memory) run" where
  "dispatch_operation p ob m =
     (let tmp_f = op_f ob in run_bind (discard_operation p ob m) (\<lambda>m. Ok (call_target tmp_f, m)))"

text \<open>\<^verbatim>\<open>ContextThread::post(F&& f)\<close> up to the allocation of its operation.\<close>

definition post_allocates ::
  "(fn_object \<Rightarrow> bool) \<Rightarrow> fn_object \<Rightarrow> memory \<Rightarrow> ((alloc_exn + nat \<times> operation_object) \<times> memory) run" where
  "post_allocates throws f m = make_operation throws f (select_allocator f std_allocator) m"

section \<open>Properties\<close>

lemma rebind_rebind [simp]: "rebind_allocator t (rebind_allocator u a) = rebind_allocator t a"
  by (simp add: rebind_allocator_def)



end
