(* ===== verification/Spec2Isabelle.thy ===== *)
theory Spec2Isabelle
  imports Typing Iterators List_Moves Searches Wakeups Allocation
begin

text \<open>
  A verification development for exios, an asynchronous I/O library for Linux in C++20
  (\<^verbatim>\<open>src/include/exios\<close>, \<^verbatim>\<open>src/src\<close>).

  \<^bold>\<open>The program.\<close> A \<^verbatim>\<open>ContextThread\<close> owns a queue of completions and an \<^verbatim>\<open>IoScheduler\<close>.
  The I/O objects (\<^verbatim>\<open>Timer\<close>, \<^verbatim>\<open>Event\<close>, \<^verbatim>\<open>Signal\<close>, the TCP, UDP and UNIX sockets) each own a
  file descriptor; their asynchronous members allocate an operation object with the user's handler
  and give it to the scheduler. The scheduler keeps its operations in an intrusive list sorted by
  descriptor, with the cancelled ones behind an iterator \<^verbatim>\<open>begin_cancelled_\<close>, and registers the
  descriptors with epoll. \<^verbatim>\<open>ContextThread::run\<close> dispatches the completions in the queue and then
  polls: ready operations perform their system call and go to the completion queue.
  Every handler is wrapped with a \<^verbatim>\<open>Work\<close> object; \<^verbatim>\<open>run\<close> returns when none is left.

  \<^bold>\<open>The model.\<close> A computation of type \<open>'a run\<close> returns, stops the process with a fault (failed
  contract, undefined behaviour, exception out of a \<^verbatim>\<open>noexcept\<close> function), or does not return.
  Exceptions are values beside the state. The state of a context is the record \<open>world\<close>: the
  \<^verbatim>\<open>prev\<close> and \<^verbatim>\<open>next\<close> pointers of all list items by address, the operation objects by address, the
  members of \<^verbatim>\<open>ContextThread\<close> and \<^verbatim>\<open>IoScheduler\<close>, the descriptors of the user's I/O objects and
  the state of the kernel. The kernel is a parameter of every definition that makes system calls:
  a function from its state and a call to the result and its next state. What the code relies on
  of it, the documented behaviour of \<^verbatim>\<open>eventfd\<close>, \<^verbatim>\<open>epoll_ctl\<close>, \<^verbatim>\<open>epoll_wait\<close>, \<^verbatim>\<open>close\<close> and of
  the calls that open descriptors, on the set of open descriptors and on the interest list of the
  epoll instance, is the locale \<open>os_contract\<close>, and an executable kernel that satisfies it serves the witnesses. The user's
  handlers are a parameter as well: which calls of the library they make, and whether they throw.
  These theories follow one thread. How several threads share a context is a transition system
  of its own, whose steps are the accesses of one thread to shared data.

  \<^bold>\<open>The theories.\<close>
  \<^item> \<open>Exios_Prelude\<close>: computations, contracts (\<^verbatim>\<open>contracts.hpp\<close>), scope guards
    (\<^verbatim>\<open>scope_guard.hpp\<close>), words, shared lemmas.
    \<open>Posix\<close>: the types and constants of the system headers and the system calls.
    \<open>Kernel_Contract\<close>: what exios relies on of the kernel, and the executable kernel.
  \<^item> \<open>Intrusive_List\<close>, \<open>Iterators\<close>, \<open>Owned_Lists\<close>: \<^verbatim>\<open>intrusive_list.hpp\<close> at the level of
    pointers; the predicate \<open>il\<close> relates a sentinel to the abstract list, and every operation
    is shown to implement the operation on lists, alone and beside other lists of the same memory.
    \<open>List_Moves\<close>: the move constructor and the move assignment.
  \<^item> \<open>Utils\<close>: byte order and address parsing. \<open>Result\<close>: \<^verbatim>\<open>result.hpp\<close>.
  \<^item> \<open>Io\<close>: the operations of \<^verbatim>\<open>io.hpp\<close> and \<^verbatim>\<open>io.cpp\<close>. \<open>Async_Operation\<close>: operation objects
    and the record \<open>world\<close>. \<open>File_Descriptor\<close>: owners of descriptors.
  \<^item> \<open>Io_Scheduler\<close>: \<^verbatim>\<open>io_scheduler.cpp\<close>, \<^verbatim>\<open>poll_wake_event.cpp\<close> and \<^verbatim>\<open>ContextThread::post\<close>.
    Its proofs are in \<open>Scheduler_Lists\<close> (the invariant), \<open>Schedule\<close>, \<open>Cancel\<close>, \<open>Poll\<close> and
    \<open>Poll_Once\<close>; \<open>Scheduler_Theorems\<close> states the results, and \<open>Searches\<close>
    that its searches find what walking over the operations finds.
  \<^item> \<open>Context_Thread\<close>: \<^verbatim>\<open>context_thread.cpp\<close>, \<^verbatim>\<open>context.cpp\<close>, \<^verbatim>\<open>work.hpp\<close>, dispatching, construction and
    destruction. Its proofs are in \<open>Context_Invariant\<close>, \<open>Run_Once\<close>, \<open>Run\<close> and \<open>Lifecycle\<close>;
    \<open>Context_Theorems\<close> states the results.
  \<^item> \<open>Io_Object\<close>, \<open>Timer\<close> (timers, events, signals), \<open>Sockets\<close>: the I/O objects;
    \<open>Object_Theorems\<close>: their members inside a context. \<open>Typing\<close>: the result types handlers get.
  \<^item> \<open>Threads\<close>, \<open>Wakeups\<close>: any number of threads in \<^verbatim>\<open>run\<close>, with the mutexes, the atomic counters
    and the condition variable, on the numbers of completions, operations and work.
  \<^item> \<open>Allocation\<close>: \<^verbatim>\<open>alloc_utils.hpp\<close> and the memory of operation objects, where allocating
    may fail and moving a handler may throw.

  \<^bold>\<open>What is shown.\<close>
  \<^item> Lists: each operation refines the operation on abstract lists; splicing a range to its
    own end never returns, and moving lists loses their items or does not end.
  \<^item> Scheduler: the invariant (sorted active operations, cancelled ones behind the marker,
    exactly the active descriptors registered, the counter equal to the length) is kept by
    schedule, cancel and poll; what each of them does to the lists, which operations an event
    completes, that poll returns when the kernel reports something, and that the searches are
    equivalent to walking over the list.
  \<^item> Context: the invariant of the whole context (no leaked and no dangling object, one active
    \<^verbatim>\<open>Work\<close> at least per object, the counter of work equal to the work that exists, one owner
    for every descriptor and no operation that waits for a descriptor somebody else may close) is
    kept by everything user code calls; \<^verbatim>\<open>run_once\<close> dispatches each completion once, in order, also
    when a handler throws; \<^verbatim>\<open>run\<close> returns only when nothing is left, and does return for posted
    completions; what construction establishes and destruction leaves.
  \<^item> I/O objects: constructing one, every member, a detached timer, and retiring a cancelled
    object keep the invariant of the context, and every member starts exactly its operation; descriptors are closed once, except by \<^verbatim>\<open>IoObject::close\<close>; constructors that throw
    leak nothing; handlers get the result type of their member; the conversions of addresses,
    ports, names and durations.
  \<^item> Threads: no contract check of the counters fails and the mutexes exclude, however the steps
    of the threads interleave; no wakeup is lost as long as what the threads wait for changes in
    handlers or by posting, and three ways to lose one otherwise.
  \<^item> Memory of operations: a failing post leaves the memory as it was, and a block goes back to
    the allocator it came from before the handler runs.

  The locales state the interfaces: an I/O operation as the scheduler uses it (\<open>io_operation\<close>,
  one instance per operation struct), the callback of \<^verbatim>\<open>drain_list\<close> (\<open>drain_callback\<close>, the
  dispatching of \<^verbatim>\<open>run_once\<close> and the discarding of the destructor), the two forms of
  asynchronous members (\<open>preparing_member\<close>, \<open>async_member\<close>), the kernel (\<open>os_contract\<close>) and the
  invariants of systems of threads (\<open>system_invariant\<close>).

  \<^bold>\<open>Loops.\<close> Loops over pointers and \<^verbatim>\<open>run\<close> are partial functions, so that not returning is a
  value; no fuel is used. That they return is proved where it is so.

  \<^bold>\<open>Not modelled.\<close> In the theories that follow one thread, waiting on the condition variable,
  which only another thread could end, does not return; \<open>Threads\<close> keeps of the data only the
  numbers the threads wait for, lets a poll return at any time, and its counters do not overflow.
  A handler that calls \<^verbatim>\<open>run\<close>. Failing allocation outside \<open>Allocation\<close>. The contents of the user's
  buffers. \<^verbatim>\<open>exios.hpp\<close> and \<^verbatim>\<open>lib.cpp\<close> have no code of their own. The closures of acceptors,
  which assign the accepted descriptor to an object of the user, are modelled, but the theorems
  on whole contexts leave them out: until they run, no object owns that descriptor.
\<close>

end
